theory Spec2Isabelle
  imports Main "HOL-Library.Multiset" "HOL-Library.AList" "HOL-Library.Char_ord"
    "HOL-Library.List_Lexorder" "HOL-Library.Product_Lexorder"
begin

section \<open>Grid basics shared by the spatial and key-lock generators\<close>

text \<open>
  Both \<^verbatim>\<open>generate_spatial_eval.py\<close> and \<^verbatim>\<open>generate_keylock_eval.py\<close> work on
  coordinates \<^verbatim>\<open>Coord = Tuple[int, int]\<close> (row, column) with Python's unbounded integers,
  and on direction tokens that are plain strings.
\<close>

type_synonym coord = "int \<times> int"

definition GRID_SIZE :: int where
  "GRID_SIZE = 5"

definition DIRECTIONS :: "coord list" where
  "DIRECTIONS = [(-1, 0), (1, 0), (0, -1), (0, 1)]"

text \<open>\<^verbatim>\<open>DIR_NAMES\<close> and \<^verbatim>\<open>DIR_VECTORS\<close> are dictionaries; a lookup with a missing key
  is \<open>None\<close>.\<close>

definition DIR_NAMES :: "coord \<rightharpoonup> string" where
  "DIR_NAMES = map_of [((-1, 0), ''up''), ((1, 0), ''down''), ((0, -1), ''left''), ((0, 1), ''right'')]"

definition DIR_VECTORS :: "string \<rightharpoonup> coord" where
  "DIR_VECTORS = map_of [(''up'', (-1, 0)), (''down'', (1, 0)), (''left'', (0, -1)), (''right'', (0, 1))]"

text \<open>The test \<^verbatim>\<open>0 <= r < grid_size and 0 <= c < grid_size\<close>.\<close>

definition in_bounds :: "int \<Rightarrow> coord \<Rightarrow> bool" where
  "in_bounds grid_size p = (0 \<le> fst p \<and> fst p < grid_size \<and> 0 \<le> snd p \<and> snd p < grid_size)"

definition add_vec :: "coord \<Rightarrow> coord \<Rightarrow> coord" where
  "add_vec p v = (fst p + fst v, snd p + snd v)"

section \<open>The spatial validator: \<^verbatim>\<open>simulate_path\<close>\<close>

record SimulationResult =
  reached_goal :: bool
  hit_wall :: bool
  out_of_bounds :: bool
  final_position :: coord

text \<open>
  The \<^verbatim>\<open>for d in directions\<close> loop of \<^verbatim>\<open>simulate_path\<close>, with the loop variable
  \<^verbatim>\<open>pos\<close> as an argument. Each \<^verbatim>\<open>break\<close> ends the recursion with the flag it sets;
  the record is the one the function builds after the loop.
\<close>

fun simulate_path_loop :: "coord \<Rightarrow> coord set \<Rightarrow> int \<Rightarrow> coord \<Rightarrow> string list \<Rightarrow> SimulationResult" where
  "simulate_path_loop goal obstacles grid_size pos [] =
     \<lparr>reached_goal = (pos = goal), hit_wall = False, out_of_bounds = False, final_position = pos\<rparr>"
| "simulate_path_loop goal obstacles grid_size pos (d # directions) =
     (case DIR_VECTORS d of
        None \<Rightarrow>
          \<lparr>reached_goal = (pos = goal), hit_wall = False, out_of_bounds = True, final_position = pos\<rparr>
      | Some vec \<Rightarrow>
          (let next_pos = add_vec pos vec in
           if \<not> in_bounds grid_size next_pos then
             \<lparr>reached_goal = (pos = goal), hit_wall = False, out_of_bounds = True, final_position = pos\<rparr>
           else if next_pos \<in> obstacles then
             \<lparr>reached_goal = (pos = goal), hit_wall = True, out_of_bounds = False, final_position = pos\<rparr>
           else simulate_path_loop goal obstacles grid_size next_pos directions))"

definition simulate_path :: "coord \<Rightarrow> coord \<Rightarrow> coord set \<Rightarrow> string list \<Rightarrow> int \<Rightarrow> SimulationResult" where
  "simulate_path start goal obstacles directions grid_size =
     simulate_path_loop goal obstacles grid_size start directions"

definition is_path_physically_invalid :: "coord \<Rightarrow> coord \<Rightarrow> coord set \<Rightarrow> string list \<Rightarrow> int \<Rightarrow> bool" where
  "is_path_physically_invalid start goal obstacles directions grid_size =
     (let result = simulate_path start goal obstacles directions grid_size in
      if hit_wall result \<or> out_of_bounds result then True
      else if \<not> reached_goal result then True
      else False)"

section \<open>The key-lock validator: \<^verbatim>\<open>simulate_actions\<close>\<close>

text \<open>Python's \<^verbatim>\<open>s.startswith(p)\<close>; the slice \<^verbatim>\<open>s[len(p):]\<close> is \<open>drop (length p) s\<close>.\<close>

definition startswith :: "string \<Rightarrow> string \<Rightarrow> bool" where
  "startswith s p = (take (length p) s = p)"

record KeyLockSimResult =
  kl_reached_goal :: bool
  kl_hit_wall :: bool
  kl_out_of_bounds :: bool
  locked_door_blocked :: bool
  invalid_pickup :: bool
  invalid_unlock :: bool
  kl_final_position :: coord
  inventory :: "string set"

text \<open>The record built after the loop, from the loop variables as they stand.\<close>

definition kl_result ::
  "coord \<Rightarrow> coord \<Rightarrow> string set \<Rightarrow> bool \<Rightarrow> bool \<Rightarrow> bool \<Rightarrow> bool \<Rightarrow> bool \<Rightarrow> KeyLockSimResult" where
  "kl_result goal pos invt hw oob ldb ip iu =
     \<lparr>kl_reached_goal = (pos = goal), kl_hit_wall = hw, kl_out_of_bounds = oob,
      locked_door_blocked = ldb, invalid_pickup = ip, invalid_unlock = iu,
      kl_final_position = pos, inventory = invt\<rparr>"

text \<open>
  The \<^verbatim>\<open>for action in actions\<close> loop of \<^verbatim>\<open>simulate_actions\<close>, with \<^verbatim>\<open>pos\<close> and
  \<^verbatim>\<open>inv\<close> (here \<open>invt\<close>) as arguments. The \<^verbatim>\<open>if/elif/elif\<close> chain has no \<^verbatim>\<open>else\<close>: a token that is
  neither a pick-up, an unlock nor a direction changes nothing and the loop goes on.
  A successful unlock changes nothing either.
\<close>

fun simulate_actions_loop ::
  "coord \<Rightarrow> coord set \<Rightarrow> (coord \<rightharpoonup> string) \<Rightarrow> (coord \<rightharpoonup> string) \<Rightarrow> int \<Rightarrow>
   coord \<Rightarrow> string set \<Rightarrow> string list \<Rightarrow> KeyLockSimResult" where
  "simulate_actions_loop goal obstacles keys doors grid_size pos invt [] =
     kl_result goal pos invt False False False False False"
| "simulate_actions_loop goal obstacles keys doors grid_size pos invt (action # actions) =
     (if startswith action ''pick_up_'' then
        (let color = drop (length ''pick_up_'') action in
         if keys pos = Some color \<and> color \<notin> invt then
           simulate_actions_loop goal obstacles keys doors grid_size pos (insert color invt) actions
         else kl_result goal pos invt False False False True False)
      else if startswith action ''unlock_'' then
        (let color = drop (length ''unlock_'') action in
         if color \<notin> invt then kl_result goal pos invt False False False False True
         else simulate_actions_loop goal obstacles keys doors grid_size pos invt actions)
      else
        (case DIR_VECTORS action of
           Some d \<Rightarrow>
             (let new_pos = add_vec pos d in
              if \<not> in_bounds grid_size new_pos then kl_result goal pos invt False True False False False
              else if new_pos \<in> obstacles then kl_result goal pos invt True False False False False
              else if (case doors new_pos of Some c \<Rightarrow> c \<notin> invt | None \<Rightarrow> False) then
                kl_result goal pos invt False False True False False
              else simulate_actions_loop goal obstacles keys doors grid_size new_pos invt actions)
         | None \<Rightarrow> simulate_actions_loop goal obstacles keys doors grid_size pos invt actions))"

definition simulate_actions ::
  "coord \<Rightarrow> coord \<Rightarrow> coord set \<Rightarrow> (coord \<rightharpoonup> string) \<Rightarrow> (coord \<rightharpoonup> string) \<Rightarrow>
   string list \<Rightarrow> int \<Rightarrow> KeyLockSimResult" where
  "simulate_actions start goal obstacles keys doors actions grid_size =
     simulate_actions_loop goal obstacles keys doors grid_size start {} actions"

definition is_action_seq_invalid ::
  "coord \<Rightarrow> coord \<Rightarrow> coord set \<Rightarrow> (coord \<rightharpoonup> string) \<Rightarrow> (coord \<rightharpoonup> string) \<Rightarrow>
   string list \<Rightarrow> int \<Rightarrow> bool" where
  "is_action_seq_invalid start goal obstacles keys doors actions grid_size =
     (let result = simulate_actions start goal obstacles keys doors actions grid_size in
      if kl_hit_wall result \<or> kl_out_of_bounds result then True
      else if locked_door_blocked result then True
      else if invalid_pickup result \<or> invalid_unlock result then True
      else if \<not> kl_reached_goal result then True
      else False)"

text \<open>
  Legal cells. For the spatial grid: inside the grid and not an obstacle. For the key-lock
  grid, relative to the keys held: in addition not a door whose colour is missing.
\<close>

definition legal_cell :: "int \<Rightarrow> coord set \<Rightarrow> coord \<Rightarrow> bool" where
  "legal_cell grid_size obstacles p = (in_bounds grid_size p \<and> p \<notin> obstacles)"

definition kl_legal_cell :: "int \<Rightarrow> coord set \<Rightarrow> (coord \<rightharpoonup> string) \<Rightarrow> string set \<Rightarrow> coord \<Rightarrow> bool" where
  "kl_legal_cell grid_size obstacles doors invt p =
     (in_bounds grid_size p \<and> p \<notin> obstacles \<and> (case doors p of Some c \<Rightarrow> c \<in> invt | None \<Rightarrow> True))"

definition spatial_clean :: "SimulationResult \<Rightarrow> bool" where
  "spatial_clean r = (\<not> hit_wall r \<and> \<not> out_of_bounds r)"

definition kl_clean :: "KeyLockSimResult \<Rightarrow> bool" where
  "kl_clean r = (\<not> kl_hit_wall r \<and> \<not> kl_out_of_bounds r \<and> \<not> locked_door_blocked r \<and>
                 \<not> invalid_pickup r \<and> \<not> invalid_unlock r)"

text \<open>
  Whether replaying one more token from cell \<open>p\<close> would keep the agent on a legal cell.
  In the spatial validator an unknown token counts as a violation (the source treats it as
  out of bounds); in the key-lock validator only direction tokens move the agent.
\<close>

definition spatial_move_legal :: "int \<Rightarrow> coord set \<Rightarrow> coord \<Rightarrow> string \<Rightarrow> bool" where
  "spatial_move_legal grid_size obstacles p d =
     (case DIR_VECTORS d of None \<Rightarrow> False | Some v \<Rightarrow> legal_cell grid_size obstacles (add_vec p v))"

definition kl_move_illegal ::
  "int \<Rightarrow> coord set \<Rightarrow> (coord \<rightharpoonup> string) \<Rightarrow> string set \<Rightarrow> coord \<Rightarrow> string \<Rightarrow> bool" where
  "kl_move_illegal grid_size obstacles doors invt p a =
     (case DIR_VECTORS a of None \<Rightarrow> False
      | Some v \<Rightarrow> \<not> kl_legal_cell grid_size obstacles doors invt (add_vec p v))"

section \<open>Replay keeps the agent on legal cells\<close>

lemma DIR_VECTORS_Some_iff:
  "DIR_VECTORS a = Some v \<longleftrightarrow>
     (a = ''up'' \<and> v = (-1, 0)) \<or> (a = ''down'' \<and> v = (1, 0)) \<or>
     (a = ''left'' \<and> v = (0, -1)) \<or> (a = ''right'' \<and> v = (0, 1))"
  by (auto simp: DIR_VECTORS_def)

lemma DIR_VECTORS_not_prefixed:
  assumes "DIR_VECTORS a = Some v"
  shows "\<not> startswith a ''pick_up_''" and "\<not> startswith a ''unlock_''"
  using assms by (auto simp: DIR_VECTORS_Some_iff startswith_def)

lemma simulate_path_loop_append:
  "simulate_path_loop goal obstacles gs pos (pre @ rest) =
     (let r = simulate_path_loop goal obstacles gs pos pre in
      if spatial_clean r then simulate_path_loop goal obstacles gs (final_position r) rest else r)"
  by (induction pre arbitrary: pos)
     (auto simp: spatial_clean_def Let_def split: option.splits)

lemma simulate_path_loop_legal:
  "legal_cell gs obstacles pos \<Longrightarrow>
   legal_cell gs obstacles (final_position (simulate_path_loop goal obstacles gs pos ds))"
  by (induction ds arbitrary: pos)
     (auto simp: legal_cell_def Let_def split: option.splits)

lemma simulate_path_loop_first_violation:
  assumes "\<not> spatial_move_legal gs obstacles pos d"
  shows "simulate_path_loop goal obstacles gs pos (d # post) =
     \<lparr>reached_goal = (pos = goal),
      hit_wall = (\<exists>v. DIR_VECTORS d = Some v \<and> in_bounds gs (add_vec pos v) \<and> add_vec pos v \<in> obstacles),
      out_of_bounds = (\<forall>v. DIR_VECTORS d = Some v \<longrightarrow> \<not> in_bounds gs (add_vec pos v)),
      final_position = pos\<rparr>"
  using assms
  by (auto simp: spatial_move_legal_def legal_cell_def Let_def split: option.splits)

lemma simulate_actions_loop_append:
  "simulate_actions_loop goal obstacles keys doors gs pos invt (pre @ rest) =
     (let r = simulate_actions_loop goal obstacles keys doors gs pos invt pre in
      if kl_clean r
      then simulate_actions_loop goal obstacles keys doors gs (kl_final_position r) (inventory r) rest
      else r)"
  by (induction pre arbitrary: pos invt)
     (auto simp: kl_clean_def kl_result_def Let_def split: option.splits)

lemma kl_legal_cell_mono:
  "kl_legal_cell gs obstacles doors invt p \<Longrightarrow> kl_legal_cell gs obstacles doors (insert c invt) p"
  by (auto simp: kl_legal_cell_def split: option.splits)

lemma simulate_actions_loop_legal:
  "kl_legal_cell gs obstacles doors invt pos \<Longrightarrow>
   kl_legal_cell gs obstacles doors
     (inventory (simulate_actions_loop goal obstacles keys doors gs pos invt acts))
     (kl_final_position (simulate_actions_loop goal obstacles keys doors gs pos invt acts))"
proof (induction acts arbitrary: pos invt)
  case Nil
  then show ?case by (simp add: kl_result_def)
next
  case (Cons a acts)
  show ?case
  proof (cases "startswith a ''pick_up_''")
    case True
    then show ?thesis
      using Cons.prems Cons.IH [OF kl_legal_cell_mono [OF Cons.prems]]
      by (simp add: kl_result_def Let_def)
  next
    case np: False
    show ?thesis
    proof (cases "startswith a ''unlock_''")
      case True
      then show ?thesis
        using np Cons.prems Cons.IH [OF Cons.prems] by (simp add: kl_result_def Let_def)
    next
      case nu: False
      show ?thesis
      proof (cases "DIR_VECTORS a")
        case None
        then show ?thesis using np nu Cons.IH [OF Cons.prems] by simp
      next
        case (Some d)
        show ?thesis
        proof (cases "kl_legal_cell gs obstacles doors invt (add_vec pos d)")
          case True
          then show ?thesis
            using np nu Some Cons.IH [OF True]
            by (auto simp: kl_legal_cell_def Let_def split: option.splits)
        next
          case False
          then show ?thesis
            using np nu Some Cons.prems
            by (auto simp: kl_legal_cell_def kl_result_def Let_def split: option.splits)
        qed
      qed
    qed
  qed
qed

lemma simulate_actions_loop_first_violation:
  assumes "kl_move_illegal gs obstacles doors invt pos a"
  shows "simulate_actions_loop goal obstacles keys doors gs pos invt (a # post) =
     kl_result goal pos invt
       (\<exists>v. DIR_VECTORS a = Some v \<and> in_bounds gs (add_vec pos v) \<and> add_vec pos v \<in> obstacles)
       (\<exists>v. DIR_VECTORS a = Some v \<and> \<not> in_bounds gs (add_vec pos v))
       (\<exists>v c. DIR_VECTORS a = Some v \<and> in_bounds gs (add_vec pos v) \<and> add_vec pos v \<notin> obstacles \<and>
              doors (add_vec pos v) = Some c \<and> c \<notin> invt)
       False False"
proof -
  obtain v where v: "DIR_VECTORS a = Some v" "\<not> kl_legal_cell gs obstacles doors invt (add_vec pos v)"
    using assms by (auto simp: kl_move_illegal_def split: option.splits)
  note np = DIR_VECTORS_not_prefixed [OF v(1)]
  show ?thesis
    using v np by (auto simp: kl_legal_cell_def Let_def split: option.splits)
qed

text \<open>
  Claim C10. Throughout the replay of any token sequence the validator's tracked position is
  a legal cell, provided the start is one: inside the grid, never on an obstacle and, in the
  key-lock validator, never on a door whose colour is not in the inventory. The tracked
  position after \<open>k\<close> tokens is the final position of the replay of the first \<open>k\<close> tokens.
  At the first token that would move the agent to an illegal cell (in the spatial validator
  also an unknown token) the replay stops: the tokens after it are ignored, the flag that
  names the violation is set and the final position is the last legal cell reached.
\<close>

theorem replay_position_always_legal:
  "(legal_cell gs obstacles start \<longrightarrow>
      (\<forall>k. legal_cell gs obstacles
             (final_position (simulate_path start goal obstacles (take k ds) gs))) \<and>
      (\<forall>pre d post.
         ds = pre @ d # post \<and> spatial_clean (simulate_path start goal obstacles pre gs) \<and>
         \<not> spatial_move_legal gs obstacles
              (final_position (simulate_path start goal obstacles pre gs)) d \<longrightarrow>
         (let p = final_position (simulate_path start goal obstacles pre gs);
              r = simulate_path start goal obstacles ds gs
          in final_position r = p \<and> legal_cell gs obstacles p \<and> \<not> spatial_clean r \<and>
             hit_wall r = (\<exists>v. DIR_VECTORS d = Some v \<and> in_bounds gs (add_vec p v) \<and>
                               add_vec p v \<in> obstacles) \<and>
             out_of_bounds r = (\<forall>v. DIR_VECTORS d = Some v \<longrightarrow> \<not> in_bounds gs (add_vec p v))))) \<and>
   (kl_legal_cell gs obstacles doors {} start \<longrightarrow>
      (\<forall>k. let r = simulate_actions start goal obstacles keys doors (take k acts) gs
           in kl_legal_cell gs obstacles doors (inventory r) (kl_final_position r)) \<and>
      (\<forall>pre a post.
         acts = pre @ a # post \<and>
         kl_clean (simulate_actions start goal obstacles keys doors pre gs) \<and>
         kl_move_illegal gs obstacles doors
           (inventory (simulate_actions start goal obstacles keys doors pre gs))
           (kl_final_position (simulate_actions start goal obstacles keys doors pre gs)) a \<longrightarrow>
         (let q = simulate_actions start goal obstacles keys doors pre gs;
              p = kl_final_position q;
              r = simulate_actions start goal obstacles keys doors acts gs
          in kl_final_position r = p \<and> inventory r = inventory q \<and>
             kl_legal_cell gs obstacles doors (inventory q) p \<and> \<not> kl_clean r \<and>
             \<not> invalid_pickup r \<and> \<not> invalid_unlock r \<and>
             kl_out_of_bounds r = (\<exists>v. DIR_VECTORS a = Some v \<and> \<not> in_bounds gs (add_vec p v)) \<and>
             kl_hit_wall r = (\<exists>v. DIR_VECTORS a = Some v \<and> in_bounds gs (add_vec p v) \<and>
                                  add_vec p v \<in> obstacles) \<and>
             locked_door_blocked r =
               (\<exists>v c. DIR_VECTORS a = Some v \<and> in_bounds gs (add_vec p v) \<and>
                      add_vec p v \<notin> obstacles \<and> doors (add_vec p v) = Some c \<and>
                      c \<notin> inventory q))))"
proof (intro conjI impI allI)
  fix k
  assume "legal_cell gs obstacles start"
  then show "legal_cell gs obstacles
      (final_position (simulate_path start goal obstacles (take k ds) gs))"
    unfolding simulate_path_def by (rule simulate_path_loop_legal)
next
  fix pre d post
  assume st: "legal_cell gs obstacles start"
    and h: "ds = pre @ d # post \<and> spatial_clean (simulate_path start goal obstacles pre gs) \<and>
         \<not> spatial_move_legal gs obstacles
              (final_position (simulate_path start goal obstacles pre gs)) d"
  let ?q = "simulate_path_loop goal obstacles gs start pre"
  have leg: "legal_cell gs obstacles (final_position ?q)"
    using st by (rule simulate_path_loop_legal)
  have viol: "\<not> spatial_move_legal gs obstacles (final_position ?q) d"
    using h by (simp add: simulate_path_def)
  have "simulate_path start goal obstacles ds gs =
      simulate_path_loop goal obstacles gs (final_position ?q) (d # post)"
    using h
    by (simp add: simulate_path_def simulate_path_loop_append Let_def
        del: simulate_path_loop.simps)
  also note simulate_path_loop_first_violation [OF viol]
  finally show "let p = final_position (simulate_path start goal obstacles pre gs);
              r = simulate_path start goal obstacles ds gs
          in final_position r = p \<and> legal_cell gs obstacles p \<and> \<not> spatial_clean r \<and>
             hit_wall r = (\<exists>v. DIR_VECTORS d = Some v \<and> in_bounds gs (add_vec p v) \<and>
                               add_vec p v \<in> obstacles) \<and>
             out_of_bounds r = (\<forall>v. DIR_VECTORS d = Some v \<longrightarrow> \<not> in_bounds gs (add_vec p v))"
    using leg viol
    by (auto simp: simulate_path_def Let_def spatial_clean_def spatial_move_legal_def
        legal_cell_def split: option.splits)
next
  fix k
  assume "kl_legal_cell gs obstacles doors {} start"
  then show "let r = simulate_actions start goal obstacles keys doors (take k acts) gs
           in kl_legal_cell gs obstacles doors (inventory r) (kl_final_position r)"
    unfolding simulate_actions_def Let_def by (rule simulate_actions_loop_legal)
next
  fix pre a post
  assume st: "kl_legal_cell gs obstacles doors {} start"
    and h: "acts = pre @ a # post \<and>
         kl_clean (simulate_actions start goal obstacles keys doors pre gs) \<and>
         kl_move_illegal gs obstacles doors
           (inventory (simulate_actions start goal obstacles keys doors pre gs))
           (kl_final_position (simulate_actions start goal obstacles keys doors pre gs)) a"
  let ?q = "simulate_actions_loop goal obstacles keys doors gs start {} pre"
  have leg: "kl_legal_cell gs obstacles doors (inventory ?q) (kl_final_position ?q)"
    using st by (rule simulate_actions_loop_legal)
  have viol: "kl_move_illegal gs obstacles doors (inventory ?q) (kl_final_position ?q) a"
    using h by (simp add: simulate_actions_def)
  have "simulate_actions start goal obstacles keys doors acts gs =
      simulate_actions_loop goal obstacles keys doors gs (kl_final_position ?q) (inventory ?q) (a # post)"
    using h
    by (simp add: simulate_actions_def simulate_actions_loop_append Let_def
        del: simulate_actions_loop.simps)
  also note simulate_actions_loop_first_violation [OF viol]
  finally show "let q = simulate_actions start goal obstacles keys doors pre gs;
              p = kl_final_position q;
              r = simulate_actions start goal obstacles keys doors acts gs
          in kl_final_position r = p \<and> inventory r = inventory q \<and>
             kl_legal_cell gs obstacles doors (inventory q) p \<and> \<not> kl_clean r \<and>
             \<not> invalid_pickup r \<and> \<not> invalid_unlock r \<and>
             kl_out_of_bounds r = (\<exists>v. DIR_VECTORS a = Some v \<and> \<not> in_bounds gs (add_vec p v)) \<and>
             kl_hit_wall r = (\<exists>v. DIR_VECTORS a = Some v \<and> in_bounds gs (add_vec p v) \<and>
                                  add_vec p v \<in> obstacles) \<and>
             locked_door_blocked r =
               (\<exists>v c. DIR_VECTORS a = Some v \<and> in_bounds gs (add_vec p v) \<and>
                      add_vec p v \<notin> obstacles \<and> doors (add_vec p v) = Some c \<and>
                      c \<notin> inventory q)"
    using leg viol
    by (auto simp: simulate_actions_def Let_def kl_clean_def kl_move_illegal_def kl_result_def
        kl_legal_cell_def split: option.splits)
qed

theorem replay_position_always_legal_witness:
  "legal_cell 5 {(2, 2)} (0, 0) \<and>
   legal_cell 5 {(2, 2)}
     (final_position (simulate_path (0, 0) (4, 4) {(2, 2)}
        (take 2 [''down'', ''down'', ''right'', ''right'', ''right'']) 5)) \<and>
   simulate_path (0, 0) (4, 4) {(2, 2)} [''down'', ''down'', ''right'', ''right'', ''right''] 5 =
     \<lparr>reached_goal = False, hit_wall = True, out_of_bounds = False, final_position = (2, 1)\<rparr> \<and>
   kl_legal_cell 5 {(2, 2)} [(0, 1) \<mapsto> ''red''] {} (0, 0) \<and>
   kl_final_position (simulate_actions (0, 0) (4, 4) {(2, 2)} [(1, 0) \<mapsto> ''red'']
     [(0, 1) \<mapsto> ''red''] [''down'', ''pick_up_red'', ''up'', ''right'', ''right''] 5) = (0, 2) \<and>
   \<not> kl_clean (simulate_actions (0, 0) (4, 4) {(2, 2)} [(1, 0) \<mapsto> ''red'']
     [(0, 1) \<mapsto> ''red''] [''right'', ''right''] 5)"
proof -
  let ?ds = "[''down'', ''down'', ''right'', ''right'', ''right'']"
  let ?acts = "[''right'', ''right'']"
  note th = replay_position_always_legal [of 5 "{(2, 2)}" "(0, 0)" "(4, 4)" ?ds
      "[(0, 1) \<mapsto> ''red'']" "[(1, 0) \<mapsto> ''red'']" ?acts]
  have l1: "legal_cell 5 {(2, 2)} (0, 0)"
    by (simp add: legal_cell_def in_bounds_def)
  have l2: "kl_legal_cell 5 {(2, 2)} [(0, 1) \<mapsto> ''red''] {} (0, 0)"
    by (simp add: kl_legal_cell_def in_bounds_def)
  have a: "legal_cell 5 {(2, 2)}
     (final_position (simulate_path (0, 0) (4, 4) {(2, 2)} (take 2 ?ds) 5))"
    using th l1 by blast
  have pre: "?ds = [''down'', ''down'', ''right''] @ ''right'' # [''right''] \<and>
      spatial_clean (simulate_path (0, 0) (4, 4) {(2, 2)} [''down'', ''down'', ''right''] 5) \<and>
      \<not> spatial_move_legal 5 {(2, 2)}
         (final_position (simulate_path (0, 0) (4, 4) {(2, 2)} [''down'', ''down'', ''right''] 5))
         ''right''"
    by (simp add: simulate_path_def spatial_clean_def spatial_move_legal_def legal_cell_def
        DIR_VECTORS_def add_vec_def in_bounds_def)
  have b: "let p = final_position (simulate_path (0, 0) (4, 4) {(2, 2)} [''down'', ''down'', ''right''] 5);
              r = simulate_path (0, 0) (4, 4) {(2, 2)} ?ds 5
          in final_position r = p \<and> legal_cell 5 {(2, 2)} p \<and> \<not> spatial_clean r \<and>
             hit_wall r = (\<exists>v. DIR_VECTORS ''right'' = Some v \<and> in_bounds 5 (add_vec p v) \<and>
                               add_vec p v \<in> {(2, 2)}) \<and>
             out_of_bounds r = (\<forall>v. DIR_VECTORS ''right'' = Some v \<longrightarrow> \<not> in_bounds 5 (add_vec p v))"
    using th l1 pre by blast
  have kpre: "?acts = [] @ ''right'' # [''right''] \<and>
      kl_clean (simulate_actions (0, 0) (4, 4) {(2, 2)} [(1, 0) \<mapsto> ''red'']
         [(0, 1) \<mapsto> ''red''] [] 5) \<and>
      kl_move_illegal 5 {(2, 2)} [(0, 1) \<mapsto> ''red'']
        (inventory (simulate_actions (0, 0) (4, 4) {(2, 2)} [(1, 0) \<mapsto> ''red'']
           [(0, 1) \<mapsto> ''red''] [] 5))
        (kl_final_position (simulate_actions (0, 0) (4, 4) {(2, 2)} [(1, 0) \<mapsto> ''red'']
           [(0, 1) \<mapsto> ''red''] [] 5)) ''right''"
    by (simp add: simulate_actions_def kl_clean_def kl_result_def kl_move_illegal_def
        kl_legal_cell_def DIR_VECTORS_def add_vec_def in_bounds_def)
  have c: "let q = simulate_actions (0, 0) (4, 4) {(2, 2)} [(1, 0) \<mapsto> ''red''] [(0, 1) \<mapsto> ''red''] [] 5;
              p = kl_final_position q;
              r = simulate_actions (0, 0) (4, 4) {(2, 2)} [(1, 0) \<mapsto> ''red''] [(0, 1) \<mapsto> ''red''] ?acts 5
          in kl_final_position r = p \<and> inventory r = inventory q \<and>
             kl_legal_cell 5 {(2, 2)} [(0, 1) \<mapsto> ''red''] (inventory q) p \<and> \<not> kl_clean r \<and>
             \<not> invalid_pickup r \<and> \<not> invalid_unlock r \<and>
             kl_out_of_bounds r = (\<exists>v. DIR_VECTORS ''right'' = Some v \<and> \<not> in_bounds 5 (add_vec p v)) \<and>
             kl_hit_wall r = (\<exists>v. DIR_VECTORS ''right'' = Some v \<and> in_bounds 5 (add_vec p v) \<and>
                                  add_vec p v \<in> {(2, 2)}) \<and>
             locked_door_blocked r =
               (\<exists>v c. DIR_VECTORS ''right'' = Some v \<and> in_bounds 5 (add_vec p v) \<and>
                      add_vec p v \<notin> {(2, 2)} \<and> [(0, 1) \<mapsto> ''red''] (add_vec p v) = Some c \<and>
                      c \<notin> inventory q)"
    using th l2 kpre by blast
  have e1: "simulate_path (0, 0) (4, 4) {(2, 2)} ?ds 5 =
     \<lparr>reached_goal = False, hit_wall = True, out_of_bounds = False, final_position = (2, 1)\<rparr>"
    by (simp add: simulate_path_def DIR_VECTORS_def add_vec_def in_bounds_def)
  have e2: "kl_final_position (simulate_actions (0, 0) (4, 4) {(2, 2)} [(1, 0) \<mapsto> ''red'']
     [(0, 1) \<mapsto> ''red''] [''down'', ''pick_up_red'', ''up'', ''right'', ''right''] 5) = (0, 2)"
    by (simp add: simulate_actions_def DIR_VECTORS_def add_vec_def in_bounds_def startswith_def
        kl_result_def)
  from c have c': "\<not> kl_clean (simulate_actions (0, 0) (4, 4) {(2, 2)} [(1, 0) \<mapsto> ''red'']
     [(0, 1) \<mapsto> ''red''] ?acts 5)"
    by (simp add: Let_def)
  show ?thesis using l1 a e1 l2 e2 c' by simp
qed

section \<open>Grid navigation: \<^verbatim>\<open>a_star\<close>\<close>

text \<open>Manhattan distance, the heuristic of the search.\<close>

definition heuristic :: "coord \<Rightarrow> coord \<Rightarrow> int" where
  "heuristic a b = \<bar>fst a - fst b\<bar> + \<bar>snd a - snd b\<bar>"

text \<open>
  The open set is a \<^verbatim>\<open>heapq\<close> of tuples \<^verbatim>\<open>(f_score, counter, current_node, path)\<close>.
  The module is the standard library's, modelled by its contract: \<^verbatim>\<open>heappush\<close> adds an
  item and \<^verbatim>\<open>heappop\<close> removes and returns the smallest item. Python compares the tuples
  lexicographically, which is the order of the product type here.
\<close>

type_synonym entry = "int \<times> nat \<times> coord \<times> coord list"

definition heappop :: "entry list \<Rightarrow> entry \<times> entry list" where
  "heappop open_set = (let m = arg_min_list (\<lambda>e. e) open_set in (m, remove1 m open_set))"

text \<open>
  The body of \<^verbatim>\<open>for dr, dc in DIRECTIONS\<close> for one direction, on the pair of the open
  set and the counter. \<^verbatim>\<open>g = len(path)\<close> is the number of steps to the neighbour, since
  the path holds the start cell too.
\<close>

definition push_neighbor ::
  "coord \<Rightarrow> coord set \<Rightarrow> int \<Rightarrow> coord set \<Rightarrow> coord \<Rightarrow> coord list \<Rightarrow> coord \<Rightarrow>
   entry list \<times> nat \<Rightarrow> entry list \<times> nat" where
  "push_neighbor goal obstacles grid_size visited current path d st =
     (let neighbor = add_vec current d in
      if in_bounds grid_size neighbor \<and> neighbor \<notin> obstacles \<and> neighbor \<notin> visited then
        (let g = int (length path);
             f_new = g + heuristic neighbor goal;
             counter = snd st + 1
         in (fst st @ [(f_new, counter, neighbor, path @ [neighbor])], counter))
      else st)"

text \<open>
  The measure of the \<^verbatim>\<open>while open_set\<close> loop. Popping a cell that is not yet visited
  adds at most four entries, all inside the grid, and either marks a cell of the grid as
  visited or removes an entry that lies outside the grid.
\<close>

definition entry_weight :: "int \<Rightarrow> entry \<Rightarrow> nat" where
  "entry_weight grid_size e = (if in_bounds grid_size (fst (snd (snd e))) then 1 else 5)"

definition open_weight :: "int \<Rightarrow> entry list \<Rightarrow> nat" where
  "open_weight grid_size open_set = sum_list (map (entry_weight grid_size) open_set)"

definition a_star_measure :: "int \<Rightarrow> entry list \<Rightarrow> coord set \<Rightarrow> nat" where
  "a_star_measure grid_size open_set visited =
     5 * card ({p. in_bounds grid_size p} - visited) + open_weight grid_size open_set"

lemma finite_grid: "finite {p. in_bounds gs p}"
proof -
  have "{p. in_bounds gs p} \<subseteq> {0..<gs} \<times> {0..<gs}"
    by (auto simp: in_bounds_def)
  then show ?thesis by (rule finite_subset) simp
qed

lemma push_neighbor_weight:
  "open_weight gs (fst (push_neighbor goal obs gs vis current path d st)) \<le> open_weight gs (fst st) + 1"
  by (simp add: push_neighbor_def open_weight_def entry_weight_def Let_def)

lemma fold_push_weight:
  "open_weight gs (fst (fold (push_neighbor goal obs gs vis current path) ds st)) \<le>
     open_weight gs (fst st) + length ds"
proof (induction ds arbitrary: st)
  case Nil
  then show ?case by simp
next
  case (Cons d ds)
  have "open_weight gs (fst (fold (push_neighbor goal obs gs vis current path) ds
          (push_neighbor goal obs gs vis current path d st))) \<le>
        open_weight gs (fst (push_neighbor goal obs gs vis current path d st)) + length ds"
    by (rule Cons.IH)
  also have "\<dots> \<le> open_weight gs (fst st) + 1 + length ds"
    using push_neighbor_weight [of gs goal obs vis current path d st] by simp
  finally show ?case by simp
qed

lemma heappop_weight:
  assumes "open_set \<noteq> []" "heappop open_set = (e, rest)"
  shows "open_weight gs open_set = entry_weight gs e + open_weight gs rest" and "e \<in> set open_set"
proof -
  have m: "e = arg_min_list (\<lambda>e. e) open_set" "rest = remove1 e open_set"
    using assms(2) by (auto simp: heappop_def Let_def)
  show e: "e \<in> set open_set"
    using assms(1) m(1) by (simp add: arg_min_list_in)
  have "sum_list (map (entry_weight gs) open_set) =
      entry_weight gs e + sum_list (map (entry_weight gs) (remove1 e open_set))"
    using e by (induction open_set) auto
  then show "open_weight gs open_set = entry_weight gs e + open_weight gs rest"
    using m(2) by (simp add: open_weight_def)
qed

text \<open>The \<^verbatim>\<open>while open_set\<close> loop of \<^verbatim>\<open>a_star\<close>, on the open set, the counter and
  the visited set.\<close>

function a_star_loop ::
  "coord \<Rightarrow> coord set \<Rightarrow> int \<Rightarrow> entry list \<Rightarrow> nat \<Rightarrow> coord set \<Rightarrow> coord list option" where
  "a_star_loop goal obstacles grid_size open_set counter visited =
     (if open_set = [] then None
      else
        (let (e, rest) = heappop open_set;
             current = fst (snd (snd e));
             path = snd (snd (snd e))
         in if current = goal then Some path
            else if current \<in> visited then a_star_loop goal obstacles grid_size rest counter visited
            else
              (let visited' = insert current visited;
                   (open_set', counter') =
                     fold (push_neighbor goal obstacles grid_size visited' current path)
                          DIRECTIONS (rest, counter)
               in a_star_loop goal obstacles grid_size open_set' counter' visited')))"
  by pat_completeness auto
termination
proof (relation "measure (\<lambda>(goal, obstacles, gs, open_set, counter, visited).
                            a_star_measure gs open_set visited)", goal_cases)
  case 1
  then show ?case by simp
next
  case (2 goal obstacles gs open_set counter visited x e rest current path)
  then have hp: "heappop open_set = (e, rest)" by simp
  have "entry_weight gs e \<ge> 1" by (simp add: entry_weight_def)
  then show ?case
    using heappop_weight(1) [OF 2(1) hp, of gs] by (simp add: a_star_measure_def)
next
  case (3 goal obstacles gs open_set counter visited x e rest current path visited' y open_set' counter')
  then have hp: "heappop open_set = (e, rest)" by simp
  have current: "current = fst (snd (snd e))" using 3 by simp
  have v': "visited' = insert current visited" using 3 by simp
  have nv: "current \<notin> visited" using 3 by simp
  have os: "open_set' = fst (fold (push_neighbor goal obstacles gs visited' current path)
                          DIRECTIONS (rest, counter))"
    using 3 by (metis fst_conv)
  have w: "open_weight gs open_set' \<le> open_weight gs rest + 4"
    using fold_push_weight [of gs goal obstacles visited' current path DIRECTIONS "(rest, counter)"]
    by (simp add: os DIRECTIONS_def)
  note hw = heappop_weight(1) [OF 3(1) hp, of gs]
  show ?case
  proof (cases "in_bounds gs current")
    case True
    have "{p. in_bounds gs p} - visited' = ({p. in_bounds gs p} - visited) - {current}"
      using v' by auto
    moreover have "current \<in> {p. in_bounds gs p} - visited"
      using True nv by simp
    ultimately have "card ({p. in_bounds gs p} - visited') < card ({p. in_bounds gs p} - visited)"
      using card_Diff1_less [of "{p. in_bounds gs p} - visited" current] finite_grid [of gs]
      by simp
    then show ?thesis
      using w hw by (simp add: a_star_measure_def)
  next
    case False
    have "{p. in_bounds gs p} - visited' = {p. in_bounds gs p} - visited"
      using v' False by auto
    moreover have "entry_weight gs e = 5"
      using False current by (simp add: entry_weight_def)
    ultimately show ?thesis
      using w hw by (simp add: a_star_measure_def)
  qed
qed

definition a_star :: "coord \<Rightarrow> coord \<Rightarrow> coord set \<Rightarrow> int \<Rightarrow> coord list option" where
  "a_star start goal obstacles grid_size =
     a_star_loop goal obstacles grid_size [(heuristic start goal, 0, start, [start])] 0 {}"

text \<open>
  Paths of the grid: a non-empty list of cells, each inside the grid and off the obstacles,
  each next cell one step up, down, left or right of the one before.
\<close>

definition adjacent :: "coord \<Rightarrow> coord \<Rightarrow> bool" where
  "adjacent a b = (\<exists>d \<in> set DIRECTIONS. b = add_vec a d)"

fun valid_path :: "int \<Rightarrow> coord set \<Rightarrow> coord list \<Rightarrow> bool" where
  "valid_path gs obs [] = False"
| "valid_path gs obs [p] = legal_cell gs obs p"
| "valid_path gs obs (p # q # ps) = (legal_cell gs obs p \<and> adjacent p q \<and> valid_path gs obs (q # ps))"

definition path_from_to :: "int \<Rightarrow> coord set \<Rightarrow> coord \<Rightarrow> coord \<Rightarrow> coord list \<Rightarrow> bool" where
  "path_from_to gs obs s t p = (p \<noteq> [] \<and> hd p = s \<and> last p = t \<and> valid_path gs obs p)"


lemma heuristic_triangle: "heuristic a c \<le> heuristic a b + heuristic b c"
  by (simp add: heuristic_def)

lemma heuristic_adjacent: "adjacent a b \<Longrightarrow> heuristic a b = 1"
  by (auto simp: adjacent_def DIRECTIONS_def add_vec_def heuristic_def)

lemma heuristic_self: "heuristic a a = 0"
  by (simp add: heuristic_def)

lemma valid_path_heuristic:
  "valid_path gs obs p \<Longrightarrow> heuristic (hd p) (last p) \<le> int (length p) - 1"
proof (induction gs obs p rule: valid_path.induct)
  case (1 gs obs)
  then show ?case by simp
next
  case (2 gs obs p)
  then show ?case by (simp add: heuristic_self)
next
  case (3 gs obs p q ps)
  have "heuristic p (last (q # ps)) \<le> heuristic p q + heuristic q (last (q # ps))"
    by (rule heuristic_triangle)
  then show ?case using 3 heuristic_adjacent [of p q] by simp
qed

lemma valid_path_append:
  "valid_path gs obs p \<Longrightarrow> adjacent (last p) x \<Longrightarrow> legal_cell gs obs x \<Longrightarrow>
   valid_path gs obs (p @ [x])"
  by (induction gs obs p rule: valid_path.induct) auto

lemma valid_path_drop:
  "valid_path gs obs p \<Longrightarrow> i < length p \<Longrightarrow> valid_path gs obs (drop i p)"
proof (induction gs obs p arbitrary: i rule: valid_path.induct)
  case (1 gs obs)
  then show ?case by simp
next
  case (2 gs obs p)
  then show ?case by simp
next
  case (3 gs obs p q ps)
  show ?case
  proof (cases i)
    case 0
    then show ?thesis using 3 by simp
  next
    case (Suc j)
    then show ?thesis using 3 by simp
  qed
qed

lemma valid_path_take:
  "valid_path gs obs p \<Longrightarrow> 0 < i \<Longrightarrow> valid_path gs obs (take i p)"
proof (induction gs obs p arbitrary: i rule: valid_path.induct)
  case (1 gs obs)
  then show ?case by simp
next
  case (2 gs obs p)
  then show ?case by (cases i) auto
next
  case (3 gs obs p q ps)
  then obtain j where j: "i = Suc j" by (cases i) auto
  show ?case
  proof (cases j)
    case 0
    then show ?thesis using 3 j by simp
  next
    case (Suc k)
    have "valid_path gs obs (take (Suc k) (q # ps))"
      using "3.IH" [of "Suc k"] "3.prems" by simp
    then show ?thesis using "3.prems" j Suc by simp
  qed
qed

lemma valid_path_nth:
  "valid_path gs obs p \<Longrightarrow> i < length p \<Longrightarrow> legal_cell gs obs (p ! i)"
proof (induction gs obs p arbitrary: i rule: valid_path.induct)
  case (1 gs obs)
  then show ?case by simp
next
  case (2 gs obs p)
  then show ?case by simp
next
  case (3 gs obs p q ps)
  then show ?case by (cases i) auto
qed

lemma valid_path_adjacent:
  "valid_path gs obs p \<Longrightarrow> Suc i < length p \<Longrightarrow> adjacent (p ! i) (p ! Suc i)"
proof (induction gs obs p arbitrary: i rule: valid_path.induct)
  case (1 gs obs)
  then show ?case by simp
next
  case (2 gs obs p)
  then show ?case by simp
next
  case (3 gs obs p q ps)
  then show ?case by (cases i) auto
qed

definition node :: "entry \<Rightarrow> coord" where
  "node e = fst (snd (snd e))"

definition epath :: "entry \<Rightarrow> coord list" where
  "epath e = snd (snd (snd e))"

text \<open>
  The invariant of the loop. Every entry of the open set carries a path from the start to
  its cell and the f-score of that path. The start is visited or has its entry. For every
  visited cell and every free neighbour that is not visited, the open set has an entry for
  the neighbour that is at most one step longer than any path to the visited cell. The goal
  is never marked visited.
\<close>

definition a_star_inv ::
  "coord \<Rightarrow> coord \<Rightarrow> coord set \<Rightarrow> int \<Rightarrow> entry list \<Rightarrow> coord set \<Rightarrow> bool" where
  "a_star_inv start goal obs gs open_set visited =
     ((\<forall>e \<in> set open_set. path_from_to gs obs start (node e) (epath e) \<and>
          fst e = int (length (epath e)) - 1 + heuristic (node e) goal) \<and>
      (start \<in> visited \<or> (\<exists>e \<in> set open_set. node e = start \<and> length (epath e) = 1)) \<and>
      (\<forall>w \<in> visited. \<forall>x q. adjacent w x \<and> legal_cell gs obs x \<and> x \<notin> visited \<and>
          path_from_to gs obs start w q \<longrightarrow>
          (\<exists>e \<in> set open_set. node e = x \<and> length (epath e) \<le> length q + 1)) \<and>
      goal \<notin> visited)"

lemma a_star_frontier:
  assumes inv: "a_star_inv start goal obs gs open_set visited"
    and q: "path_from_to gs obs start t q" and t: "t \<notin> visited"
  shows "\<exists>e \<in> set open_set. \<exists>i < length q. node e = q ! i \<and> length (epath e) \<le> i + 1"
proof -
  have qne: "q \<noteq> []" and hd: "hd q = start" and la: "last q = t" and vp: "valid_path gs obs q"
    using q by (auto simp: path_from_to_def)
  define P where "P = (\<lambda>i. i < length q \<and> q ! i \<notin> visited)"
  have "P (length q - 1)"
    using qne la t by (simp add: P_def last_conv_nth)
  then have Pi: "P (Least P)" and least: "\<And>j. j < Least P \<Longrightarrow> \<not> P j"
    by (auto intro: LeastI dest: not_less_Least)
  define i where "i = Least P"
  have il: "i < length q" and iv: "q ! i \<notin> visited"
    using Pi by (auto simp: P_def i_def)
  show ?thesis
  proof (cases i)
    case 0
    then have "start \<notin> visited"
      using iv hd qne by (simp add: hd_conv_nth)
    then obtain e where "e \<in> set open_set" "node e = start" "length (epath e) = 1"
      using inv by (auto simp: a_star_inv_def)
    then show ?thesis
      using 0 il hd qne by (auto simp: hd_conv_nth intro!: bexI [of _ e] exI [of _ 0])
  next
    case (Suc j)
    have jl: "j < length q" using il Suc by simp
    have "\<not> P j" using least [of j] Suc by (simp add: i_def)
    then have wv: "q ! j \<in> visited" using jl by (simp add: P_def)
    have adj: "adjacent (q ! j) (q ! i)"
      using valid_path_adjacent [OF vp, of j] il Suc by simp
    have leg: "legal_cell gs obs (q ! i)"
      using valid_path_nth [OF vp il] .
    have "hd (take (Suc j) q) = start"
      using hd qne by (cases q) auto
    moreover have "last (take (Suc j) q) = q ! j"
      using jl by (simp add: take_Suc_conv_app_nth)
    moreover have "take (Suc j) q \<noteq> []"
      using qne by simp
    ultimately have pre: "path_from_to gs obs start (q ! j) (take (Suc j) q)"
      using valid_path_take [OF vp, of "Suc j"] by (simp add: path_from_to_def)
    have len: "length (take (Suc j) q) = Suc j" using jl by simp
    from inv wv adj leg iv pre obtain e where
      "e \<in> set open_set" "node e = q ! i" "length (epath e) \<le> length (take (Suc j) q) + 1"
      unfolding a_star_inv_def by blast
    then show ?thesis using il Suc len by (auto intro!: bexI [of _ e] exI [of _ i])
  qed
qed

lemma a_star_pop_optimal:
  assumes inv: "a_star_inv start goal obs gs open_set visited"
    and e: "e \<in> set open_set" and mn: "\<forall>e' \<in> set open_set. fst e \<le> fst e'"
    and nv: "node e \<notin> visited" and q: "path_from_to gs obs start (node e) q"
  shows "length (epath e) \<le> length q"
proof -
  from a_star_frontier [OF inv q nv] obtain e' i where
    e': "e' \<in> set open_set" and i: "i < length q" and n': "node e' = q ! i"
    and l': "length (epath e') \<le> i + 1"
    by blast
  have vp: "valid_path gs obs q" and la: "last q = node e"
    using q by (auto simp: path_from_to_def)
  have fe: "fst e = int (length (epath e)) - 1 + heuristic (node e) goal"
    and fe': "fst e' = int (length (epath e')) - 1 + heuristic (node e') goal"
    using inv e e' by (auto simp: a_star_inv_def)
  have "heuristic (hd (drop i q)) (last (drop i q)) \<le> int (length (drop i q)) - 1"
    by (rule valid_path_heuristic [OF valid_path_drop [OF vp i]])
  then have h1: "heuristic (q ! i) (node e) \<le> int (length q) - int i - 1"
    using i la by (simp add: hd_drop_conv_nth)
  have "heuristic (q ! i) goal \<le> heuristic (q ! i) (node e) + heuristic (node e) goal"
    by (rule heuristic_triangle)
  then have "fst e' \<le> int i + (int (length q) - int i - 1) + heuristic (node e) goal"
    using fe' n' l' h1 by simp
  moreover have "fst e \<le> fst e'" using mn e' by blast
  ultimately show ?thesis using fe by simp
qed

lemma fold_push_neighbor:
  "set (fst st) \<subseteq> set (fst (fold (push_neighbor goal obs gs vis current path) ds st)) \<and>
   (\<forall>e \<in> set (fst (fold (push_neighbor goal obs gs vis current path) ds st)) - set (fst st).
      \<exists>d \<in> set ds. node e = add_vec current d \<and> epath e = path @ [node e] \<and>
        fst e = int (length path) + heuristic (node e) goal \<and>
        in_bounds gs (node e) \<and> node e \<notin> obs \<and> node e \<notin> vis) \<and>
   (\<forall>d \<in> set ds. in_bounds gs (add_vec current d) \<and> add_vec current d \<notin> obs \<and> add_vec current d \<notin> vis \<longrightarrow>
      (\<exists>e \<in> set (fst (fold (push_neighbor goal obs gs vis current path) ds st)).
         node e = add_vec current d \<and> epath e = path @ [add_vec current d]))"
proof (induction ds arbitrary: st)
  case Nil
  then show ?case by simp
next
  case (Cons d ds)
  let ?st1 = "push_neighbor goal obs gs vis current path d st"
  let ?res = "fold (push_neighbor goal obs gs vis current path) ds ?st1"
  note IH = Cons.IH [of ?st1]
  have sub1: "set (fst st) \<subseteq> set (fst ?st1)"
    by (auto simp: push_neighbor_def Let_def)
  have new1: "\<forall>e \<in> set (fst ?st1) - set (fst st).
      node e = add_vec current d \<and> epath e = path @ [node e] \<and>
        fst e = int (length path) + heuristic (node e) goal \<and>
        in_bounds gs (node e) \<and> node e \<notin> obs \<and> node e \<notin> vis"
    by (auto simp: push_neighbor_def Let_def node_def epath_def)
  have has1: "in_bounds gs (add_vec current d) \<and> add_vec current d \<notin> obs \<and> add_vec current d \<notin> vis \<longrightarrow>
      (\<exists>e \<in> set (fst ?st1). node e = add_vec current d \<and> epath e = path @ [add_vec current d])"
    by (auto simp: push_neighbor_def Let_def node_def epath_def)
  show ?case
  proof (intro conjI ballI impI)
    show "set (fst st) \<subseteq> set (fst (fold (push_neighbor goal obs gs vis current path) (d # ds) st))"
      using sub1 IH by auto
  next
    fix e
    assume "e \<in> set (fst (fold (push_neighbor goal obs gs vis current path) (d # ds) st)) - set (fst st)"
    then have e: "e \<in> set (fst ?res)" "e \<notin> set (fst st)" by auto
    show "\<exists>d' \<in> set (d # ds). node e = add_vec current d' \<and> epath e = path @ [node e] \<and>
        fst e = int (length path) + heuristic (node e) goal \<and>
        in_bounds gs (node e) \<and> node e \<notin> obs \<and> node e \<notin> vis"
    proof (cases "e \<in> set (fst ?st1)")
      case True
      with new1 e(2) have "node e = add_vec current d \<and> epath e = path @ [node e] \<and>
        fst e = int (length path) + heuristic (node e) goal \<and>
        in_bounds gs (node e) \<and> node e \<notin> obs \<and> node e \<notin> vis"
        by blast
      then show ?thesis by auto
    next
      case False
      then have "e \<in> set (fst ?res) - set (fst ?st1)" using e(1) by simp
      with IH obtain d' where "d' \<in> set ds" "node e = add_vec current d' \<and> epath e = path @ [node e] \<and>
        fst e = int (length path) + heuristic (node e) goal \<and>
        in_bounds gs (node e) \<and> node e \<notin> obs \<and> node e \<notin> vis"
        by blast
      then show ?thesis by auto
    qed
  next
    fix d'
    assume d': "d' \<in> set (d # ds)"
      and c: "in_bounds gs (add_vec current d') \<and> add_vec current d' \<notin> obs \<and> add_vec current d' \<notin> vis"
    show "\<exists>e \<in> set (fst (fold (push_neighbor goal obs gs vis current path) (d # ds) st)).
         node e = add_vec current d' \<and> epath e = path @ [add_vec current d']"
    proof (cases "d' = d")
      case True
      then obtain e where "e \<in> set (fst ?st1)" "node e = add_vec current d' \<and> epath e = path @ [add_vec current d']"
        using has1 c by blast
      moreover have "set (fst ?st1) \<subseteq> set (fst ?res)" using IH by blast
      ultimately show ?thesis by auto
    next
      case False
      then have "d' \<in> set ds" using d' by simp
      then show ?thesis using IH c by auto
    qed
  qed
qed

declare a_star_loop.simps [simp del]

lemma heappop_min:
  assumes "open_set \<noteq> []" "heappop open_set = (e, rest)"
  shows "e \<in> set open_set" and "rest = remove1 e open_set" and "\<forall>e' \<in> set open_set. fst e \<le> fst e'"
proof -
  have m: "e = arg_min_list (\<lambda>e. e) open_set" and r: "rest = remove1 e open_set"
    using assms(2) by (auto simp: heappop_def Let_def)
  show "e \<in> set open_set"
    using assms(1) m by (simp add: arg_min_list_in)
  show "rest = remove1 e open_set" by (rule r)
  have "e = Min (set open_set)"
    using f_arg_min_list_f [OF assms(1), of "\<lambda>e. e"] m by simp
  then have "\<forall>e' \<in> set open_set. e \<le> e'"
    by simp
  then show "\<forall>e' \<in> set open_set. fst e \<le> fst e'"
    by (auto simp: less_eq_prod_def)
qed

lemma in_remove1_other: "x \<in> set xs \<Longrightarrow> x \<noteq> e \<Longrightarrow> x \<in> set (remove1 e xs)"
  by simp

lemma a_star_inv_drop_visited:
  assumes inv: "a_star_inv start goal obs gs open_set visited"
    and e: "e \<in> set open_set" and v: "node e \<in> visited"
  shows "a_star_inv start goal obs gs (remove1 e open_set) visited"
  unfolding a_star_inv_def
proof (intro conjI ballI allI impI)
  fix e' assume "e' \<in> set (remove1 e open_set)"
  then have "e' \<in> set open_set" using set_remove1_subset by fast
  then show "path_from_to gs obs start (node e') (epath e')"
    "fst e' = int (length (epath e')) - 1 + heuristic (node e') goal"
    using inv by (auto simp: a_star_inv_def)
next
  show "start \<in> visited \<or> (\<exists>e' \<in> set (remove1 e open_set). node e' = start \<and> length (epath e') = 1)"
  proof (cases "start \<in> visited")
    case True
    then show ?thesis by simp
  next
    case False
    then obtain e' where e': "e' \<in> set open_set" "node e' = start" "length (epath e') = 1"
      using inv by (auto simp: a_star_inv_def)
    then have "e' \<noteq> e" using v False by auto
    then show ?thesis using e' by (auto intro: in_remove1_other)
  qed
next
  fix w x q
  assume w: "w \<in> visited"
    and h: "adjacent w x \<and> legal_cell gs obs x \<and> x \<notin> visited \<and> path_from_to gs obs start w q"
  then obtain e' where e': "e' \<in> set open_set" "node e' = x" "length (epath e') \<le> length q + 1"
    using inv unfolding a_star_inv_def by blast
  then have "e' \<noteq> e" using v h by auto
  then show "\<exists>e' \<in> set (remove1 e open_set). node e' = x \<and> length (epath e') \<le> length q + 1"
    using e' by (auto intro: in_remove1_other)
next
  show "goal \<notin> visited" using inv by (simp add: a_star_inv_def)
qed

lemma a_star_inv_expand:
  assumes inv: "a_star_inv start goal obs gs open_set visited"
    and e: "e \<in> set open_set" and mn: "\<forall>e' \<in> set open_set. fst e \<le> fst e'"
    and nv: "node e \<notin> visited" and ng: "node e \<noteq> goal"
  shows "a_star_inv start goal obs gs
     (fst (fold (push_neighbor goal obs gs (insert (node e) visited) (node e) (epath e))
             DIRECTIONS (remove1 e open_set, counter)))
     (insert (node e) visited)"
proof -
  let ?vis = "insert (node e) visited"
  let ?new = "fst (fold (push_neighbor goal obs gs ?vis (node e) (epath e))
             DIRECTIONS (remove1 e open_set, counter))"
  note fp = fold_push_neighbor [of "(remove1 e open_set, counter)" goal obs gs ?vis "node e"
      "epath e" DIRECTIONS]
  have sub: "set (remove1 e open_set) \<subseteq> set ?new" using fp by simp
  have pe: "path_from_to gs obs start (node e) (epath e)"
    using inv e by (auto simp: a_star_inv_def)
  show ?thesis
    unfolding a_star_inv_def
  proof (intro conjI ballI allI impI)
    fix e' assume e': "e' \<in> set ?new"
    show "path_from_to gs obs start (node e') (epath e')"
    proof (cases "e' \<in> set (remove1 e open_set)")
      case True
      then have "e' \<in> set open_set" using set_remove1_subset by fast
      then show ?thesis using inv by (auto simp: a_star_inv_def)
    next
      case False
      then have "e' \<in> set ?new - set (fst (remove1 e open_set, counter))" using e' by simp
      with fp obtain d where d: "d \<in> set DIRECTIONS" "node e' = add_vec (node e) d"
        "epath e' = epath e @ [node e']" "in_bounds gs (node e')" "node e' \<notin> obs"
        by blast
      have "adjacent (last (epath e)) (node e')"
        using d(1,2) pe by (auto simp: adjacent_def path_from_to_def)
      then have "valid_path gs obs (epath e @ [node e'])"
        using pe d(4,5) by (intro valid_path_append) (auto simp: path_from_to_def legal_cell_def)
      then show ?thesis
        using d(3) pe by (simp add: path_from_to_def)
    qed
    show "fst e' = int (length (epath e')) - 1 + heuristic (node e') goal"
    proof (cases "e' \<in> set (remove1 e open_set)")
      case True
      then have "e' \<in> set open_set" using set_remove1_subset by fast
      then show ?thesis using inv by (auto simp: a_star_inv_def)
    next
      case False
      then have "e' \<in> set ?new - set (fst (remove1 e open_set, counter))" using e' by simp
      with fp obtain d where "epath e' = epath e @ [node e']"
        "fst e' = int (length (epath e)) + heuristic (node e') goal"
        by blast
      then show ?thesis by simp
    qed
  next
    show "start \<in> ?vis \<or> (\<exists>e' \<in> set ?new. node e' = start \<and> length (epath e') = 1)"
    proof (cases "start \<in> ?vis")
      case True
      then show ?thesis by simp
    next
      case False
      then obtain e' where e': "e' \<in> set open_set" "node e' = start" "length (epath e') = 1"
        using inv by (auto simp: a_star_inv_def)
      then have "e' \<noteq> e" using False by auto
      then have "e' \<in> set (remove1 e open_set)" using e' by (auto intro: in_remove1_other)
      then show ?thesis using e' sub by auto
    qed
  next
    fix w x q
    assume w: "w \<in> ?vis"
      and h: "adjacent w x \<and> legal_cell gs obs x \<and> x \<notin> ?vis \<and> path_from_to gs obs start w q"
    show "\<exists>e' \<in> set ?new. node e' = x \<and> length (epath e') \<le> length q + 1"
    proof (cases "w = node e")
      case True
      from h True obtain d where d: "d \<in> set DIRECTIONS" "x = add_vec (node e) d"
        by (auto simp: adjacent_def)
      have "in_bounds gs (add_vec (node e) d) \<and> add_vec (node e) d \<notin> obs \<and>
          add_vec (node e) d \<notin> ?vis"
        using h d(2) by (auto simp: legal_cell_def)
      with fp d(1) obtain e' where e': "e' \<in> set ?new" "node e' = add_vec (node e) d"
        "epath e' = epath e @ [add_vec (node e) d]"
        by blast
      have "length (epath e) \<le> length q"
        using a_star_pop_optimal [OF inv e mn nv] h True by simp
      then show ?thesis using e' d(2) by auto
    next
      case False
      then have wv: "w \<in> visited" using w by simp
      have "x \<notin> visited" using h by simp
      with inv wv h obtain e' where e': "e' \<in> set open_set" "node e' = x"
        "length (epath e') \<le> length q + 1"
        unfolding a_star_inv_def by blast
      have "e' \<noteq> e" using e'(2) h by auto
      then have "e' \<in> set (remove1 e open_set)" using e' by (auto intro: in_remove1_other)
      then show ?thesis using e' sub by auto
    qed
  next
    show "goal \<notin> ?vis" using inv ng by (auto simp: a_star_inv_def)
  qed
qed

lemma a_star_loop_correct:
  assumes "a_star_inv start goal obs gs open_set visited"
  shows "case a_star_loop goal obs gs open_set counter visited of
           None \<Rightarrow> \<not> (\<exists>q. path_from_to gs obs start goal q)
         | Some p \<Rightarrow> path_from_to gs obs start goal p \<and>
                      (\<forall>q. path_from_to gs obs start goal q \<longrightarrow> length p \<le> length q)"
  using assms
proof (induction goal obs gs open_set counter visited rule: a_star_loop.induct)
  case (1 goal obs gs open_set counter visited)
  note inv = "1.prems"
  show ?case
  proof (cases "open_set = []")
    case True
    have "\<not> (\<exists>q. path_from_to gs obs start goal q)"
    proof
      assume "\<exists>q. path_from_to gs obs start goal q"
      then obtain q where "path_from_to gs obs start goal q" ..
      moreover have "goal \<notin> visited" using inv by (simp add: a_star_inv_def)
      ultimately show False using a_star_frontier [OF inv] True by fastforce
    qed
    then show ?thesis using True by (simp add: a_star_loop.simps)
  next
    case ne: False
    obtain e rest where hp: "heappop open_set = (e, rest)"
      by (cases "heappop open_set")
    note hm = heappop_min [OF ne hp]
    have current: "fst (snd (snd e)) = node e" and pth: "snd (snd (snd e)) = epath e"
      by (simp_all add: node_def epath_def)
    show ?thesis
    proof (cases "node e = goal")
      case True
      have nv: "node e \<notin> visited" using inv True by (simp add: a_star_inv_def)
      have "path_from_to gs obs start goal (epath e)"
        using inv hm(1) True by (auto simp: a_star_inv_def)
      moreover have "\<forall>q. path_from_to gs obs start goal q \<longrightarrow> length (epath e) \<le> length q"
        using a_star_pop_optimal [OF inv hm(1) hm(3) nv] True by simp
      moreover have "a_star_loop goal obs gs open_set counter visited = Some (epath e)"
        using ne hp True by (subst a_star_loop.simps) (simp add: node_def epath_def)
      ultimately show ?thesis by simp
    next
      case ng: False
      show ?thesis
      proof (cases "node e \<in> visited")
        case True
        have eq: "a_star_loop goal obs gs open_set counter visited =
            a_star_loop goal obs gs rest counter visited"
          using ne hp ng True by (subst a_star_loop.simps) (simp add: node_def epath_def)
        have "a_star_inv start goal obs gs rest visited"
          using a_star_inv_drop_visited [OF inv hm(1) True] hm(2) by simp
        then show ?thesis
          using "1.IH"(1) [OF ne refl hp [symmetric] refl refl] ng True eq
          by (simp add: node_def)
      next
        case False
        obtain open_set' counter' where fd:
          "fold (push_neighbor goal obs gs (insert (node e) visited) (node e) (epath e))
             DIRECTIONS (rest, counter) = (open_set', counter')"
          by (cases "fold (push_neighbor goal obs gs (insert (node e) visited) (node e) (epath e))
             DIRECTIONS (rest, counter)")
        have eq: "a_star_loop goal obs gs open_set counter visited =
            a_star_loop goal obs gs open_set' counter' (insert (node e) visited)"
          using ne hp ng False fd by (subst a_star_loop.simps) (simp add: node_def epath_def)
        have "a_star_inv start goal obs gs open_set' (insert (node e) visited)"
          using a_star_inv_expand [OF inv hm(1) hm(3) False ng, of counter] hm(2) fd by simp
        moreover have "(open_set', counter') =
            fold (push_neighbor goal obs gs (insert (fst (snd (snd e))) visited)
                    (fst (snd (snd e))) (snd (snd (snd e)))) DIRECTIONS (rest, counter)"
          using fd by (simp add: node_def epath_def)
        ultimately show ?thesis
          using "1.IH"(2) [OF ne refl hp [symmetric] refl refl _ _ refl refl, of open_set' counter']
            ng False eq
          by (simp add: node_def)
      qed
    qed
  qed
qed

text \<open>
  Claim C4. On a grid instance whose start cell is inside the grid and not an obstacle (as
  every sampled instance is), \<^verbatim>\<open>a_star\<close> returns a path from the start to the goal that
  stays inside the grid, avoids every obstacle and is no longer than any other such path,
  whenever such a path exists, and returns \<^verbatim>\<open>None\<close> when none exists. On the 5 by 5 grid
  with start A1, goal E5 and the obstacle C3 it returns a path of 8 steps, the Manhattan
  distance, that avoids C3.
\<close>

theorem a_star_shortest_path:
  "(legal_cell grid_size obstacles start \<longrightarrow>
      ((\<exists>q. path_from_to grid_size obstacles start goal q) \<longrightarrow>
         (\<exists>p. a_star start goal obstacles grid_size = Some p \<and>
              path_from_to grid_size obstacles start goal p \<and>
              (\<forall>q. path_from_to grid_size obstacles start goal q \<longrightarrow> length p \<le> length q))) \<and>
      (\<not> (\<exists>q. path_from_to grid_size obstacles start goal q) \<longrightarrow>
         a_star start goal obstacles grid_size = None)) \<and>
   (\<exists>p. a_star (0, 0) (4, 4) {(2, 2)} 5 = Some p \<and> int (length p) - 1 = 8 \<and>
        heuristic (0, 0) (4, 4) = 8 \<and> path_from_to 5 {(2, 2)} (0, 0) (4, 4) p \<and> (2, 2) \<notin> set p)"
proof (intro conjI impI)
  assume st: "legal_cell grid_size obstacles start"
  let ?open = "[(heuristic start goal, 0, start, [start])]"
  have inv: "a_star_inv start goal obstacles grid_size ?open {}"
    using st by (simp add: a_star_inv_def node_def epath_def path_from_to_def)
  note c = a_star_loop_correct [OF inv, of 0]
  {
    assume "\<exists>q. path_from_to grid_size obstacles start goal q"
    then show "\<exists>p. a_star start goal obstacles grid_size = Some p \<and>
              path_from_to grid_size obstacles start goal p \<and>
              (\<forall>q. path_from_to grid_size obstacles start goal q \<longrightarrow> length p \<le> length q)"
      using c by (cases "a_star_loop goal obstacles grid_size ?open 0 {}") (auto simp: a_star_def)
  }
  {
    assume "\<not> (\<exists>q. path_from_to grid_size obstacles start goal q)"
    then show "a_star start goal obstacles grid_size = None"
      using c by (cases "a_star_loop goal obstacles grid_size ?open 0 {}") (auto simp: a_star_def)
  }
next
  have e: "a_star (0, 0) (4, 4) {(2, 2)} 5 =
      Some [(0, 0), (1, 0), (2, 0), (3, 0), (4, 0), (4, 1), (4, 2), (4, 3), (4, 4)]"
    by code_simp
  have "path_from_to 5 {(2, 2)} (0, 0) (4, 4)
      [(0, 0), (1, 0), (2, 0), (3, 0), (4, 0), (4, 1), (4, 2), (4, 3), (4, 4)]"
    by (simp add: path_from_to_def legal_cell_def in_bounds_def adjacent_def DIRECTIONS_def
        add_vec_def)
  then show "\<exists>p. a_star (0, 0) (4, 4) {(2, 2)} 5 = Some p \<and> int (length p) - 1 = 8 \<and>
        heuristic (0, 0) (4, 4) = 8 \<and> path_from_to 5 {(2, 2)} (0, 0) (4, 4) p \<and> (2, 2) \<notin> set p"
    using e by (simp add: heuristic_def)
qed

theorem a_star_shortest_path_witness:
  "legal_cell 5 {(1, 1), (1, 2), (1, 3)} (0, 2) \<and>
   path_from_to 5 {(1, 1), (1, 2), (1, 3)} (0, 2) (2, 2)
     [(0, 2), (0, 1), (0, 0), (1, 0), (2, 0), (2, 1), (2, 2)] \<and>
   (\<exists>p. a_star (0, 2) (2, 2) {(1, 1), (1, 2), (1, 3)} 5 = Some p \<and>
        path_from_to 5 {(1, 1), (1, 2), (1, 3)} (0, 2) (2, 2) p \<and> length p \<le> 7) \<and>
   legal_cell 5 {(0, 1), (1, 0), (2, 2)} (0, 0) \<and>
   a_star (0, 0) (4, 4) {(0, 1), (1, 0), (2, 2)} 5 = None \<and>
   \<not> (\<exists>q. path_from_to 5 {(0, 1), (1, 0), (2, 2)} (0, 0) (4, 4) q)"
proof -
  let ?q = "[(0, 2), (0, 1), (0, 0), (1, 0), (2, 0), (2, 1), (2, 2)] :: coord list"
  have l1: "legal_cell 5 {(1, 1), (1, 2), (1, 3)} (0, 2)"
    by (simp add: legal_cell_def in_bounds_def)
  have q: "path_from_to 5 {(1, 1), (1, 2), (1, 3)} (0, 2) (2, 2) ?q"
    by (simp add: path_from_to_def legal_cell_def in_bounds_def adjacent_def DIRECTIONS_def
        add_vec_def)
  note th1 = a_star_shortest_path [of 5 "{(1, 1), (1, 2), (1, 3)}" "(0, 2)" "(2, 2)"]
  from th1 l1 q obtain p where p:
    "a_star (0, 2) (2, 2) {(1, 1), (1, 2), (1, 3)} 5 = Some p"
    "path_from_to 5 {(1, 1), (1, 2), (1, 3)} (0, 2) (2, 2) p"
    "\<forall>q. path_from_to 5 {(1, 1), (1, 2), (1, 3)} (0, 2) (2, 2) q \<longrightarrow> length p \<le> length q"
    by blast
  have "length p \<le> length ?q" using p(3) q by blast
  then have a: "\<exists>p. a_star (0, 2) (2, 2) {(1, 1), (1, 2), (1, 3)} 5 = Some p \<and>
        path_from_to 5 {(1, 1), (1, 2), (1, 3)} (0, 2) (2, 2) p \<and> length p \<le> 7"
    using p(1,2) by auto
  have l2: "legal_cell 5 {(0, 1), (1, 0), (2, 2)} (0, 0)"
    by (simp add: legal_cell_def in_bounds_def)
  have n: "a_star (0, 0) (4, 4) {(0, 1), (1, 0), (2, 2)} 5 = None"
    by code_simp
  note th2 = a_star_shortest_path [of 5 "{(0, 1), (1, 0), (2, 2)}" "(0, 0)" "(4, 4)"]
  have b: "\<not> (\<exists>q. path_from_to 5 {(0, 1), (1, 0), (2, 2)} (0, 0) (4, 4) q)"
    using th2 l2 n by auto
  show ?thesis using l1 q a l2 n b by blast
qed

section \<open>Key-lock navigation: \<^verbatim>\<open>bfs_with_keys\<close>\<close>

text \<open>A queue entry is \<^verbatim>\<open>((pos, inv), path, actions)\<close>; the deque is a list, popped at the
  head and appended at the tail. One iteration of the \<^verbatim>\<open>while\<close> loop first tries the pick-up,
  then the four moves in the order of \<^verbatim>\<open>DIRECTIONS\<close>, and only then tests the popped position
  against the goal.\<close>

type_synonym kstate = "coord \<times> string set"
type_synonym qentry = "kstate \<times> coord list \<times> string list"

definition pick_up_token :: "string \<Rightarrow> string" where
  "pick_up_token color = ''pick_up_'' @ color"

definition unlock_token :: "string \<Rightarrow> string" where
  "unlock_token color = ''unlock_'' @ color"

definition dir_name_of :: "coord \<Rightarrow> string" where
  "dir_name_of d = (case DIR_NAMES d of Some n \<Rightarrow> n | None \<Rightarrow> [])"

definition bfs_try_pickup ::
  "(coord \<rightharpoonup> string) \<Rightarrow> qentry \<Rightarrow> qentry list \<times> kstate set \<Rightarrow> qentry list \<times> kstate set" where
  "bfs_try_pickup keys e st =
     (let pos = fst (fst e); invt = snd (fst e); path = fst (snd e); actions = snd (snd e) in
      case keys pos of
        Some color \<Rightarrow>
          if color \<notin> invt then
            (let new_state = (pos, insert color invt) in
             if new_state \<notin> snd st then
               (fst st @ [(new_state, path @ [pos], actions @ [pick_up_token color])],
                insert new_state (snd st))
             else st)
          else st
      | None \<Rightarrow> st)"

definition bfs_try_move ::
  "coord set \<Rightarrow> (coord \<rightharpoonup> string) \<Rightarrow> int \<Rightarrow> qentry \<Rightarrow> coord \<Rightarrow>
   qentry list \<times> kstate set \<Rightarrow> qentry list \<times> kstate set" where
  "bfs_try_move obstacles doors grid_size e d st =
     (let pos = fst (fst e); invt = snd (fst e); path = fst (snd e); actions = snd (snd e);
          new_pos = add_vec pos d
      in if \<not> in_bounds grid_size new_pos then st
         else if new_pos \<in> obstacles then st
         else
           (let dir_name = dir_name_of d in
            case doors new_pos of
              Some door_color \<Rightarrow>
                if door_color \<notin> invt then st
                else
                  (let new_state = (new_pos, invt) in
                   if new_state \<notin> snd st then
                     (fst st @ [(new_state, path @ [new_pos],
                                 actions @ [unlock_token door_color, dir_name])],
                      insert new_state (snd st))
                   else st)
            | None \<Rightarrow>
                (let new_state = (new_pos, invt) in
                 if new_state \<notin> snd st then
                   (fst st @ [(new_state, path @ [new_pos], actions @ [dir_name])],
                    insert new_state (snd st))
                 else st)))"

definition bfs_expand ::
  "coord set \<Rightarrow> (coord \<rightharpoonup> string) \<Rightarrow> (coord \<rightharpoonup> string) \<Rightarrow> int \<Rightarrow> qentry \<Rightarrow>
   qentry list \<times> kstate set \<Rightarrow> qentry list \<times> kstate set" where
  "bfs_expand obstacles keys doors grid_size e st =
     fold (bfs_try_move obstacles doors grid_size e) DIRECTIONS (bfs_try_pickup keys e st)"

text \<open>The universe of states for the measure.\<close>

definition bfs_positions :: "int \<Rightarrow> qentry list \<Rightarrow> coord set" where
  "bfs_positions grid_size queue = {p. in_bounds grid_size p} \<union> (\<lambda>e. fst (fst e)) ` set queue"

definition bfs_colors :: "(coord \<rightharpoonup> string) \<Rightarrow> int \<Rightarrow> qentry list \<Rightarrow> string set" where
  "bfs_colors keys grid_size queue = {c. \<exists>p \<in> bfs_positions grid_size queue. keys p = Some c}"

definition bfs_inventories :: "(coord \<rightharpoonup> string) \<Rightarrow> int \<Rightarrow> qentry list \<Rightarrow> string set set" where
  "bfs_inventories keys grid_size queue =
     (\<lambda>(i, j). i \<union> j) ` (((\<lambda>e. snd (fst e)) ` set queue) \<times> Pow (bfs_colors keys grid_size queue))"

definition bfs_universe :: "(coord \<rightharpoonup> string) \<Rightarrow> int \<Rightarrow> qentry list \<Rightarrow> kstate set" where
  "bfs_universe keys grid_size queue =
     bfs_positions grid_size queue \<times> bfs_inventories keys grid_size queue"

definition bfs_measure :: "(coord \<rightharpoonup> string) \<Rightarrow> int \<Rightarrow> qentry list \<Rightarrow> kstate set \<Rightarrow> nat" where
  "bfs_measure keys grid_size queue visited =
     2 * card (bfs_universe keys grid_size queue - visited) + length queue"

lemma finite_bfs_positions: "finite (bfs_positions gs queue)"
  by (simp add: bfs_positions_def finite_grid)

lemma finite_bfs_colors: "finite (bfs_colors keys gs queue)"
proof -
  have "bfs_colors keys gs queue \<subseteq> (\<lambda>p. the (keys p)) ` bfs_positions gs queue"
    by (force simp: bfs_colors_def)
  then show ?thesis
    by (rule finite_subset) (simp add: finite_bfs_positions)
qed

lemma finite_bfs_universe: "finite (bfs_universe keys gs queue)"
  by (simp add: bfs_universe_def bfs_inventories_def finite_bfs_positions finite_bfs_colors)

text \<open>What an expansion adds: new entries behind the rest of the queue, for distinct states
  that were not visited, each with a property \<open>Q\<close>.\<close>

definition bfs_added ::
  "(qentry \<Rightarrow> bool) \<Rightarrow> qentry list \<Rightarrow> kstate set \<Rightarrow> qentry list \<times> kstate set \<Rightarrow> bool" where
  "bfs_added Q rest visited st =
     (\<exists>new. fst st = rest @ new \<and> snd st = visited \<union> fst ` set new \<and>
        distinct (map fst new) \<and> fst ` set new \<inter> visited = {} \<and> (\<forall>n \<in> set new. Q n))"

lemma bfs_added_init: "bfs_added Q rest visited (rest, visited)"
  by (auto simp: bfs_added_def)

lemma bfs_added_step:
  assumes "bfs_added Q rest visited st" "s \<notin> snd st" "Q (s, p, a)"
  shows "bfs_added Q rest visited (fst st @ [(s, p, a)], insert s (snd st))"
proof -
  from assms(1) obtain new where n: "fst st = rest @ new" "snd st = visited \<union> fst ` set new"
    "distinct (map fst new)" "fst ` set new \<inter> visited = {}" "\<forall>n \<in> set new. Q n"
    by (auto simp: bfs_added_def)
  show ?thesis
    unfolding bfs_added_def
    using n assms(2,3) by (intro exI [of _ "new @ [(s, p, a)]"]) auto
qed

lemma bfs_try_pickup_added:
  assumes "bfs_added Q rest visited st"
    and "\<And>color. keys (fst (fst e)) = Some color \<Longrightarrow> color \<notin> snd (fst e) \<Longrightarrow>
           Q ((fst (fst e), insert color (snd (fst e))), fst (snd e) @ [fst (fst e)],
              snd (snd e) @ [pick_up_token color])"
  shows "bfs_added Q rest visited (bfs_try_pickup keys e st)"
proof (cases "keys (fst (fst e))")
  case None
  then show ?thesis using assms(1) by (simp add: bfs_try_pickup_def)
next
  case (Some color)
  show ?thesis
  proof (cases "color \<notin> snd (fst e) \<and> (fst (fst e), insert color (snd (fst e))) \<notin> snd st")
    case False
    then show ?thesis using assms(1) Some by (auto simp: bfs_try_pickup_def Let_def)
  next
    case True
    then show ?thesis
      using Some bfs_added_step [OF assms(1) _ assms(2) [OF Some]]
      by (simp add: bfs_try_pickup_def Let_def)
  qed
qed

lemma bfs_try_move_added:
  assumes "bfs_added Q rest visited st"
    and "\<And>c. in_bounds gs (add_vec (fst (fst e)) d) \<Longrightarrow> add_vec (fst (fst e)) d \<notin> obstacles \<Longrightarrow>
           doors (add_vec (fst (fst e)) d) = Some c \<Longrightarrow> c \<in> snd (fst e) \<Longrightarrow>
           Q ((add_vec (fst (fst e)) d, snd (fst e)), fst (snd e) @ [add_vec (fst (fst e)) d],
              snd (snd e) @ [unlock_token c, dir_name_of d])"
    and "in_bounds gs (add_vec (fst (fst e)) d) \<Longrightarrow> add_vec (fst (fst e)) d \<notin> obstacles \<Longrightarrow>
           doors (add_vec (fst (fst e)) d) = None \<Longrightarrow>
           Q ((add_vec (fst (fst e)) d, snd (fst e)), fst (snd e) @ [add_vec (fst (fst e)) d],
              snd (snd e) @ [dir_name_of d])"
  shows "bfs_added Q rest visited (bfs_try_move obstacles doors gs e d st)"
proof (cases "in_bounds gs (add_vec (fst (fst e)) d) \<and> add_vec (fst (fst e)) d \<notin> obstacles")
  case False
  then show ?thesis using assms(1) by (auto simp: bfs_try_move_def Let_def)
next
  case ok: True
  show ?thesis
  proof (cases "doors (add_vec (fst (fst e)) d)")
    case None
    show ?thesis
    proof (cases "(add_vec (fst (fst e)) d, snd (fst e)) \<in> snd st")
      case True
      then show ?thesis using assms(1) ok None by (simp add: bfs_try_move_def Let_def)
    next
      case False
      then show ?thesis
        using ok None bfs_added_step [OF assms(1) False assms(3)]
        by (simp add: bfs_try_move_def Let_def)
    qed
  next
    case (Some c)
    show ?thesis
    proof (cases "c \<in> snd (fst e) \<and> (add_vec (fst (fst e)) d, snd (fst e)) \<notin> snd st")
      case False
      then show ?thesis using assms(1) ok Some by (auto simp: bfs_try_move_def Let_def)
    next
      case True
      then show ?thesis
        using ok Some bfs_added_step [OF assms(1) _ assms(2) [OF _ _ Some]]
        by (simp add: bfs_try_move_def Let_def)
    qed
  qed
qed

lemma bfs_fold_move_added:
  assumes "bfs_added Q rest visited st"
    and "\<And>d c. d \<in> set ds \<Longrightarrow> in_bounds gs (add_vec (fst (fst e)) d) \<Longrightarrow>
           add_vec (fst (fst e)) d \<notin> obstacles \<Longrightarrow>
           doors (add_vec (fst (fst e)) d) = Some c \<Longrightarrow> c \<in> snd (fst e) \<Longrightarrow>
           Q ((add_vec (fst (fst e)) d, snd (fst e)), fst (snd e) @ [add_vec (fst (fst e)) d],
              snd (snd e) @ [unlock_token c, dir_name_of d])"
    and "\<And>d. d \<in> set ds \<Longrightarrow> in_bounds gs (add_vec (fst (fst e)) d) \<Longrightarrow>
           add_vec (fst (fst e)) d \<notin> obstacles \<Longrightarrow>
           doors (add_vec (fst (fst e)) d) = None \<Longrightarrow>
           Q ((add_vec (fst (fst e)) d, snd (fst e)), fst (snd e) @ [add_vec (fst (fst e)) d],
              snd (snd e) @ [dir_name_of d])"
  shows "bfs_added Q rest visited (fold (bfs_try_move obstacles doors gs e) ds st)"
  using assms
proof (induction ds arbitrary: st)
  case Nil
  then show ?case by simp
next
  case (Cons d ds)
  have "bfs_added Q rest visited (bfs_try_move obstacles doors gs e d st)"
    by (rule bfs_try_move_added [OF Cons.prems(1)]) (auto intro: Cons.prems(2,3))
  then have "bfs_added Q rest visited
      (fold (bfs_try_move obstacles doors gs e) ds (bfs_try_move obstacles doors gs e d st))"
    by (rule Cons.IH) (auto intro: Cons.prems(2,3))
  then show ?case by simp
qed

lemma entry_state_in_universe:
  "e \<in> set queue \<Longrightarrow> fst e \<in> bfs_universe keys gs queue"
proof -
  assume e: "e \<in> set queue"
  have "fst (fst e) \<in> bfs_positions gs queue"
    using e by (auto simp: bfs_positions_def)
  moreover have "snd (fst e) \<in> bfs_inventories keys gs queue"
    unfolding bfs_inventories_def
    using e by (intro image_eqI [of _ _ "(snd (fst e), {})"]) auto
  ultimately show ?thesis
    by (simp add: bfs_universe_def mem_Times_iff)
qed

lemma bfs_expand_in_universe:
  "bfs_added (\<lambda>n. fst n \<in> bfs_universe keys gs (e # rest)) rest visited
     (bfs_expand obstacles keys doors gs e (rest, visited))"
  unfolding bfs_expand_def
proof (rule bfs_fold_move_added [OF bfs_try_pickup_added [OF bfs_added_init]])
  fix color assume k: "keys (fst (fst e)) = Some color"
  have pos: "fst (fst e) \<in> bfs_positions gs (e # rest)"
    by (auto simp: bfs_positions_def)
  then have "color \<in> bfs_colors keys gs (e # rest)"
    using k by (auto simp: bfs_colors_def)
  then have "insert color (snd (fst e)) \<in> bfs_inventories keys gs (e # rest)"
    unfolding bfs_inventories_def
    by (intro image_eqI [of _ _ "(snd (fst e), {color})"]) auto
  then show "fst ((fst (fst e), insert color (snd (fst e))), fst (snd e) @ [fst (fst e)],
              snd (snd e) @ [pick_up_token color]) \<in> bfs_universe keys gs (e # rest)"
    using pos by (simp add: bfs_universe_def)
next
  fix d
  assume ib: "in_bounds gs (add_vec (fst (fst e)) d)"
  then have pos: "add_vec (fst (fst e)) d \<in> bfs_positions gs (e # rest)"
    by (simp add: bfs_positions_def)
  have "snd (fst e) \<in> bfs_inventories keys gs (e # rest)"
    unfolding bfs_inventories_def
    by (intro image_eqI [of _ _ "(snd (fst e), {})"]) auto
  then have u: "(add_vec (fst (fst e)) d, snd (fst e)) \<in> bfs_universe keys gs (e # rest)"
    using pos by (simp add: bfs_universe_def)
  show "fst ((add_vec (fst (fst e)) d, snd (fst e)), fst (snd e) @ [add_vec (fst (fst e)) d],
              snd (snd e) @ [dir_name_of d]) \<in>
        bfs_universe keys gs (e # rest)"
    using u by simp
  fix c
  show "fst ((add_vec (fst (fst e)) d, snd (fst e)), fst (snd e) @ [add_vec (fst (fst e)) d],
              snd (snd e) @ [unlock_token c, dir_name_of d]) \<in>
        bfs_universe keys gs (e # rest)"
    using u by simp
qed

subsection \<open>The search loop and its termination\<close>

lemma bfs_universe_mono:
  assumes "\<forall>e' \<in> set queue'. fst e' \<in> bfs_universe keys gs queue"
  shows "bfs_universe keys gs queue' \<subseteq> bfs_universe keys gs queue"
proof -
  have pos: "bfs_positions gs queue' \<subseteq> bfs_positions gs queue"
  proof
    fix p assume "p \<in> bfs_positions gs queue'"
    then consider "in_bounds gs p" | e' where "e' \<in> set queue'" "p = fst (fst e')"
      by (auto simp: bfs_positions_def)
    then show "p \<in> bfs_positions gs queue"
    proof cases
      case 1
      then show ?thesis by (simp add: bfs_positions_def)
    next
      case 2
      then have "fst e' \<in> bfs_universe keys gs queue" using assms by blast
      then show ?thesis using 2(2) by (auto simp: bfs_universe_def mem_Times_iff)
    qed
  qed
  then have col: "bfs_colors keys gs queue' \<subseteq> bfs_colors keys gs queue"
    by (auto simp: bfs_colors_def)
  have inv: "bfs_inventories keys gs queue' \<subseteq> bfs_inventories keys gs queue"
  proof
    fix x assume "x \<in> bfs_inventories keys gs queue'"
    then obtain e' j where e': "e' \<in> set queue'" and j: "j \<subseteq> bfs_colors keys gs queue'"
      and x: "x = snd (fst e') \<union> j"
      by (auto simp: bfs_inventories_def)
    have "fst e' \<in> bfs_universe keys gs queue" using assms e' by blast
    then have "snd (fst e') \<in> bfs_inventories keys gs queue"
      by (auto simp: bfs_universe_def mem_Times_iff)
    then obtain e0 j0 where e0: "e0 \<in> set queue" and j0: "j0 \<subseteq> bfs_colors keys gs queue"
      and i: "snd (fst e') = snd (fst e0) \<union> j0"
      by (auto simp: bfs_inventories_def)
    have "x = snd (fst e0) \<union> (j0 \<union> j)" using x i by auto
    moreover have "j0 \<union> j \<subseteq> bfs_colors keys gs queue" using j j0 col by auto
    ultimately show "x \<in> bfs_inventories keys gs queue"
      unfolding bfs_inventories_def
      using e0 by (intro image_eqI [of _ _ "(snd (fst e0), j0 \<union> j)"]) auto
  qed
  show ?thesis
    using pos inv by (auto simp: bfs_universe_def)
qed

lemma bfs_measure_decreases:
  assumes "bfs_expand obstacles keys doors gs e (rest, visited) = (queue', visited')"
  shows "bfs_measure keys gs queue' visited' < bfs_measure keys gs (e # rest) visited"
proof -
  let ?U = "bfs_universe keys gs (e # rest)"
  from bfs_expand_in_universe [of keys gs e rest visited obstacles doors] assms
  obtain new where q: "queue' = rest @ new" and v: "visited' = visited \<union> fst ` set new"
    and d: "distinct (map fst new)" and dj: "fst ` set new \<inter> visited = {}"
    and u: "fst ` set new \<subseteq> ?U"
    by (auto simp: bfs_added_def)
  let ?N = "fst ` set new"
  have fin: "finite ?U" by (rule finite_bfs_universe)
  have cn: "card ?N = length new"
    using distinct_card [OF d] by simp
  have "\<forall>e' \<in> set queue'. fst e' \<in> ?U"
  proof
    fix e' assume "e' \<in> set queue'"
    then consider "e' \<in> set rest" | "e' \<in> set new" using q by auto
    then show "fst e' \<in> ?U"
    proof cases
      case 1
      then show ?thesis by (intro entry_state_in_universe) simp
    next
      case 2
      then show ?thesis using u by auto
    qed
  qed
  then have "bfs_universe keys gs queue' \<subseteq> ?U" by (rule bfs_universe_mono)
  then have "bfs_universe keys gs queue' - visited' \<subseteq> ?U - visited'" by auto
  then have c1: "card (bfs_universe keys gs queue' - visited') \<le> card (?U - visited')"
    using fin by (intro card_mono) auto
  have "?U - visited' = (?U - visited) - ?N" using v by auto
  moreover have sub: "?N \<subseteq> ?U - visited" using u dj by auto
  ultimately have c2: "card (?U - visited') = card (?U - visited) - card ?N"
    using fin by (simp add: card_Diff_subset finite_subset [OF sub])
  have c3: "card ?N \<le> card (?U - visited)"
    using sub fin by (intro card_mono) auto
  show ?thesis
    using c1 c2 c3 cn q by (simp add: bfs_measure_def)
qed

function bfs_loop ::
  "coord \<Rightarrow> coord set \<Rightarrow> (coord \<rightharpoonup> string) \<Rightarrow> (coord \<rightharpoonup> string) \<Rightarrow> int \<Rightarrow>
   qentry list \<Rightarrow> kstate set \<Rightarrow> (coord list \<times> string list) option" where
  "bfs_loop goal obstacles keys doors grid_size queue visited =
     (case queue of
        [] \<Rightarrow> None
      | e # rest \<Rightarrow>
          (let (queue', visited') = bfs_expand obstacles keys doors grid_size e (rest, visited) in
           if fst (fst e) = goal then Some (fst (snd e), snd (snd e))
           else bfs_loop goal obstacles keys doors grid_size queue' visited'))"
  by pat_completeness auto
termination
proof (relation "measure (\<lambda>(goal, obstacles, keys, doors, gs, queue, visited).
                            bfs_measure keys gs queue visited)", goal_cases)
  case 1
  then show ?case by simp
next
  case (2 goal obstacles keys doors gs queue visited e rest x queue' visited')
  then have eq: "bfs_expand obstacles keys doors gs e (rest, visited) = (queue', visited')"
    by simp
  from bfs_measure_decreases [OF eq] show ?case
    using 2(1) by (simp add: eq)
qed

declare bfs_loop.simps [simp del]

definition bfs_with_keys ::
  "coord \<Rightarrow> coord \<Rightarrow> coord set \<Rightarrow> (coord \<rightharpoonup> string) \<Rightarrow> (coord \<rightharpoonup> string) \<Rightarrow> int \<Rightarrow>
   (coord list \<times> string list) option" where
  "bfs_with_keys start goal obstacles keys doors grid_size =
     bfs_loop goal obstacles keys doors grid_size [((start, {}), [start], [])] {(start, {})}"

subsection \<open>Search transitions and their replay\<close>

text \<open>A transition of the search is a pick-up or a move to a neighbouring legal cell; a
  move onto a door cell needs the door's colour in the inventory. The solver writes a
  move onto a door as two tokens, \<^verbatim>\<open>unlock_<color>\<close> and the direction.\<close>

definition kstep ::
  "coord set \<Rightarrow> (coord \<rightharpoonup> string) \<Rightarrow> (coord \<rightharpoonup> string) \<Rightarrow> int \<Rightarrow> kstate \<Rightarrow> kstate \<Rightarrow> bool" where
  "kstep obstacles keys doors grid_size s t =
     ((fst t = fst s \<and> (\<exists>c. keys (fst s) = Some c \<and> c \<notin> snd s \<and> snd t = insert c (snd s))) \<or>
      (snd t = snd s \<and> (\<exists>d \<in> set DIRECTIONS. fst t = add_vec (fst s) d) \<and>
       in_bounds grid_size (fst t) \<and> fst t \<notin> obstacles \<and>
       (case doors (fst t) of Some c \<Rightarrow> c \<in> snd s | None \<Rightarrow> True)))"

definition transition_count :: "string list \<Rightarrow> nat" where
  "transition_count acts =
     length (filter (\<lambda>a. startswith a ''pick_up_'' \<or> DIR_VECTORS a \<noteq> None) acts)"

lemma transition_count_simps:
  "transition_count [] = 0"
  "transition_count (a # acts) =
     (if startswith a ''pick_up_'' \<or> DIR_VECTORS a \<noteq> None then Suc (transition_count acts)
      else transition_count acts)"
  "transition_count (xs @ ys) = transition_count xs + transition_count ys"
  by (simp_all add: transition_count_def)

lemma DIR_VECTORS_in_DIRECTIONS: "DIR_VECTORS a = Some d \<Longrightarrow> d \<in> set DIRECTIONS"
  by (auto simp: DIR_VECTORS_def DIRECTIONS_def split: if_splits)

lemma DIR_VECTORS_prefix_free:
  assumes "DIR_VECTORS a = Some d"
  shows "\<not> startswith a ''pick_up_''" and "\<not> startswith a ''unlock_''"
  using assms by (auto simp: DIR_VECTORS_def startswith_def split: if_splits)

lemma dir_name_of_vector: "d \<in> set DIRECTIONS \<Longrightarrow> DIR_VECTORS (dir_name_of d) = Some d"
  by (auto simp: DIRECTIONS_def dir_name_of_def DIR_NAMES_def DIR_VECTORS_def)

lemma pick_up_token_parse:
  "startswith (pick_up_token c) ''pick_up_''"
  "drop (length ''pick_up_'') (pick_up_token c) = c"
  by (simp_all add: pick_up_token_def startswith_def)

lemma unlock_token_parse:
  "\<not> startswith (unlock_token c) ''pick_up_''"
  "startswith (unlock_token c) ''unlock_''"
  "drop (length ''unlock_'') (unlock_token c) = c"
  "DIR_VECTORS (unlock_token c) = None"
  by (simp_all add: unlock_token_def startswith_def DIR_VECTORS_def)

lemma replay_walk:
  assumes "kl_clean (simulate_actions_loop goal obstacles keys doors gs pos invt acts)"
  shows "((kstep obstacles keys doors gs) ^^ (transition_count acts)) (pos, invt)
     (kl_final_position (simulate_actions_loop goal obstacles keys doors gs pos invt acts),
      inventory (simulate_actions_loop goal obstacles keys doors gs pos invt acts))"
  using assms
proof (induction acts arbitrary: pos invt)
  case Nil
  then show ?case by (simp add: kl_result_def transition_count_simps)
next
  case (Cons a acts)
  show ?case
  proof (cases "startswith a ''pick_up_''")
    case True
    let ?c = "drop (length ''pick_up_'') a"
    have ok: "keys pos = Some ?c \<and> ?c \<notin> invt"
      using Cons.prems True by (auto simp: kl_clean_def kl_result_def Let_def split: if_splits)
    then have st: "kstep obstacles keys doors gs (pos, invt) (pos, insert ?c invt)"
      by (simp add: kstep_def)
    have eq: "simulate_actions_loop goal obstacles keys doors gs pos invt (a # acts) =
        simulate_actions_loop goal obstacles keys doors gs pos (insert ?c invt) acts"
      using True ok by (simp add: Let_def)
    have "((kstep obstacles keys doors gs) ^^ (transition_count acts)) (pos, insert ?c invt)
      (kl_final_position (simulate_actions_loop goal obstacles keys doors gs pos (insert ?c invt) acts),
       inventory (simulate_actions_loop goal obstacles keys doors gs pos (insert ?c invt) acts))"
      using Cons.IH Cons.prems eq by simp
    then show ?thesis
      unfolding eq using True st
      by (simp add: transition_count_simps del: relpowp.simps) (rule relpowp_Suc_I2)
  next
    case np: False
    show ?thesis
    proof (cases "startswith a ''unlock_''")
      case True
      have noDir: "DIR_VECTORS a = None"
        using True DIR_VECTORS_prefix_free(2) [of a] by (cases "DIR_VECTORS a") auto
      have ok: "drop (length ''unlock_'') a \<in> invt"
        using Cons.prems np True by (auto simp: kl_clean_def kl_result_def Let_def split: if_splits)
      have eq: "simulate_actions_loop goal obstacles keys doors gs pos invt (a # acts) =
          simulate_actions_loop goal obstacles keys doors gs pos invt acts"
        using np True ok by (simp add: Let_def)
      show ?thesis
        unfolding eq using Cons.IH Cons.prems eq np noDir
        by (simp add: transition_count_simps del: relpowp.simps)
    next
      case nu: False
      show ?thesis
      proof (cases "DIR_VECTORS a")
        case None
        have eq: "simulate_actions_loop goal obstacles keys doors gs pos invt (a # acts) =
            simulate_actions_loop goal obstacles keys doors gs pos invt acts"
          using np nu None by simp
        show ?thesis
          unfolding eq using Cons.IH Cons.prems eq np None
          by (simp add: transition_count_simps del: relpowp.simps)
      next
        case (Some d)
        let ?np = "add_vec pos d"
        have ok: "in_bounds gs ?np \<and> ?np \<notin> obstacles \<and>
            (case doors ?np of Some c \<Rightarrow> c \<in> invt | None \<Rightarrow> True)"
          using Cons.prems np nu Some
          by (auto simp: kl_clean_def kl_result_def Let_def split: if_splits option.splits)
        then have st: "kstep obstacles keys doors gs (pos, invt) (?np, invt)"
          unfolding kstep_def using DIR_VECTORS_in_DIRECTIONS [OF Some]
          by (intro disjI2) (auto split: option.splits)
        have eq: "simulate_actions_loop goal obstacles keys doors gs pos invt (a # acts) =
            simulate_actions_loop goal obstacles keys doors gs ?np invt acts"
          using np nu Some ok by (auto simp: Let_def split: option.splits)
        have "((kstep obstacles keys doors gs) ^^ (transition_count acts)) (?np, invt)
          (kl_final_position (simulate_actions_loop goal obstacles keys doors gs ?np invt acts),
           inventory (simulate_actions_loop goal obstacles keys doors gs ?np invt acts))"
          using Cons.IH Cons.prems eq by simp
        then show ?thesis
          unfolding eq using Some st
          by (simp add: transition_count_simps del: relpowp.simps) (rule relpowp_Suc_I2)
      qed
    qed
  qed
qed

text \<open>Entries of the queue.\<close>

definition entry_ok ::
  "coord \<Rightarrow> coord \<Rightarrow> coord set \<Rightarrow> (coord \<rightharpoonup> string) \<Rightarrow> (coord \<rightharpoonup> string) \<Rightarrow> int \<Rightarrow> qentry \<Rightarrow> bool" where
  "entry_ok start goal obstacles keys doors gs e =
     (simulate_actions_loop goal obstacles keys doors gs start {} (snd (snd e)) =
        kl_result goal (fst (fst e)) (snd (fst e)) False False False False False \<and>
      length (fst (snd e)) = Suc (transition_count (snd (snd e))) \<and>
      ((kstep obstacles keys doors gs) ^^ (transition_count (snd (snd e)))) (start, {}) (fst e))"

definition depth :: "qentry \<Rightarrow> nat" where
  "depth e = transition_count (snd (snd e))"

lemma kl_result_clean: "kl_clean (kl_result goal pos invt False False False False False)"
  by (simp add: kl_clean_def kl_result_def)

lemma kl_result_sel:
  "kl_final_position (kl_result goal pos invt a b c d e) = pos"
  "inventory (kl_result goal pos invt a b c d e) = invt"
  by (simp_all add: kl_result_def)

lemma entry_ok_extend:
  assumes ok: "entry_ok start goal obstacles keys doors gs (s, path, acts)"
    and rep: "simulate_actions_loop goal obstacles keys doors gs (fst s) (snd s) extra =
        kl_result goal (fst t) (snd t) False False False False False"
    and cnt: "transition_count extra = 1" and st: "kstep obstacles keys doors gs s t"
  shows "entry_ok start goal obstacles keys doors gs (t, path @ [p], acts @ extra) \<and>
     depth (t, path @ [p], acts @ extra) = Suc (depth (s, path, acts))"
proof -
  have r: "simulate_actions_loop goal obstacles keys doors gs start {} acts =
        kl_result goal (fst s) (snd s) False False False False False"
    and l: "length path = Suc (transition_count acts)"
    and w: "((kstep obstacles keys doors gs) ^^ (transition_count acts)) (start, {}) s"
    using ok by (simp_all add: entry_ok_def)
  have "simulate_actions_loop goal obstacles keys doors gs start {} (acts @ extra) =
      kl_result goal (fst t) (snd t) False False False False False"
    by (simp add: simulate_actions_loop_append r kl_result_clean kl_result_sel rep)
  moreover have "((kstep obstacles keys doors gs) ^^ (Suc (transition_count acts))) (start, {}) t"
    using w st by auto
  ultimately show ?thesis
    using l cnt by (simp add: entry_ok_def depth_def transition_count_simps)
qed


lemma simulate_pick_up_token:
  "keys pos = Some c \<Longrightarrow> c \<notin> invt \<Longrightarrow>
   simulate_actions_loop goal obstacles keys doors gs pos invt (pick_up_token c # rest) =
   simulate_actions_loop goal obstacles keys doors gs pos (insert c invt) rest"
  by (simp add: pick_up_token_def startswith_def)

lemma simulate_unlock_token:
  "c \<in> invt \<Longrightarrow>
   simulate_actions_loop goal obstacles keys doors gs pos invt (unlock_token c # rest) =
   simulate_actions_loop goal obstacles keys doors gs pos invt rest"
  by (simp add: unlock_token_def startswith_def)

lemma simulate_dir_name:
  assumes "d \<in> set DIRECTIONS" "in_bounds gs (add_vec pos d)" "add_vec pos d \<notin> obstacles"
    "case doors (add_vec pos d) of Some c \<Rightarrow> c \<in> invt | None \<Rightarrow> True"
  shows "simulate_actions_loop goal obstacles keys doors gs pos invt (dir_name_of d # rest) =
   simulate_actions_loop goal obstacles keys doors gs (add_vec pos d) invt rest"
proof -
  note dv = dir_name_of_vector [OF assms(1)]
  note pf = DIR_VECTORS_prefix_free [OF dv]
  show ?thesis
    using assms(2-4) dv pf by (auto simp: Let_def split: option.splits)
qed

subsection \<open>What one expansion adds\<close>

lemma bfs_expand_entries:
  assumes ok: "entry_ok start goal obstacles keys doors gs e"
  shows "bfs_added (\<lambda>n. entry_ok start goal obstacles keys doors gs n \<and> depth n = Suc (depth e) \<and>
                       kstep obstacles keys doors gs (fst e) (fst n))
           rest visited (bfs_expand obstacles keys doors gs e (rest, visited))"
proof -
  obtain s path acts where e: "e = (s, path, acts)" by (cases e)
  obtain pos invt where s: "s = (pos, invt)" by (cases s)
  have ok': "entry_ok start goal obstacles keys doors gs (s, path, acts)" using ok e by simp
  show ?thesis
    unfolding bfs_expand_def
  proof (rule bfs_fold_move_added [OF bfs_try_pickup_added [OF bfs_added_init]])
    fix color
    assume k: "keys (fst (fst e)) = Some color" and n: "color \<notin> snd (fst e)"
    have rep: "simulate_actions_loop goal obstacles keys doors gs (fst s) (snd s) [pick_up_token color] =
        kl_result goal (fst (pos, insert color invt)) (snd (pos, insert color invt))
          False False False False False"
      using k n e s by (simp add: simulate_pick_up_token del: simulate_actions_loop.simps(2))
    have cnt: "transition_count [pick_up_token color] = 1"
      by (simp add: transition_count_simps pick_up_token_parse)
    have st: "kstep obstacles keys doors gs s (pos, insert color invt)"
      using k n e s by (simp add: kstep_def)
    from entry_ok_extend [OF ok' rep cnt st, of pos]
    show "entry_ok start goal obstacles keys doors gs
            ((fst (fst e), insert color (snd (fst e))), fst (snd e) @ [fst (fst e)],
             snd (snd e) @ [pick_up_token color]) \<and>
          depth ((fst (fst e), insert color (snd (fst e))), fst (snd e) @ [fst (fst e)],
             snd (snd e) @ [pick_up_token color]) = Suc (depth e) \<and>
          kstep obstacles keys doors gs (fst e)
            (fst ((fst (fst e), insert color (snd (fst e))), fst (snd e) @ [fst (fst e)],
             snd (snd e) @ [pick_up_token color]))"
      using st e s by simp
  next
    fix d c
    assume d: "d \<in> set DIRECTIONS" and ib: "in_bounds gs (add_vec (fst (fst e)) d)"
      and no: "add_vec (fst (fst e)) d \<notin> obstacles"
      and dr: "doors (add_vec (fst (fst e)) d) = Some c" and c: "c \<in> snd (fst e)"
    note dv = dir_name_of_vector [OF d]
    note pf = DIR_VECTORS_prefix_free [OF dv]
    have rep: "simulate_actions_loop goal obstacles keys doors gs (fst s) (snd s)
          [unlock_token c, dir_name_of d] =
        kl_result goal (fst (add_vec pos d, invt)) (snd (add_vec pos d, invt))
          False False False False False"
      using ib no dr c e s d by (simp add: simulate_unlock_token simulate_dir_name del: simulate_actions_loop.simps(2))
    have cnt: "transition_count [unlock_token c, dir_name_of d] = 1"
      using dv pf by (simp add: transition_count_simps unlock_token_parse)
    have st: "kstep obstacles keys doors gs s (add_vec pos d, invt)"
      unfolding kstep_def using d ib no dr c e s by (intro disjI2) auto
    from entry_ok_extend [OF ok' rep cnt st, of "add_vec pos d"]
    show "entry_ok start goal obstacles keys doors gs
            ((add_vec (fst (fst e)) d, snd (fst e)), fst (snd e) @ [add_vec (fst (fst e)) d],
             snd (snd e) @ [unlock_token c, dir_name_of d]) \<and>
          depth ((add_vec (fst (fst e)) d, snd (fst e)), fst (snd e) @ [add_vec (fst (fst e)) d],
             snd (snd e) @ [unlock_token c, dir_name_of d]) = Suc (depth e) \<and>
          kstep obstacles keys doors gs (fst e)
            (fst ((add_vec (fst (fst e)) d, snd (fst e)), fst (snd e) @ [add_vec (fst (fst e)) d],
             snd (snd e) @ [unlock_token c, dir_name_of d]))"
      using st e s by simp
  next
    fix d
    assume d: "d \<in> set DIRECTIONS" and ib: "in_bounds gs (add_vec (fst (fst e)) d)"
      and no: "add_vec (fst (fst e)) d \<notin> obstacles"
      and dr: "doors (add_vec (fst (fst e)) d) = None"
    note dv = dir_name_of_vector [OF d]
    note pf = DIR_VECTORS_prefix_free [OF dv]
    have rep: "simulate_actions_loop goal obstacles keys doors gs (fst s) (snd s) [dir_name_of d] =
        kl_result goal (fst (add_vec pos d, invt)) (snd (add_vec pos d, invt))
          False False False False False"
      using ib no dr e s d by (simp add: simulate_dir_name del: simulate_actions_loop.simps(2))
    have cnt: "transition_count [dir_name_of d] = 1"
      using dv pf by (simp add: transition_count_simps)
    have st: "kstep obstacles keys doors gs s (add_vec pos d, invt)"
      unfolding kstep_def using d ib no dr e s by (intro disjI2) auto
    from entry_ok_extend [OF ok' rep cnt st, of "add_vec pos d"]
    show "entry_ok start goal obstacles keys doors gs
            ((add_vec (fst (fst e)) d, snd (fst e)), fst (snd e) @ [add_vec (fst (fst e)) d],
             snd (snd e) @ [dir_name_of d]) \<and>
          depth ((add_vec (fst (fst e)) d, snd (fst e)), fst (snd e) @ [add_vec (fst (fst e)) d],
             snd (snd e) @ [dir_name_of d]) = Suc (depth e) \<and>
          kstep obstacles keys doors gs (fst e)
            (fst ((add_vec (fst (fst e)) d, snd (fst e)), fst (snd e) @ [add_vec (fst (fst e)) d],
             snd (snd e) @ [dir_name_of d]))"
      using st e s by simp
  qed
qed

lemma bfs_try_pickup_mono: "snd st \<subseteq> snd (bfs_try_pickup keys e st)"
  by (auto simp: bfs_try_pickup_def Let_def split: option.splits)

lemma bfs_try_move_mono: "snd st \<subseteq> snd (bfs_try_move obstacles doors gs e d st)"
  by (auto simp: bfs_try_move_def Let_def split: option.splits)

lemma bfs_fold_move_mono: "snd st \<subseteq> snd (fold (bfs_try_move obstacles doors gs e) ds st)"
proof (induction ds arbitrary: st)
  case Nil
  then show ?case by simp
next
  case (Cons d ds)
  show ?case
    using bfs_try_move_mono [of st obstacles doors gs e d]
      Cons.IH [of "bfs_try_move obstacles doors gs e d st"] by auto
qed

lemma bfs_try_pickup_covers:
  "keys (fst (fst e)) = Some c \<Longrightarrow> c \<notin> snd (fst e) \<Longrightarrow>
   (fst (fst e), insert c (snd (fst e))) \<in> snd (bfs_try_pickup keys e st)"
  by (auto simp: bfs_try_pickup_def Let_def)

lemma bfs_try_move_covers:
  "in_bounds gs (add_vec (fst (fst e)) d) \<Longrightarrow> add_vec (fst (fst e)) d \<notin> obstacles \<Longrightarrow>
   (case doors (add_vec (fst (fst e)) d) of Some c \<Rightarrow> c \<in> snd (fst e) | None \<Rightarrow> True) \<Longrightarrow>
   (add_vec (fst (fst e)) d, snd (fst e)) \<in> snd (bfs_try_move obstacles doors gs e d st)"
  by (auto simp: bfs_try_move_def Let_def split: option.splits)

lemma bfs_fold_move_covers:
  "d \<in> set ds \<Longrightarrow> in_bounds gs (add_vec (fst (fst e)) d) \<Longrightarrow>
   add_vec (fst (fst e)) d \<notin> obstacles \<Longrightarrow>
   (case doors (add_vec (fst (fst e)) d) of Some c \<Rightarrow> c \<in> snd (fst e) | None \<Rightarrow> True) \<Longrightarrow>
   (add_vec (fst (fst e)) d, snd (fst e)) \<in> snd (fold (bfs_try_move obstacles doors gs e) ds st)"
proof (induction ds arbitrary: st)
  case Nil
  then show ?case by simp
next
  case (Cons d' ds)
  show ?case
  proof (cases "d = d'")
    case True
    have "(add_vec (fst (fst e)) d, snd (fst e)) \<in> snd (bfs_try_move obstacles doors gs e d' st)"
      using True Cons.prems bfs_try_move_covers [of gs e d' obstacles doors st] by simp
    then show ?thesis
      using bfs_fold_move_mono [of "bfs_try_move obstacles doors gs e d' st" obstacles doors gs e ds]
      by auto
  next
    case False
    then have "d \<in> set ds" using Cons.prems by simp
    then show ?thesis using Cons.IH Cons.prems by simp
  qed
qed

lemma bfs_expand_covers:
  assumes "kstep obstacles keys doors gs (fst e) t"
  shows "t \<in> snd (bfs_expand obstacles keys doors gs e st)"
proof -
  from assms consider
    (pick) c where "fst t = fst (fst e)" "keys (fst (fst e)) = Some c" "c \<notin> snd (fst e)"
      "snd t = insert c (snd (fst e))"
  | (move) d where "snd t = snd (fst e)" "d \<in> set DIRECTIONS" "fst t = add_vec (fst (fst e)) d"
      "in_bounds gs (fst t)" "fst t \<notin> obstacles"
      "case doors (fst t) of Some c \<Rightarrow> c \<in> snd (fst e) | None \<Rightarrow> True"
    unfolding kstep_def by blast
  then show ?thesis
  proof cases
    case pick
    have "t = (fst (fst e), insert c (snd (fst e)))"
      using pick by (cases t) simp
    then have "t \<in> snd (bfs_try_pickup keys e st)"
      using bfs_try_pickup_covers [of keys e c st] pick(2,3) by simp
    then show ?thesis
      unfolding bfs_expand_def
      using bfs_fold_move_mono [of "bfs_try_pickup keys e st" obstacles doors gs e DIRECTIONS]
      by auto
  next
    case move
    have "t = (add_vec (fst (fst e)) d, snd (fst e))"
      using move by (cases t) simp
    then show ?thesis
      unfolding bfs_expand_def
      using bfs_fold_move_covers [OF move(2), of gs e obstacles doors] move by simp
  qed
qed

subsection \<open>The invariant of the search\<close>

definition bfs_inv ::
  "coord \<Rightarrow> coord \<Rightarrow> coord set \<Rightarrow> (coord \<rightharpoonup> string) \<Rightarrow> (coord \<rightharpoonup> string) \<Rightarrow> int \<Rightarrow>
   qentry list \<Rightarrow> kstate set \<Rightarrow> bool" where
  "bfs_inv start goal obstacles keys doors gs queue visited =
     ((start, {}) \<in> visited \<and>
      (\<forall>e \<in> set queue. entry_ok start goal obstacles keys doors gs e \<and> fst e \<in> visited) \<and>
      distinct (map fst queue) \<and>
      sorted (map depth queue) \<and>
      (\<forall>e \<in> set queue. depth e \<le> Suc (depth (hd queue))) \<and>
      (\<forall>s \<in> visited - fst ` set queue.
         fst s \<noteq> goal \<and> (\<forall>t. kstep obstacles keys doors gs s t \<longrightarrow> t \<in> visited)) \<and>
      (\<forall>e \<in> set queue. \<forall>n. ((kstep obstacles keys doors gs) ^^ n) (start, {}) (fst e) \<longrightarrow>
         depth e \<le> n) \<and>
      (\<forall>n t. queue \<noteq> [] \<and> ((kstep obstacles keys doors gs) ^^ n) (start, {}) t \<and>
         n \<le> depth (hd queue) \<longrightarrow> t \<in> visited))"

lemma bfs_inv_init:
  "bfs_inv start goal obstacles keys doors gs [((start, {}), [start], [])] {(start, {})}"
  by (auto simp: bfs_inv_def entry_ok_def depth_def transition_count_simps)

lemma sorted_hd_le: "sorted (map f xs) \<Longrightarrow> x \<in> set xs \<Longrightarrow> f (hd xs) \<le> f x"
  by (cases xs) auto

lemma expanded_sets:
  "N \<inter> V = {} \<Longrightarrow> R \<subseteq> V \<Longrightarrow> x \<notin> R \<Longrightarrow> x \<in> V \<Longrightarrow>
   (V \<union> N) - (R \<union> N) = insert x (V - insert x R)"
  by blast

lemma bfs_inv_step:
  assumes inv: "bfs_inv start goal obstacles keys doors gs (e # rest) visited"
    and ng: "fst (fst e) \<noteq> goal"
    and ex: "bfs_expand obstacles keys doors gs e (rest, visited) = (queue', visited')"
  shows "bfs_inv start goal obstacles keys doors gs queue' visited'"
proof -
  let ?K = "kstep obstacles keys doors gs"
  let ?init = "(start, {}) :: kstate"
  have i0: "?init \<in> visited"
    and i1: "\<forall>x \<in> set (e # rest). entry_ok start goal obstacles keys doors gs x \<and> fst x \<in> visited"
    and i2: "distinct (map fst (e # rest))"
    and i3: "sorted (map depth (e # rest))"
    and i4: "\<forall>x \<in> set (e # rest). depth x \<le> Suc (depth e)"
    and i5: "\<forall>s \<in> visited - fst ` set (e # rest).
         fst s \<noteq> goal \<and> (\<forall>t. ?K s t \<longrightarrow> t \<in> visited)"
    and i6: "\<forall>x \<in> set (e # rest). \<forall>n. (?K ^^ n) ?init (fst x) \<longrightarrow> depth x \<le> n"
    and i7: "\<forall>n t. (?K ^^ n) ?init t \<and> n \<le> depth e \<longrightarrow> t \<in> visited"
    using inv unfolding bfs_inv_def by simp_all
  have eok: "entry_ok start goal obstacles keys doors gs e" using i1 by simp
  from bfs_expand_entries [OF eok, of rest visited] ex
  obtain new where q: "queue' = rest @ new" and v: "visited' = visited \<union> fst ` set new"
    and dn: "distinct (map fst new)" and dj: "fst ` set new \<inter> visited = {}"
    and nw: "\<forall>n \<in> set new. entry_ok start goal obstacles keys doors gs n \<and>
               depth n = Suc (depth e) \<and> ?K (fst e) (fst n)"
    by (auto simp: bfs_added_def)
  have cov: "\<And>t. ?K (fst e) t \<Longrightarrow> t \<in> visited'"
    using bfs_expand_covers [of obstacles keys doors gs e _ "(rest, visited)"] ex by simp
  have lo: "\<forall>x \<in> set queue'. depth e \<le> depth x"
    using i3 nw q by auto
  have hi: "\<forall>x \<in> set queue'. depth x \<le> Suc (depth e)"
    using i4 nw q by auto
  have rest_vis: "fst ` set rest \<subseteq> visited" using i1 by auto
  have e_not_rest: "fst e \<notin> fst ` set rest" using i2 by auto
  have fe_vis: "fst e \<in> visited" using i1 by simp
  have img1: "fst ` set queue' = fst ` set rest \<union> fst ` set new"
    using q by (simp add: image_Un)
  have img2: "fst ` set (e # rest) = insert (fst e) (fst ` set rest)"
    by simp
  have expanded: "visited' - fst ` set queue' = insert (fst e) (visited - fst ` set (e # rest))"
    unfolding v img1 img2 using dj rest_vis e_not_rest fe_vis by (rule expanded_sets)
  show ?thesis
    unfolding bfs_inv_def
  proof (intro conjI)
    show "?init \<in> visited'" using i0 v by simp
    show "\<forall>x \<in> set queue'. entry_ok start goal obstacles keys doors gs x \<and> fst x \<in> visited'"
      using i1 nw q v by auto
    show "distinct (map fst queue')"
      using i2 dn dj rest_vis q by auto
    show "sorted (map depth queue')"
    proof -
      have "sorted (map depth rest)" using i3 by simp
      moreover have "sorted (map depth new)"
        using nw by (induction new) auto
      moreover have "\<forall>x \<in> set rest. \<forall>y \<in> set new. depth x \<le> depth y"
        using i4 nw by auto
      ultimately show ?thesis using q by (auto simp: sorted_append)
    qed
    show "\<forall>x \<in> set queue'. depth x \<le> Suc (depth (hd queue'))"
    proof
      fix x assume x: "x \<in> set queue'"
      then have "queue' \<noteq> []" by auto
      then have "hd queue' \<in> set queue'" by simp
      then have "depth e \<le> depth (hd queue')" using lo by blast
      moreover have "depth x \<le> Suc (depth e)" using hi x by blast
      ultimately show "depth x \<le> Suc (depth (hd queue'))" by simp
    qed
    show "\<forall>s \<in> visited' - fst ` set queue'.
         fst s \<noteq> goal \<and> (\<forall>t. ?K s t \<longrightarrow> t \<in> visited')"
    proof
      fix s assume "s \<in> visited' - fst ` set queue'"
      then consider "s = fst e" | "s \<in> visited - fst ` set (e # rest)"
        using expanded by auto
      then show "fst s \<noteq> goal \<and> (\<forall>t. ?K s t \<longrightarrow> t \<in> visited')"
      proof cases
        case 1
        then show ?thesis using ng cov by simp
      next
        case 2
        then have "fst s \<noteq> goal" "\<forall>t. ?K s t \<longrightarrow> t \<in> visited"
          using i5 by blast+
        then show ?thesis using v by blast
      qed
    qed
    show "\<forall>x \<in> set queue'. \<forall>n. (?K ^^ n) ?init (fst x) \<longrightarrow> depth x \<le> n"
    proof (intro ballI allI impI)
      fix x n assume x: "x \<in> set queue'" and r: "(?K ^^ n) ?init (fst x)"
      from x q consider "x \<in> set rest" | "x \<in> set new" by auto
      then show "depth x \<le> n"
      proof cases
        case 1
        then have "x \<in> set (e # rest)" by simp
        then show ?thesis using i6 r by blast
      next
        case 2
        show ?thesis
        proof (rule ccontr)
          assume "\<not> depth x \<le> n"
          moreover have "depth x = Suc (depth e)" using nw 2 by blast
          ultimately have "n \<le> depth e" by simp
          then have "fst x \<in> visited" using i7 r by blast
          moreover have "fst x \<in> fst ` set new" using 2 by simp
          ultimately show False using dj by blast
        qed
      qed
    qed
    show "\<forall>n t. queue' \<noteq> [] \<and> (?K ^^ n) ?init t \<and> n \<le> depth (hd queue') \<longrightarrow> t \<in> visited'"
    proof (intro allI impI)
      fix n t
      assume h: "queue' \<noteq> [] \<and> (?K ^^ n) ?init t \<and> n \<le> depth (hd queue')"
      then have hdq: "hd queue' \<in> set queue'" by simp
      show "t \<in> visited'"
      proof (cases "n \<le> depth e")
        case True
        then show ?thesis using i7 h v by blast
      next
        case False
        have "depth (hd queue') \<le> Suc (depth e)" using hi hdq by blast
        then have n: "n = Suc (depth e)" and hd: "depth (hd queue') = Suc (depth e)"
          using False h by auto
        from h n have "(?K ^^ (Suc (depth e))) ?init t" by simp
        then obtain u where u: "(?K ^^ (depth e)) ?init u" "?K u t"
          by (rule relpowp_Suc_E)
        have uv: "u \<in> visited" using i7 u(1) by blast
        show ?thesis
        proof (cases "u = fst e")
          case True
          then show ?thesis using cov u(2) by simp
        next
          case ne: False
          have "u \<notin> fst ` set rest"
          proof
            assume "u \<in> fst ` set rest"
            then obtain x where x: "x \<in> set rest" "u = fst x" by auto
            then have "x \<in> set (e # rest)" by simp
            then have "depth x \<le> depth e" using i6 u(1) x(2) by blast
            moreover have "x \<in> set queue'" using x q by simp
            then have "depth (hd queue') \<le> depth x"
              using \<open>sorted (map depth queue')\<close> by (rule sorted_hd_le [rotated])
            ultimately show False using hd by simp
          qed
          then have "u \<in> visited - fst ` set (e # rest)" using uv ne by simp
          then have "t \<in> visited" using i5 u(2) by blast
          then show ?thesis using v by simp
        qed
      qed
    qed
  qed
qed

subsection \<open>The search returns a walk with the fewest transitions\<close>

lemma kl_reached_goal_loop:
  "kl_reached_goal (simulate_actions_loop goal obstacles keys doors gs pos invt acts) =
     (kl_final_position (simulate_actions_loop goal obstacles keys doors gs pos invt acts) = goal)"
  by (induction acts arbitrary: pos invt)
     (auto simp: kl_result_def Let_def split: option.splits)

lemma action_seq_valid_iff:
  "\<not> is_action_seq_invalid start goal obstacles keys doors acts gs \<longleftrightarrow>
     kl_clean (simulate_actions_loop goal obstacles keys doors gs start {} acts) \<and>
     kl_final_position (simulate_actions_loop goal obstacles keys doors gs start {} acts) = goal"
  using kl_reached_goal_loop [of goal obstacles keys doors gs start "{}" acts]
  by (auto simp: is_action_seq_invalid_def simulate_actions_def kl_clean_def Let_def)

lemma bfs_closed_reach:
  assumes inv: "bfs_inv start goal obstacles keys doors gs [] visited"
    and r: "((kstep obstacles keys doors gs) ^^ n) (start, {}) t"
  shows "t \<in> visited"
  using r
proof (induction n arbitrary: t)
  case 0
  then show ?case using inv by (simp add: bfs_inv_def)
next
  case (Suc n)
  from Suc.prems obtain u where u: "((kstep obstacles keys doors gs) ^^ n) (start, {}) u"
    "kstep obstacles keys doors gs u t"
    by (rule relpowp_Suc_E)
  have "u \<in> visited" using Suc.IH u(1) by blast
  moreover have "\<forall>s \<in> visited. \<forall>t. kstep obstacles keys doors gs s t \<longrightarrow> t \<in> visited"
    using inv unfolding bfs_inv_def by simp
  ultimately show ?case using u(2) by blast
qed

lemma bfs_loop_correct:
  assumes "bfs_inv start goal obstacles keys doors gs queue visited"
  shows "case bfs_loop goal obstacles keys doors gs queue visited of
           None \<Rightarrow> \<forall>n t. ((kstep obstacles keys doors gs) ^^ n) (start, {}) t \<longrightarrow> fst t \<noteq> goal
         | Some (path, acts) \<Rightarrow>
             (\<exists>s. fst s = goal \<and> entry_ok start goal obstacles keys doors gs (s, path, acts)) \<and>
             (\<forall>n t. ((kstep obstacles keys doors gs) ^^ n) (start, {}) t \<and> fst t = goal \<longrightarrow>
                transition_count acts \<le> n)"
  using assms
proof (induction goal obstacles keys doors gs queue visited rule: bfs_loop.induct)
  case (1 goal obstacles keys doors gs queue visited)
  note inv = "1.prems"
  let ?K = "kstep obstacles keys doors gs"
  show ?case
  proof (cases queue)
    case Nil
    have "\<forall>n t. (?K ^^ n) (start, {}) t \<longrightarrow> fst t \<noteq> goal"
    proof (intro allI impI)
      fix n t assume "(?K ^^ n) (start, {}) t"
      then have "t \<in> visited" using bfs_closed_reach inv Nil by blast
      then show "fst t \<noteq> goal" using inv Nil unfolding bfs_inv_def by simp
    qed
    then show ?thesis using Nil by (simp add: bfs_loop.simps)
  next
    case (Cons e rest)
    obtain queue' visited' where ex:
      "bfs_expand obstacles keys doors gs e (rest, visited) = (queue', visited')"
      by (cases "bfs_expand obstacles keys doors gs e (rest, visited)")
    have inv': "bfs_inv start goal obstacles keys doors gs (e # rest) visited"
      using inv Cons by simp
    show ?thesis
    proof (cases "fst (fst e) = goal")
      case True
      have res: "bfs_loop goal obstacles keys doors gs queue visited =
          Some (fst (snd e), snd (snd e))"
        using Cons ex True by (simp add: bfs_loop.simps)
      have eok: "entry_ok start goal obstacles keys doors gs (fst e, fst (snd e), snd (snd e))"
        using inv' unfolding bfs_inv_def by simp
      have opt: "\<forall>n t. (?K ^^ n) (start, {}) t \<and> fst t = goal \<longrightarrow>
                transition_count (snd (snd e)) \<le> n"
      proof (intro allI impI, rule ccontr)
        fix n t
        assume h: "(?K ^^ n) (start, {}) t \<and> fst t = goal"
          and c: "\<not> transition_count (snd (snd e)) \<le> n"
        then have lt: "n < depth e" by (simp add: depth_def)
        have i5: "\<forall>s \<in> visited - fst ` set (e # rest). fst s \<noteq> goal"
          and i6: "\<forall>x \<in> set (e # rest). \<forall>n. (?K ^^ n) (start, {}) (fst x) \<longrightarrow> depth x \<le> n"
          and i7: "\<forall>n t. (?K ^^ n) (start, {}) t \<and> n \<le> depth e \<longrightarrow> t \<in> visited"
          and i3: "sorted (map depth (e # rest))"
          using inv' unfolding bfs_inv_def by simp_all
        have tv: "t \<in> visited" using i7 h lt by (meson less_imp_le)
        have "t \<notin> fst ` set (e # rest)"
        proof
          assume "t \<in> fst ` set (e # rest)"
          then obtain x where x: "x \<in> set (e # rest)" "t = fst x" by blast
          then have "depth x \<le> n" using i6 h by blast
          moreover have "depth e \<le> depth x"
            using sorted_hd_le [OF i3 x(1)] by simp
          ultimately show False using lt by simp
        qed
        then have "fst t \<noteq> goal" using i5 tv by blast
        then show False using h by simp
      qed
      have "\<exists>s. fst s = goal \<and>
          entry_ok start goal obstacles keys doors gs (s, fst (snd e), snd (snd e))"
        using eok True by blast
      then show ?thesis
        unfolding res using opt by (simp only: option.case prod.case)
    next
      case False
      have res: "bfs_loop goal obstacles keys doors gs queue visited =
          bfs_loop goal obstacles keys doors gs queue' visited'"
        using Cons ex False by (simp add: bfs_loop.simps)
      have "bfs_inv start goal obstacles keys doors gs queue' visited'"
        by (rule bfs_inv_step [OF inv' False ex])
      then show ?thesis
        unfolding res
        using "1.IH" [OF Cons refl ex [symmetric] False] by simp
    qed
  qed
qed

lemma valid_actions_walk:
  assumes "\<not> is_action_seq_invalid start goal obstacles keys doors acts gs"
  shows "\<exists>t. ((kstep obstacles keys doors gs) ^^ (transition_count acts)) (start, {}) t \<and> fst t = goal"
proof -
  let ?r = "simulate_actions_loop goal obstacles keys doors gs start {} acts"
  have c: "kl_clean ?r" and g: "kl_final_position ?r = goal"
    using assms action_seq_valid_iff by blast+
  from replay_walk [OF c] g show ?thesis by fastforce
qed

text \<open>Claim C3, as the code has it. When some action sequence is accepted by the
  validator, \<^verbatim>\<open>bfs_with_keys\<close> returns a path and an action list; the action list is
  accepted by the validator, the path has one cell more than the list has transitions
  (moves and pick-ups), and no accepted action sequence has fewer transitions. When no
  action sequence is accepted, it returns \<^verbatim>\<open>None\<close>. The number minimised is the number
  of moves and pick-ups: an \<^verbatim>\<open>unlock_<color>\<close> token is written together with the move
  onto the door and costs the search nothing.\<close>

theorem bfs_with_keys_fewest_transitions:
  "case bfs_with_keys start goal obstacles keys doors grid_size of
     None \<Rightarrow> \<forall>acts. is_action_seq_invalid start goal obstacles keys doors acts grid_size
   | Some (path, actions) \<Rightarrow>
       \<not> is_action_seq_invalid start goal obstacles keys doors actions grid_size \<and>
       length path = Suc (transition_count actions) \<and>
       (\<forall>acts. \<not> is_action_seq_invalid start goal obstacles keys doors acts grid_size \<longrightarrow>
          transition_count actions \<le> transition_count acts)"
proof -
  let ?K = "kstep obstacles keys doors grid_size"
  note main = bfs_loop_correct [OF bfs_inv_init, where start = start and goal = goal and obstacles = obstacles and keys = keys and doors = doors and gs = grid_size]
  show ?thesis
  proof (cases "bfs_with_keys start goal obstacles keys doors grid_size")
    case None
    then have "\<forall>n t. (?K ^^ n) (start, {}) t \<longrightarrow> fst t \<noteq> goal"
      using main by (simp add: bfs_with_keys_def)
    then have "\<forall>acts. is_action_seq_invalid start goal obstacles keys doors acts grid_size"
      using valid_actions_walk by blast
    then show ?thesis using None by simp
  next
    case (Some res)
    obtain path actions where res: "res = (path, actions)" by (cases res)
    have loop: "bfs_loop goal obstacles keys doors grid_size [((start, {}), [start], [])]
        {(start, {})} = Some (path, actions)"
      using Some res by (simp add: bfs_with_keys_def)
    from main obtain s where s: "fst s = goal"
      "entry_ok start goal obstacles keys doors grid_size (s, path, actions)"
      and opt: "\<forall>n t. (?K ^^ n) (start, {}) t \<and> fst t = goal \<longrightarrow> transition_count actions \<le> n"
      unfolding loop by (simp only: option.case prod.case) blast
    have sim: "simulate_actions_loop goal obstacles keys doors grid_size start {} actions =
        kl_result goal (fst s) (snd s) False False False False False"
      and len: "length path = Suc (transition_count actions)"
      using s(2) by (simp_all add: entry_ok_def)
    have v: "\<not> is_action_seq_invalid start goal obstacles keys doors actions grid_size"
      unfolding action_seq_valid_iff sim using s(1) by (simp add: kl_result_clean kl_result_sel)
    have "\<forall>acts. \<not> is_action_seq_invalid start goal obstacles keys doors acts grid_size \<longrightarrow>
          transition_count actions \<le> transition_count acts"
      using valid_actions_walk opt by blast
    then show ?thesis using Some res v len by simp
  qed
qed

text \<open>An instance the sampler can draw: start \<^verbatim>\<open>(3, 1)\<close>, goal \<^verbatim>\<open>(1, 0)\<close>, obstacles at
  \<^verbatim>\<open>(1, 1)\<close> and \<^verbatim>\<open>(0, 4)\<close>, a red and a blue key, a red and a blue door.\<close>

definition detour_keys :: "coord \<rightharpoonup> string" where
  "detour_keys = map_of [((3, 2), ''red''), ((2, 2), ''blue'')]"

definition detour_doors :: "coord \<rightharpoonup> string" where
  "detour_doors = map_of [((2, 1), ''red''), ((2, 0), ''blue'')]"

lemma detour_bfs:
  "bfs_with_keys (3, 1) (1, 0) {(1, 1), (0, 4)} detour_keys detour_doors 5 =
     Some ([(3, 1), (3, 2), (3, 2), (2, 2), (2, 2), (2, 1), (2, 0), (1, 0)],
           [''right'', ''pick_up_red'', ''up'', ''pick_up_blue'', ''unlock_red'', ''left'',
            ''unlock_blue'', ''left'', ''up''])"
  by code_simp

lemma detour_keyless_valid:
  "\<not> is_action_seq_invalid (3, 1) (1, 0) {(1, 1), (0, 4)} detour_keys detour_doors
      [''right'', ''up'', ''up'', ''up'', ''left'', ''left'', ''down''] 5"
  by code_simp

theorem bfs_with_keys_fewest_transitions_witness:
  "bfs_with_keys (3, 1) (1, 0) {(1, 1), (0, 4)} detour_keys detour_doors 5 =
     Some ([(3, 1), (3, 2), (3, 2), (2, 2), (2, 2), (2, 1), (2, 0), (1, 0)],
           [''right'', ''pick_up_red'', ''up'', ''pick_up_blue'', ''unlock_red'', ''left'',
            ''unlock_blue'', ''left'', ''up'']) \<and>
   \<not> is_action_seq_invalid (3, 1) (1, 0) {(1, 1), (0, 4)} detour_keys detour_doors
      [''right'', ''up'', ''up'', ''up'', ''left'', ''left'', ''down''] 5 \<and>
   transition_count [''right'', ''pick_up_red'', ''up'', ''pick_up_blue'', ''unlock_red'', ''left'',
            ''unlock_blue'', ''left'', ''up''] \<le>
     transition_count [''right'', ''up'', ''up'', ''up'', ''left'', ''left'', ''down'']"
  using bfs_with_keys_fewest_transitions [of "(3, 1)" "(1, 0)" "{(1, 1), (0, 4)}" detour_keys detour_doors 5]
    detour_keyless_valid
  unfolding detour_bfs by (simp only: option.case prod.case detour_bfs simp_thms)

text \<open>On that instance the returned list has nine action tokens, and a list of seven
  moves that touches no door is accepted by the validator: the token count of the
  returned list is not minimal.\<close>

theorem bfs_with_keys_action_count_not_minimal:
  "bfs_with_keys (3, 1) (1, 0) {(1, 1), (0, 4)} detour_keys detour_doors 5 =
     Some ([(3, 1), (3, 2), (3, 2), (2, 2), (2, 2), (2, 1), (2, 0), (1, 0)],
           [''right'', ''pick_up_red'', ''up'', ''pick_up_blue'', ''unlock_red'', ''left'',
            ''unlock_blue'', ''left'', ''up'']) \<and>
   \<not> is_action_seq_invalid (3, 1) (1, 0) {(1, 1), (0, 4)} detour_keys detour_doors
      [''right'', ''up'', ''up'', ''up'', ''left'', ''left'', ''down''] 5 \<and>
   length [''right'', ''up'', ''up'', ''up'', ''left'', ''left'', ''down''] <
     length [''right'', ''pick_up_red'', ''up'', ''pick_up_blue'', ''unlock_red'', ''left'',
            ''unlock_blue'', ''left'', ''up'']"
  using detour_bfs detour_keyless_valid by simp


section \<open>Container pouring: \<^verbatim>\<open>simulate_step\<close>\<close>

text \<open>
  Python raises \<^verbatim>\<open>IndexError\<close> on a list index out of range, \<^verbatim>\<open>KeyError\<close> on a missing
  dictionary key, \<^verbatim>\<open>TypeError\<close> on an operation applied to \<^verbatim>\<open>None\<close> and \<^verbatim>\<open>ValueError\<close> on
  \<^verbatim>\<open>list.index\<close> of an absent element or \<^verbatim>\<open>min\<close> of an empty list, and \<^verbatim>\<open>StopIteration\<close>
  on \<^verbatim>\<open>next\<close> of an exhausted generator; all are values here.
\<close>

datatype py_error =
  IndexError | KeyError | TypeError | ValueError | StopIteration | ZeroDivisionError

definition err_bind :: "py_error + 'a \<Rightarrow> ('a \<Rightarrow> py_error + 'b) \<Rightarrow> py_error + 'b" where
  "err_bind m f = (case m of Inl e \<Rightarrow> Inl e | Inr x \<Rightarrow> f x)"

definition py_index :: "'a list \<Rightarrow> nat \<Rightarrow> py_error + 'a" where
  "py_index xs i = (if i < length xs then Inr (xs ! i) else Inl IndexError)"

text \<open>
  A Python \<^verbatim>\<open>dict\<close> keeps insertion order, which the generators rely on when they list
  keys and values, so a dictionary is an association list with distinct keys: lookup is
  \<open>map_of\<close>, assignment to a key is \<open>AList.update\<close> (in place for a key that is present, at
  the end for a new one).
\<close>

definition py_getitem :: "('k \<times> 'v) list \<Rightarrow> 'k \<Rightarrow> py_error + 'v" where
  "py_getitem d k = (case map_of d k of None \<Rightarrow> Inl KeyError | Some v \<Rightarrow> Inr v)"

text \<open>
  \<^verbatim>\<open>str.split()\<close> without arguments: the maximal runs of non-whitespace characters.
  Characters are 8-bit here and stand for the code points below 256; the whitespace
  characters are the code points there on which \<^verbatim>\<open>str.split()\<close> splits: the ASCII ones
  and the two of the upper half, U+0085 (next line) and U+00A0 (no-break space).
\<close>

definition is_space :: "char \<Rightarrow> bool" where
  "is_space c = (c \<in> set [CHR 0x09, CHR 0x0A, CHR 0x0B, CHR 0x0C, CHR 0x0D,
                           CHR 0x1C, CHR 0x1D, CHR 0x1E, CHR 0x1F, CHR 0x20,
                           CHR 0x85, CHR 0xA0])"

fun split_acc :: "string \<Rightarrow> string \<Rightarrow> string list" where
  "split_acc w [] = (if w = [] then [] else [w])"
| "split_acc w (c # cs) =
     (if is_space c then (if w = [] then split_acc [] cs else w # split_acc [] cs)
      else split_acc (w @ [c]) cs)"

definition py_split :: "string \<Rightarrow> string list" where
  "py_split s = split_acc [] s"

record Container =
  name :: string
  capacity :: int
  current :: int

text \<open>
  \<^verbatim>\<open>simulate_step\<close> mutates the \<^verbatim>\<open>Container\<close> objects of the dictionary in place; the
  model returns the updated dictionary. In \<^verbatim>\<open>Pour\<close> the source object is updated first and
  the destination object is read again afterwards, so that pouring a container into itself
  sees the first update, as the aliased objects of the source do. The condition
  \<^verbatim>\<open>parts[0] == "Pour" and parts[2] == "into"\<close> reads \<^verbatim>\<open>parts[2]\<close> only when the first
  test holds. An action that matches no branch changes nothing.
\<close>

definition simulate_step ::
  "(string \<times> Container) list \<Rightarrow> string \<Rightarrow> py_error + (string \<times> Container) list" where
  "simulate_step containers action =
     (let parts = py_split action in
      err_bind (py_index parts 0) (\<lambda>p0.
      err_bind (if p0 = ''Pour'' then err_bind (py_index parts 2) (\<lambda>p2. Inr (p2 = ''into''))
                else Inr False) (\<lambda>is_pour.
      if is_pour then
        err_bind (py_index parts 1) (\<lambda>src.
        err_bind (py_index parts 3) (\<lambda>dst.
        err_bind (py_getitem containers src) (\<lambda>src_c.
        err_bind (py_getitem containers dst) (\<lambda>dst_c.
          let amount_to_pour = min (current src_c) (capacity dst_c - current dst_c);
              containers1 =
                AList.update src (src_c\<lparr>current := current src_c - amount_to_pour\<rparr>) containers
          in err_bind (py_getitem containers1 dst) (\<lambda>dst_c1.
             Inr (AList.update dst (dst_c1\<lparr>current := current dst_c1 + amount_to_pour\<rparr>)
                    containers1))))))
      else if p0 = ''Fill'' then
        err_bind (py_index parts 1) (\<lambda>tgt.
        err_bind (py_getitem containers tgt) (\<lambda>c.
          Inr (AList.update tgt (c\<lparr>current := capacity c\<rparr>) containers)))
      else if p0 = ''Empty'' then
        err_bind (py_index parts 1) (\<lambda>tgt.
        err_bind (py_getitem containers tgt) (\<lambda>c.
          Inr (AList.update tgt (c\<lparr>current := 0\<rparr>) containers)))
      else Inr containers)))"

text \<open>A container name that \<^verbatim>\<open>split\<close> returns as one token: non-empty, no whitespace.\<close>

definition is_token :: "string \<Rightarrow> bool" where
  "is_token t = (t \<noteq> [] \<and> (\<forall>c \<in> set t. \<not> is_space c))"

lemma split_acc_token:
  "\<forall>c \<in> set t. \<not> is_space c \<Longrightarrow> split_acc w (t @ cs) = split_acc (w @ t) cs"
  by (induction t arbitrary: w) auto

lemma split_pour:
  assumes "is_token src" "is_token dst"
  shows "py_split (''Pour '' @ src @ '' into '' @ dst) = [''Pour'', src, ''into'', dst]"
proof -
  have a: "split_acc [] (dst @ []) = [dst]"
    using assms(2) by (subst split_acc_token) (auto simp: is_token_def)
  have b: "split_acc [] (src @ '' into '' @ dst) = [src, ''into'', dst]"
    using assms(1) a by (subst split_acc_token) (auto simp: is_token_def is_space_def)
  show ?thesis using b by (simp add: py_split_def is_space_def)
qed

lemma split_keyword_target:
  assumes "is_token tgt" "is_token kw"
  shows "py_split (kw @ '' '' @ tgt) = [kw, tgt]"
proof -
  have a: "split_acc [] (tgt @ []) = [tgt]"
    using assms(1) by (subst split_acc_token) (auto simp: is_token_def)
  show ?thesis using assms(2) a
    by (simp add: py_split_def split_acc_token is_token_def is_space_def)
qed

lemma simulate_step_pour:
  assumes "is_token src" "is_token dst" "src \<noteq> dst"
    and "map_of cs src = Some sc" "map_of cs dst = Some dc"
  shows "simulate_step cs (''Pour '' @ src @ '' into '' @ dst) =
     Inr (AList.update dst
            (dc\<lparr>current := current dc + min (current sc) (capacity dc - current dc)\<rparr>)
            (AList.update src
               (sc\<lparr>current := current sc - min (current sc) (capacity dc - current dc)\<rparr>) cs))"
  using assms split_pour [OF assms(1,2)]
  by (simp add: simulate_step_def err_bind_def py_index_def py_getitem_def Let_def
      update_conv' del: append.simps)

lemma simulate_step_fill:
  assumes "is_token tgt" "map_of cs tgt = Some c"
  shows "simulate_step cs (''Fill '' @ tgt) = Inr (AList.update tgt (c\<lparr>current := capacity c\<rparr>) cs)"
proof -
  have "py_split (''Fill'' @ '' '' @ tgt) = [''Fill'', tgt]"
    by (rule split_keyword_target [OF assms(1)]) (simp add: is_token_def is_space_def)
  then show ?thesis using assms(2)
    by (simp add: simulate_step_def err_bind_def py_index_def py_getitem_def Let_def)
qed

lemma simulate_step_empty:
  assumes "is_token tgt" "map_of cs tgt = Some c"
  shows "simulate_step cs (''Empty '' @ tgt) = Inr (AList.update tgt (c\<lparr>current := 0\<rparr>) cs)"
proof -
  have "py_split (''Empty'' @ '' '' @ tgt) = [''Empty'', tgt]"
    by (rule split_keyword_target [OF assms(1)]) (simp add: is_token_def is_space_def)
  then show ?thesis using assms(2)
    by (simp add: simulate_step_def err_bind_def py_index_def py_getitem_def Let_def)
qed

lemma update_present_keys:
  "map_of cs k = Some v \<Longrightarrow> map fst (AList.update k w cs) = map fst cs"
  by (simp add: update_keys map_of_eq_None_iff [symmetric] del: map_of_eq_None_iff)

text \<open>
  Claim C8. \<^verbatim>\<open>simulate_step\<close> is a function of the containers and the action string.
  \<^verbatim>\<open>Pour src into dst\<close> between two different containers moves exactly
  \<open>min (current src) (capacity dst - current dst)\<close> from the source to the destination,
  \<^verbatim>\<open>Fill\<close> sets the target's volume to its capacity and \<^verbatim>\<open>Empty\<close> sets it to zero; every
  other container, every capacity and the order of the dictionary stay as they were. From
  A (capacity 10, current 0) and B (capacity 5, current 5), \<^verbatim>\<open>Pour B into A\<close> gives A = 5 and
  B = 0.
\<close>

theorem simulate_step_actions:
  "(is_token src \<and> is_token dst \<and> src \<noteq> dst \<and> map_of cs src = Some sc \<and> map_of cs dst = Some dc \<longrightarrow>
      (\<exists>cs'. simulate_step cs (''Pour '' @ src @ '' into '' @ dst) = Inr cs' \<and>
         (let amount = min (current sc) (capacity dc - current dc) in
          map_of cs' src = Some (sc\<lparr>current := current sc - amount\<rparr>) \<and>
          map_of cs' dst = Some (dc\<lparr>current := current dc + amount\<rparr>) \<and>
          (\<forall>n. n \<noteq> src \<and> n \<noteq> dst \<longrightarrow> map_of cs' n = map_of cs n) \<and>
          map fst cs' = map fst cs))) \<and>
   (is_token tgt \<and> map_of cs tgt = Some c \<longrightarrow>
      (\<exists>cs'. simulate_step cs (''Fill '' @ tgt) = Inr cs' \<and>
         map_of cs' tgt = Some (c\<lparr>current := capacity c\<rparr>) \<and>
         (\<forall>n. n \<noteq> tgt \<longrightarrow> map_of cs' n = map_of cs n) \<and> map fst cs' = map fst cs) \<and>
      (\<exists>cs'. simulate_step cs (''Empty '' @ tgt) = Inr cs' \<and>
         map_of cs' tgt = Some (c\<lparr>current := 0\<rparr>) \<and>
         (\<forall>n. n \<noteq> tgt \<longrightarrow> map_of cs' n = map_of cs n) \<and> map fst cs' = map fst cs)) \<and>
   simulate_step
     [(''A'', \<lparr>name = ''A'', capacity = 10, current = 0\<rparr>),
      (''B'', \<lparr>name = ''B'', capacity = 5, current = 5\<rparr>)] ''Pour B into A'' =
     Inr [(''A'', \<lparr>name = ''A'', capacity = 10, current = 5\<rparr>),
          (''B'', \<lparr>name = ''B'', capacity = 5, current = 0\<rparr>)]"
proof (intro conjI impI)
  assume h: "is_token src \<and> is_token dst \<and> src \<noteq> dst \<and> map_of cs src = Some sc \<and>
      map_of cs dst = Some dc"
  then have eq: "simulate_step cs (''Pour '' @ src @ '' into '' @ dst) =
     Inr (AList.update dst
            (dc\<lparr>current := current dc + min (current sc) (capacity dc - current dc)\<rparr>)
            (AList.update src
               (sc\<lparr>current := current sc - min (current sc) (capacity dc - current dc)\<rparr>) cs))"
    by (intro simulate_step_pour) auto
  have keys: "map fst (AList.update dst
            (dc\<lparr>current := current dc + min (current sc) (capacity dc - current dc)\<rparr>)
            (AList.update src
               (sc\<lparr>current := current sc - min (current sc) (capacity dc - current dc)\<rparr>) cs)) =
       map fst cs"
  proof -
    let ?c1 = "AList.update src
               (sc\<lparr>current := current sc - min (current sc) (capacity dc - current dc)\<rparr>) cs"
    have k1: "map fst ?c1 = map fst cs"
      using h by (intro update_present_keys) auto
    have "map_of ?c1 dst = Some dc"
      using h by (auto simp: update_conv')
    then show ?thesis
      using k1 by (simp add: update_present_keys)
  qed
  show "\<exists>cs'. simulate_step cs (''Pour '' @ src @ '' into '' @ dst) = Inr cs' \<and>
         (let amount = min (current sc) (capacity dc - current dc) in
          map_of cs' src = Some (sc\<lparr>current := current sc - amount\<rparr>) \<and>
          map_of cs' dst = Some (dc\<lparr>current := current dc + amount\<rparr>) \<and>
          (\<forall>n. n \<noteq> src \<and> n \<noteq> dst \<longrightarrow> map_of cs' n = map_of cs n) \<and>
          map fst cs' = map fst cs)"
    unfolding eq Let_def using h keys by (simp add: update_conv')
next
  assume h: "is_token tgt \<and> map_of cs tgt = Some c"
  then have eq: "simulate_step cs (''Fill '' @ tgt) =
      Inr (AList.update tgt (c\<lparr>current := capacity c\<rparr>) cs)"
    by (intro simulate_step_fill) auto
  show "\<exists>cs'. simulate_step cs (''Fill '' @ tgt) = Inr cs' \<and>
         map_of cs' tgt = Some (c\<lparr>current := capacity c\<rparr>) \<and>
         (\<forall>n. n \<noteq> tgt \<longrightarrow> map_of cs' n = map_of cs n) \<and> map fst cs' = map fst cs"
    unfolding eq using h by (simp add: update_conv' update_present_keys)
next
  assume h: "is_token tgt \<and> map_of cs tgt = Some c"
  then have eq: "simulate_step cs (''Empty '' @ tgt) =
      Inr (AList.update tgt (c\<lparr>current := 0\<rparr>) cs)"
    by (intro simulate_step_empty) auto
  show "\<exists>cs'. simulate_step cs (''Empty '' @ tgt) = Inr cs' \<and>
         map_of cs' tgt = Some (c\<lparr>current := 0\<rparr>) \<and>
         (\<forall>n. n \<noteq> tgt \<longrightarrow> map_of cs' n = map_of cs n) \<and> map fst cs' = map fst cs"
    unfolding eq using h by (simp add: update_conv' update_present_keys)
next
  show "simulate_step
     [(''A'', \<lparr>name = ''A'', capacity = 10, current = 0\<rparr>),
      (''B'', \<lparr>name = ''B'', capacity = 5, current = 5\<rparr>)] ''Pour B into A'' =
     Inr [(''A'', \<lparr>name = ''A'', capacity = 10, current = 5\<rparr>),
          (''B'', \<lparr>name = ''B'', capacity = 5, current = 0\<rparr>)]"
    by (simp add: simulate_step_def err_bind_def py_index_def py_getitem_def py_split_def
        is_space_def Let_def)
qed

theorem simulate_step_actions_witness:
  "is_token ''X'' \<and> is_token ''Y'' \<and>
   (\<exists>cs'. simulate_step
       [(''X'', \<lparr>name = ''X'', capacity = 7, current = 6\<rparr>),
        (''Y'', \<lparr>name = ''Y'', capacity = 4, current = 1\<rparr>)] ''Pour X into Y'' = Inr cs' \<and>
      map_of cs' ''X'' = Some \<lparr>name = ''X'', capacity = 7, current = 3\<rparr> \<and>
      map_of cs' ''Y'' = Some \<lparr>name = ''Y'', capacity = 4, current = 4\<rparr>) \<and>
   (\<exists>cs'. simulate_step
       [(''X'', \<lparr>name = ''X'', capacity = 7, current = 6\<rparr>),
        (''Y'', \<lparr>name = ''Y'', capacity = 4, current = 1\<rparr>)] ''Fill Y'' = Inr cs' \<and>
      map_of cs' ''Y'' = Some \<lparr>name = ''Y'', capacity = 4, current = 4\<rparr>) \<and>
   (\<exists>cs'. simulate_step
       [(''X'', \<lparr>name = ''X'', capacity = 7, current = 6\<rparr>),
        (''Y'', \<lparr>name = ''Y'', capacity = 4, current = 1\<rparr>)] ''Empty Y'' = Inr cs' \<and>
      map_of cs' ''Y'' = Some \<lparr>name = ''Y'', capacity = 4, current = 0\<rparr>)"
proof -
  let ?cs = "[(''X'', \<lparr>name = ''X'', capacity = 7, current = 6\<rparr>),
        (''Y'', \<lparr>name = ''Y'', capacity = 4, current = 1\<rparr>)]"
  have t: "is_token ''X''" "is_token ''Y''"
    by (simp_all add: is_token_def is_space_def)
  have m: "map_of ?cs ''X'' = Some \<lparr>name = ''X'', capacity = 7, current = 6\<rparr>"
    "map_of ?cs ''Y'' = Some \<lparr>name = ''Y'', capacity = 4, current = 1\<rparr>" "''X'' \<noteq> ''Y''"
    by simp_all
  show ?thesis
    using t m
      simulate_step_actions [of "''X''" "''Y''" ?cs
        "\<lparr>name = ''X'', capacity = 7, current = 6\<rparr>"
        "\<lparr>name = ''Y'', capacity = 4, current = 1\<rparr>" "''Y''"
        "\<lparr>name = ''Y'', capacity = 4, current = 1\<rparr>"]
    by (auto simp: Let_def simp del: map_of.simps)
qed

section \<open>The seeded random source\<close>

text \<open>
  Every generator threads one \<^verbatim>\<open>random.Random(seed)\<close> through all its calls. The class
  is the standard library's, not this repository's; it is modelled by the contract of the
  methods the generators call. The generator state is an infinite sequence of raw draws;
  every call consumes draws from the front and returns a value in the documented range of
  the method, together with the rest of the sequence. Which seed yields which sequence is
  not modelled: a statement for all sequences covers every seed.
\<close>

type_synonym rng = "nat \<Rightarrow> nat"

definition randbelow :: "nat \<Rightarrow> rng \<Rightarrow> nat \<times> rng" where
  "randbelow n r = (r 0 mod n, \<lambda>i. r (Suc i))"

text \<open>The stream that repeats a non-empty list of raw draws for ever.\<close>

definition periodic :: "nat list \<Rightarrow> rng" where
  "periodic xs = (\<lambda>i. xs ! (i mod length xs))"

text \<open>\<^verbatim>\<open>rng.choice(seq)\<close> is \<^verbatim>\<open>seq[randbelow(len(seq))]\<close>; it raises \<^verbatim>\<open>IndexError\<close> on an
  empty sequence. Every call site of the generators passes a non-empty list, noted there.\<close>

definition choice :: "'a list \<Rightarrow> rng \<Rightarrow> 'a \<times> rng" where
  "choice xs r = (let (j, r') = randbelow (length xs) r in (xs ! j, r'))"

text \<open>\<^verbatim>\<open>rng.randint(a, b)\<close> is \<^verbatim>\<open>a + randbelow(b - a + 1)\<close>, for \<open>a \<le> b\<close>.\<close>

definition randint :: "int \<Rightarrow> int \<Rightarrow> rng \<Rightarrow> int \<times> rng" where
  "randint a b r = (let (j, r') = randbelow (nat (b - a + 1)) r in (a + int j, r'))"

text \<open>
  \<^verbatim>\<open>rng.shuffle(x)\<close>:
  \<^verbatim>\<open>for i in reversed(range(1, len(x))): j = randbelow(i + 1); x[i], x[j] = x[j], x[i]\<close>.
\<close>

fun shuffle_loop :: "nat \<Rightarrow> 'a list \<Rightarrow> rng \<Rightarrow> 'a list \<times> rng" where
  "shuffle_loop 0 xs r = (xs, r)"
| "shuffle_loop (Suc i) xs r =
     (let (j, r') = randbelow (Suc i + 1) r in
      shuffle_loop i (xs[Suc i := xs ! j, j := xs ! Suc i]) r')"

definition shuffle :: "'a list \<Rightarrow> rng \<Rightarrow> 'a list \<times> rng" where
  "shuffle xs r = shuffle_loop (length xs - 1) xs r"

text \<open>
  \<^verbatim>\<open>rng.sample(population, k)\<close> returns \<open>k\<close> elements at distinct positions of the
  population, in selection order: here by the pool procedure of the library
  (\<^verbatim>\<open>j = randbelow(n - i); result[i] = pool[j]; pool[j] = pool[n - i - 1]\<close>), which the
  library uses for the populations of two or three names of the container generator. For
  the 25 cells of the spatial sampler the library draws positions below \<open>n\<close> and draws
  again on a position it has already selected; on draws that are distinct and below
  \<open>n - k\<close>, as the draw sequences of the examples are, both procedures select the same
  elements.
\<close>

fun sample_loop :: "nat \<Rightarrow> 'a list \<Rightarrow> rng \<Rightarrow> 'a list \<times> rng" where
  "sample_loop 0 pool r = ([], r)"
| "sample_loop (Suc k) pool r =
     (let n = length pool;
          (j, r') = randbelow n r;
          x = pool ! j;
          (rest, r'') = sample_loop k (butlast (pool[j := pool ! (n - 1)])) r'
      in (x # rest, r''))"

definition sample :: "'a list \<Rightarrow> nat \<Rightarrow> rng \<Rightarrow> 'a list \<times> rng" where
  "sample population k r = sample_loop k population r"

text \<open>\<^verbatim>\<open>[rng.choice(xs) for _ in range(n)]\<close>.\<close>

fun choices_n :: "nat \<Rightarrow> 'a list \<Rightarrow> rng \<Rightarrow> 'a list \<times> rng" where
  "choices_n 0 xs r = ([], r)"
| "choices_n (Suc n) xs r =
     (let (x, r') = choice xs r; (rest, r'') = choices_n n xs r' in (x # rest, r''))"

section \<open>Strings and lists of the assemblers\<close>

text \<open>\<^verbatim>\<open>", ".join(tokens)\<close>.\<close>

fun join :: "string list \<Rightarrow> string" where
  "join [] = []"
| "join [x] = x"
| "join (x # y # ys) = x @ '', '' @ join (y # ys)"

text \<open>The position of the first element that satisfies a test, as \<^verbatim>\<open>list.index\<close> and
  \<^verbatim>\<open>next(i for i, x in enumerate(xs) if ...)\<close> compute it; \<open>None\<close> where Python raises.\<close>

fun first_index :: "('a \<Rightarrow> bool) \<Rightarrow> 'a list \<Rightarrow> nat option" where
  "first_index P [] = None"
| "first_index P (x # xs) = (if P x then Some 0 else map_option Suc (first_index P xs))"

lemma shuffle_loop_mset:
  "i < length xs \<Longrightarrow> mset (fst (shuffle_loop i xs r)) = mset xs"
proof (induction i arbitrary: xs r)
  case 0
  then show ?case by simp
next
  case (Suc i)
  define j where "j = r 0 mod (Suc i + 1)"
  have j: "j < length xs"
  proof -
    have "j < Suc i + 1" unfolding j_def by (rule mod_less_divisor) simp
    then show ?thesis using Suc.prems by linarith
  qed
  have m: "mset (xs[Suc i := xs ! j, j := xs ! Suc i]) = mset xs"
    using Suc.prems j by (simp add: mset_swap)
  have "i < length (xs[Suc i := xs ! j, j := xs ! Suc i])"
    using Suc.prems by simp
  from Suc.IH [OF this, of "\<lambda>i. r (Suc i)"] m show ?case
    by (simp add: randbelow_def j_def)
qed

lemma shuffle_mset: "mset (fst (shuffle xs r)) = mset xs"
proof (cases xs)
  case Nil
  then show ?thesis by (simp add: shuffle_def)
next
  case (Cons a list)
  then show ?thesis by (simp add: shuffle_def shuffle_loop_mset)
qed

lemma shuffle_set: "set (fst (shuffle xs r)) = set xs"
  using shuffle_mset [of xs r] by (metis set_mset_mset)

lemma shuffle_length: "length (fst (shuffle xs r)) = length xs"
  using shuffle_mset [of xs r] by (metis size_mset)

lemma first_index_Some:
  "first_index P xs = Some i \<Longrightarrow> i < length xs \<and> P (xs ! i) \<and> (\<forall>j < i. \<not> P (xs ! j))"
proof (induction xs arbitrary: i)
  case Nil
  then show ?case by simp
next
  case (Cons x xs)
  show ?case
  proof (cases "P x")
    case True
    then show ?thesis using Cons.prems by simp
  next
    case False
    then obtain k where k: "first_index P xs = Some k" "i = Suc k"
      using Cons.prems by auto
    from Cons.IH [OF k(1)] False k(2) show ?thesis
      by (auto simp: nth_Cons split: nat.splits)
  qed
qed

lemma first_index_exists:
  "\<exists>x \<in> set xs. P x \<Longrightarrow> \<exists>i. first_index P xs = Some i"
  by (induction xs) auto

section \<open>The spatial distractor synthesizer and assembler\<close>

text \<open>
  The dataclass \<^verbatim>\<open>GridScenario\<close>. The field \<^verbatim>\<open>end\<close> is \<open>sp_goal\<close> here (\<open>end\<close> is a
  keyword of the theory language); the other fields carry the prefix \<open>sp_\<close> where the
  key-lock scenario has a field of the same name.
\<close>

record GridScenario =
  sp_grid_size :: int
  sp_start :: coord
  sp_goal :: coord
  sp_obstacles :: "coord set"
  shortest_path :: "coord list option"
  path_directions :: "string list option"

text \<open>The local state of \<^verbatim>\<open>generate_distractors\<close>: the list \<^verbatim>\<open>distractors\<close> and the set
  \<^verbatim>\<open>used\<close>, which the closure \<^verbatim>\<open>_try_add\<close> mutates.\<close>

type_synonym dstate = "string list \<times> string set"

text \<open>
  \<^verbatim>\<open>_try_add\<close> of the spatial generator. It calls the validator with the default
  \<^verbatim>\<open>grid_size=GRID_SIZE\<close>. No caller reads the boolean it returns, so the model returns the
  state only.
\<close>

definition spatial_try_add :: "GridScenario \<Rightarrow> string list \<Rightarrow> dstate \<Rightarrow> dstate" where
  "spatial_try_add scenario candidate_dirs st =
     (let candidate_str = join candidate_dirs in
      if candidate_str \<in> snd st then st
      else if \<not> is_path_physically_invalid (sp_start scenario) (sp_goal scenario)
                 (sp_obstacles scenario) candidate_dirs GRID_SIZE then st
      else (fst st @ [candidate_str], insert candidate_str (snd st)))"

text \<open>
  Strategy 1, one axis: \<^verbatim>\<open>while sr != er: naive_dirs.append("down" if er > sr else "up");
  sr += 1 if er > sr else -1\<close>, and the same loop for the columns with \<^verbatim>\<open>right\<close> and
  \<^verbatim>\<open>left\<close>.
\<close>

function naive_axis :: "string \<Rightarrow> string \<Rightarrow> int \<Rightarrow> int \<Rightarrow> string list" where
  "naive_axis forward backward s e =
     (if s \<noteq> e then (if e > s then forward else backward) #
                      naive_axis forward backward (s + (if e > s then 1 else -1)) e
      else [])"
  by pat_completeness auto
termination
  by (relation "measure (\<lambda>(f, b, s, e). nat \<bar>e - s\<bar>)") auto

definition all_dir_names :: "string list" where
  "all_dir_names = [''up'', ''down'', ''left'', ''right'']"

text \<open>Strategy 2: \<^verbatim>\<open>for _ in range(50)\<close>, with the \<^verbatim>\<open>break\<close> once enough were found.\<close>

fun spatial_random_walks ::
  "nat \<Rightarrow> GridScenario \<Rightarrow> string list \<Rightarrow> nat \<Rightarrow> dstate \<Rightarrow> rng \<Rightarrow> dstate \<times> rng" where
  "spatial_random_walks 0 scenario correct num_distractors st r = (st, r)"
| "spatial_random_walks (Suc n) scenario correct num_distractors st r =
     (if length (fst st) \<ge> num_distractors then (st, r)
      else
        (let (rand_path, r') = choices_n (length correct) all_dir_names r in
         spatial_random_walks n scenario correct num_distractors
           (spatial_try_add scenario rand_path st) r'))"

text \<open>Strategy 3 flips the reversed path through the dictionary \<^verbatim>\<open>opposite\<close>.\<close>

definition opposite :: "string \<rightharpoonup> string" where
  "opposite = map_of [(''up'', ''down''), (''down'', ''up''), (''left'', ''right''), (''right'', ''left'')]"

text \<open>Strategy 4: \<^verbatim>\<open>for _ in range(20)\<close>; \<^verbatim>\<open>mutated[idx] = rng.choice(all_dir_names)\<close> with
  \<^verbatim>\<open>idx = rng.randint(0, len(mutated) - 1)\<close>, which is inside the list.\<close>

fun spatial_mutations ::
  "nat \<Rightarrow> GridScenario \<Rightarrow> string list \<Rightarrow> nat \<Rightarrow> dstate \<Rightarrow> rng \<Rightarrow> dstate \<times> rng" where
  "spatial_mutations 0 scenario correct num_distractors st r = (st, r)"
| "spatial_mutations (Suc n) scenario correct num_distractors st r =
     (if length (fst st) \<ge> num_distractors then (st, r)
      else
        (let (idx, r1) = randint 0 (int (length correct) - 1) r;
             (d, r2) = choice all_dir_names r1;
             mutated = correct[nat idx := d]
         in spatial_mutations n scenario correct num_distractors
              (spatial_try_add scenario mutated st) r2))"

definition spatial_generate_distractors ::
  "GridScenario \<Rightarrow> rng \<Rightarrow> nat \<Rightarrow> py_error + (string list \<times> rng)" where
  "spatial_generate_distractors scenario r num_distractors =
     (case path_directions scenario of
        None \<Rightarrow> Inr ([], r)
      | Some correct \<Rightarrow>
          if correct = [] then Inr ([], r)
          else
            (let st0 = ([], {join correct});
                 naive_dirs =
                   naive_axis ''down'' ''up'' (fst (sp_start scenario)) (fst (sp_goal scenario)) @
                   naive_axis ''right'' ''left'' (snd (sp_start scenario)) (snd (sp_goal scenario));
                 st1 = spatial_try_add scenario naive_dirs st0;
                 (st2, r2) = spatial_random_walks 50 scenario correct num_distractors st1 r
             in err_bind
                  (if length (fst st2) < num_distractors then
                     (case those (map opposite (rev correct)) of
                        None \<Rightarrow> Inl KeyError
                      | Some rev_flipped \<Rightarrow> Inr (spatial_try_add scenario rev_flipped st2))
                   else Inr st2)
                  (\<lambda>st3.
                     let (st4, r4) =
                           (if length (fst st3) < num_distractors \<and> length correct \<ge> 2
                            then spatial_mutations 20 scenario correct num_distractors st3 r2
                            else (st3, r2))
                     in Inr (take num_distractors (fst st4), r4))))"

text \<open>
  The records the generators emit. All of them have \<^verbatim>\<open>query\<close>, \<^verbatim>\<open>choices\<close> and
  \<^verbatim>\<open>gold\<close>; the spatial and key-lock documents add \<^verbatim>\<open>doc_id\<close>, and the spatial document
  a \<^verbatim>\<open>metadata\<close> dictionary, of which the fingerprint and the path length are kept (the
  other entries repeat fields of the scenario as labels).
\<close>

record mc_item =
  query :: string
  choices :: "string list"
  gold :: nat

record eval_doc = mc_item +
  doc_id :: nat

record spatial_doc = eval_doc +
  fingerprint :: string
  shortest_path_length :: int

text \<open>
  \<^verbatim>\<open>scenario_to_eval_doc\<close> of the spatial generator. Prompt rendering is string formatting
  that no claim reads, and SHA-256 is the standard library's: \<open>render_prompt\<close> and
  \<open>sha256_hex\<close> are parameters. \<^verbatim>\<open>list(enumerate(choices))\<close> is the list of pairs of
  position and choice.
\<close>

definition spatial_scenario_to_eval_doc ::
  "(GridScenario \<Rightarrow> string) \<Rightarrow> (string \<Rightarrow> string) \<Rightarrow> GridScenario \<Rightarrow> rng \<Rightarrow> nat \<Rightarrow>
   py_error + (spatial_doc \<times> rng)" where
  "spatial_scenario_to_eval_doc render_prompt sha256_hex scenario r did =
     (let prompt = render_prompt scenario in
      case path_directions scenario of
        None \<Rightarrow> Inl TypeError
      | Some pd \<Rightarrow>
          (let correct_answer = join pd in
           err_bind (spatial_generate_distractors scenario r 3) (\<lambda>(distractors, r1).
             let choices0 = correct_answer # distractors;
                 answer_pairs = zip [0..<length choices0] choices0;
                 (shuffled_pairs, r2) = shuffle answer_pairs r1
             in case first_index (\<lambda>(orig_i, c). orig_i = 0) shuffled_pairs of
                  None \<Rightarrow> Inl StopIteration
                | Some gold_idx \<Rightarrow>
                    (let shuffled_choices = map snd shuffled_pairs;
                         fp = take 12 (sha256_hex prompt)
                     in case shortest_path scenario of
                          None \<Rightarrow> Inl TypeError
                        | Some sp \<Rightarrow>
                            Inr (\<lparr>query = prompt, choices = shuffled_choices, gold = gold_idx,
                                  doc_id = did, fingerprint = fp,
                                  shortest_path_length = int (length sp) - 1\<rparr>, r2)))))"

section \<open>The key-lock distractor synthesizer and assembler\<close>

text \<open>
  The dataclass \<^verbatim>\<open>KeyLockScenario\<close>. \<^verbatim>\<open>keys\<close> and \<^verbatim>\<open>doors\<close> are dictionaries from
  positions to colours, in insertion order. The field \<^verbatim>\<open>end\<close> is \<open>kl_goal\<close>.
\<close>

record KeyLockScenario =
  kl_grid_size :: int
  kl_start :: coord
  kl_goal :: coord
  kl_obstacles :: "coord set"
  kl_keys :: "(coord \<times> string) list"
  kl_doors :: "(coord \<times> string) list"
  solution_actions :: "string list option"
  solution_path :: "coord list option"

definition keylock_try_add :: "KeyLockScenario \<Rightarrow> string list \<Rightarrow> dstate \<Rightarrow> dstate" where
  "keylock_try_add scenario candidate_actions st =
     (let s = join candidate_actions in
      if s \<in> snd st then st
      else if \<not> is_action_seq_invalid (kl_start scenario) (kl_goal scenario)
                 (kl_obstacles scenario) (map_of (kl_keys scenario)) (map_of (kl_doors scenario))
                 candidate_actions GRID_SIZE then st
      else (fst st @ [s], insert s (snd st)))"

text \<open>Strategy 3 swaps the colour of every pick-up and unlock token.\<close>

definition other_color :: "string \<Rightarrow> string" where
  "other_color color = (if color = ''red'' then ''blue'' else ''red'')"

definition swap_colors :: "string list \<Rightarrow> string list" where
  "swap_colors correct =
     map (\<lambda>a. if startswith a ''pick_up_'' then ''pick_up_'' @ other_color (drop (length ''pick_up_'') a)
              else if startswith a ''unlock_'' then ''unlock_'' @ other_color (drop (length ''unlock_'') a)
              else a) correct"

text \<open>
  Strategy 4: \<^verbatim>\<open>for _ in range(MAX_ATTEMPTS)\<close>. \<^verbatim>\<open>rng.choice(move_indices)\<close> runs only when
  the list is non-empty; \<^verbatim>\<open>directions.remove(mutated[idx])\<close> removes a direction that is in
  the list, since \<^verbatim>\<open>idx\<close> is the index of a direction token, and leaves three.
\<close>

fun keylock_mutations ::
  "nat \<Rightarrow> KeyLockScenario \<Rightarrow> string list \<Rightarrow> nat \<Rightarrow> dstate \<Rightarrow> rng \<Rightarrow> dstate \<times> rng" where
  "keylock_mutations 0 scenario correct num_distractors st r = (st, r)"
| "keylock_mutations (Suc n) scenario correct num_distractors st r =
     (if length (fst st) \<ge> num_distractors then (st, r)
      else
        (let move_indices = filter (\<lambda>i. DIR_VECTORS (correct ! i) \<noteq> None) [0..<length correct] in
         if move_indices \<noteq> [] then
           (let (idx, r1) = choice move_indices r;
                directions = remove1 (correct ! idx) [''up'', ''down'', ''left'', ''right''];
                (d, r2) = choice directions r1;
                mutated = correct[idx := d]
            in keylock_mutations n scenario correct num_distractors
                 (keylock_try_add scenario mutated st) r2)
         else keylock_mutations n scenario correct num_distractors st r))"

text \<open>
  \<^verbatim>\<open>rng.random() < p\<close> for \<open>p\<close> given in hundredths: the floating-point draw enters only
  through the outcome of the comparison, which is modelled as a draw below 100.
\<close>

definition random_lt_percent :: "nat \<Rightarrow> rng \<Rightarrow> bool \<times> rng" where
  "random_lt_percent p r = (let (j, r') = randbelow 100 r in (j < p, r'))"

text \<open>
  Strategy 5, the inner \<^verbatim>\<open>for _ in range(length)\<close>. The first \<^verbatim>\<open>rng.random()\<close> is always
  drawn; the second only when the first branch is not taken. \<^verbatim>\<open>rng.choice\<close> is applied to
  the dictionary's values only when the dictionary is non-empty.
\<close>

fun random_actions_loop :: "nat \<Rightarrow> KeyLockScenario \<Rightarrow> rng \<Rightarrow> string list \<times> rng" where
  "random_actions_loop 0 scenario r = ([], r)"
| "random_actions_loop (Suc n) scenario r =
     (let (b1, r1) = random_lt_percent 15 r;
          (a, r') =
            (if b1 \<and> kl_keys scenario \<noteq> [] then
               (let (color, r2) = choice (map snd (kl_keys scenario)) r1 in (''pick_up_'' @ color, r2))
             else
               (let (b2, r2) = random_lt_percent 10 r1 in
                if b2 \<and> kl_doors scenario \<noteq> [] then
                  (let (color, r3) = choice (map snd (kl_doors scenario)) r2 in (''unlock_'' @ color, r3))
                else choice [''up'', ''down'', ''left'', ''right''] r2));
          (rest, r'') = random_actions_loop n scenario r'
      in (a # rest, r''))"

fun keylock_random_walks ::
  "nat \<Rightarrow> KeyLockScenario \<Rightarrow> string list \<Rightarrow> nat \<Rightarrow> dstate \<Rightarrow> rng \<Rightarrow> dstate \<times> rng" where
  "keylock_random_walks 0 scenario correct num_distractors st r = (st, r)"
| "keylock_random_walks (Suc n) scenario correct num_distractors st r =
     (if length (fst st) \<ge> num_distractors then (st, r)
      else
        (let (k, r1) = randint (-2) 2 r;
             len = max 3 (int (length correct) - 1 + k);
             (random_actions, r2) = random_actions_loop (nat len) scenario r1
         in keylock_random_walks n scenario correct num_distractors
              (keylock_try_add scenario random_actions st) r2))"

definition keylock_generate_distractors ::
  "KeyLockScenario \<Rightarrow> rng \<Rightarrow> nat \<Rightarrow> string list \<times> rng" where
  "keylock_generate_distractors scenario r num_distractors =
     (case solution_actions scenario of
        None \<Rightarrow> ([], r)
      | Some correct \<Rightarrow>
          if correct = [] then ([], r)
          else
            (let st0 = ([], {join correct});
                 no_pickup = filter (\<lambda>a. \<not> startswith a ''pick_up_'') correct;
                 st1 = keylock_try_add scenario no_pickup st0;
                 no_unlock = filter (\<lambda>a. \<not> startswith a ''unlock_'') correct;
                 st2 = keylock_try_add scenario no_unlock st1;
                 st3 = (if length (kl_keys scenario) > 0
                        then keylock_try_add scenario (swap_colors correct) st2 else st2);
                 (st4, r4) = keylock_mutations 100 scenario correct num_distractors st3 r;
                 (st5, r5) = keylock_random_walks 100 scenario correct num_distractors st4 r4
             in (take num_distractors (fst st5), r5)))"

text \<open>
  \<^verbatim>\<open>scenario_to_eval_doc\<close> of the key-lock generator: \<open>None\<close> when fewer than three
  distractors were found. The generator state has advanced either way. \<open>render_prompt\<close> is
  a parameter, as in the spatial assembler.
\<close>

definition keylock_scenario_to_eval_doc ::
  "(KeyLockScenario \<Rightarrow> string) \<Rightarrow> KeyLockScenario \<Rightarrow> rng \<Rightarrow> nat \<Rightarrow>
   py_error + (eval_doc option \<times> rng)" where
  "keylock_scenario_to_eval_doc render_prompt scenario r did =
     (let (distractors, r1) = keylock_generate_distractors scenario r 3 in
      if length distractors < 3 then Inr (None, r1)
      else
        (case solution_actions scenario of
           None \<Rightarrow> Inl TypeError
         | Some correct \<Rightarrow>
             (let correct_str = join correct;
                  choices0 = take 3 distractors @ [correct_str];
                  gold_idx = 3;
                  (order, r2) = shuffle [0..<4] r1;
                  shuffled_choices = map (\<lambda>i. choices0 ! i) order
              in case first_index (\<lambda>i. i = gold_idx) order of
                   None \<Rightarrow> Inl ValueError
                 | Some shuffled_gold \<Rightarrow>
                     Inr (Some \<lparr>query = render_prompt scenario, choices = shuffled_choices,
                                gold = shuffled_gold, doc_id = did\<rparr>, r2))))"

section \<open>What the synthesizers keep\<close>

text \<open>
  The invariant of the synthesizer state, for a validator \<open>bad\<close> and the canonical string
  \<open>cs\<close>: the canonical string is in \<^verbatim>\<open>used\<close> and is no distractor, the distractors are
  distinct members of \<^verbatim>\<open>used\<close>, and each is the rendering of a candidate the validator
  rejected.
\<close>

definition dinv :: "(string list \<Rightarrow> bool) \<Rightarrow> string \<Rightarrow> dstate \<Rightarrow> bool" where
  "dinv bad cs st =
     (cs \<in> snd st \<and> set (fst st) \<subseteq> snd st \<and> cs \<notin> set (fst st) \<and> distinct (fst st) \<and>
      (\<forall>s \<in> set (fst st). \<exists>c. s = join c \<and> bad c))"

lemma dinv_init: "dinv bad cs ([], {cs})"
  by (simp add: dinv_def)

lemma spatial_try_add_dinv:
  "dinv (\<lambda>c. is_path_physically_invalid (sp_start sc) (sp_goal sc) (sp_obstacles sc) c GRID_SIZE) cs st \<Longrightarrow>
   dinv (\<lambda>c. is_path_physically_invalid (sp_start sc) (sp_goal sc) (sp_obstacles sc) c GRID_SIZE) cs
     (spatial_try_add sc cand st)"
  unfolding dinv_def spatial_try_add_def Let_def by auto

lemma keylock_try_add_dinv:
  "dinv (\<lambda>c. is_action_seq_invalid (kl_start sc) (kl_goal sc) (kl_obstacles sc)
            (map_of (kl_keys sc)) (map_of (kl_doors sc)) c GRID_SIZE) cs st \<Longrightarrow>
   dinv (\<lambda>c. is_action_seq_invalid (kl_start sc) (kl_goal sc) (kl_obstacles sc)
            (map_of (kl_keys sc)) (map_of (kl_doors sc)) c GRID_SIZE) cs
     (keylock_try_add sc cand st)"
  unfolding dinv_def keylock_try_add_def Let_def by auto

lemma spatial_random_walks_dinv:
  "dinv (\<lambda>c. is_path_physically_invalid (sp_start sc) (sp_goal sc) (sp_obstacles sc) c GRID_SIZE) cs st \<Longrightarrow>
   dinv (\<lambda>c. is_path_physically_invalid (sp_start sc) (sp_goal sc) (sp_obstacles sc) c GRID_SIZE) cs
     (fst (spatial_random_walks n sc correct num st r))"
proof (induction n arbitrary: st r)
  case 0
  then show ?case by simp
next
  case (Suc n)
  show ?case
    using Suc.prems Suc.IH [OF spatial_try_add_dinv [OF Suc.prems]]
    by (simp add: Let_def split: prod.splits)
qed

lemma spatial_mutations_dinv:
  "dinv (\<lambda>c. is_path_physically_invalid (sp_start sc) (sp_goal sc) (sp_obstacles sc) c GRID_SIZE) cs st \<Longrightarrow>
   dinv (\<lambda>c. is_path_physically_invalid (sp_start sc) (sp_goal sc) (sp_obstacles sc) c GRID_SIZE) cs
     (fst (spatial_mutations n sc correct num st r))"
proof (induction n arbitrary: st r)
  case 0
  then show ?case by simp
next
  case (Suc n)
  show ?case
    using Suc.prems Suc.IH [OF spatial_try_add_dinv [OF Suc.prems]]
    by (simp add: Let_def split: prod.splits)
qed

lemma dinv_take:
  "dinv bad cs st \<Longrightarrow>
   cs \<notin> set (take n (fst st)) \<and> distinct (take n (fst st)) \<and>
   (\<forall>s \<in> set (take n (fst st)). \<exists>c. s = join c \<and> bad c)"
  unfolding dinv_def by (auto dest: in_set_takeD)

lemma spatial_generate_distractors_sound:
  assumes "spatial_generate_distractors sc r num = Inr (ds, r')" "path_directions sc = Some pd"
  shows "join pd \<notin> set ds \<and> distinct ds \<and>
     (\<forall>s \<in> set ds. \<exists>c. s = join c \<and>
        is_path_physically_invalid (sp_start sc) (sp_goal sc) (sp_obstacles sc) c GRID_SIZE)"
proof (cases "pd = []")
  case True
  then show ?thesis using assms by (simp add: spatial_generate_distractors_def)
next
  case False
  let ?bad = "\<lambda>c. is_path_physically_invalid (sp_start sc) (sp_goal sc) (sp_obstacles sc) c GRID_SIZE"
  let ?naive = "naive_axis ''down'' ''up'' (fst (sp_start sc)) (fst (sp_goal sc)) @
                   naive_axis ''right'' ''left'' (snd (sp_start sc)) (snd (sp_goal sc))"
  let ?st1 = "spatial_try_add sc ?naive ([], {join pd})"
  obtain st2 r2 where w: "spatial_random_walks 50 sc pd num ?st1 r = (st2, r2)"
    by (cases "spatial_random_walks 50 sc pd num ?st1 r")
  have i1: "dinv ?bad (join pd) ?st1"
    by (rule spatial_try_add_dinv [OF dinv_init])
  have i2: "dinv ?bad (join pd) st2"
    using spatial_random_walks_dinv [OF i1, of 50 pd num r] w by simp
  from assms False w obtain st3 where
    st3: "(if length (fst st2) < num then
                     (case those (map opposite (rev pd)) of
                        None \<Rightarrow> Inl KeyError
                      | Some rev_flipped \<Rightarrow> Inr (spatial_try_add sc rev_flipped st2))
                   else Inr st2) = Inr st3"
    and res: "(let (st4, r4) =
                           (if length (fst st3) < num \<and> length pd \<ge> 2
                            then spatial_mutations 20 sc pd num st3 r2
                            else (st3, r2))
                     in Inr (take num (fst st4), r4)) = (Inr (ds, r') :: py_error + (string list \<times> rng))"
    by (auto simp: spatial_generate_distractors_def Let_def err_bind_def split: sum.splits)
  have i3: "dinv ?bad (join pd) st3"
    using st3 i2 spatial_try_add_dinv [OF i2]
    by (auto split: if_splits option.splits)
  obtain st4 r4 where m: "(if length (fst st3) < num \<and> length pd \<ge> 2
                            then spatial_mutations 20 sc pd num st3 r2
                            else (st3, r2)) = (st4, r4)"
    by (cases "(if length (fst st3) < num \<and> length pd \<ge> 2
                            then spatial_mutations 20 sc pd num st3 r2
                            else (st3, r2))")
  have i4: "dinv ?bad (join pd) st4"
    using m i3 spatial_mutations_dinv [OF i3, of 20 pd num r2]
    by (auto split: if_splits)
  have "ds = take num (fst st4)"
    using res m by simp
  then show ?thesis using dinv_take [OF i4, of num] by simp
qed


lemma keylock_mutations_dinv:
  "dinv (\<lambda>c. is_action_seq_invalid (kl_start sc) (kl_goal sc) (kl_obstacles sc)
            (map_of (kl_keys sc)) (map_of (kl_doors sc)) c GRID_SIZE) cs st \<Longrightarrow>
   dinv (\<lambda>c. is_action_seq_invalid (kl_start sc) (kl_goal sc) (kl_obstacles sc)
            (map_of (kl_keys sc)) (map_of (kl_doors sc)) c GRID_SIZE) cs
     (fst (keylock_mutations n sc correct num st r))"
proof (induction n arbitrary: st r)
  case 0
  then show ?case by simp
next
  case (Suc n)
  show ?case
    using Suc.prems Suc.IH [OF Suc.prems] Suc.IH [OF keylock_try_add_dinv [OF Suc.prems]]
    by (simp add: Let_def split: prod.splits)
qed

lemma keylock_random_walks_dinv:
  "dinv (\<lambda>c. is_action_seq_invalid (kl_start sc) (kl_goal sc) (kl_obstacles sc)
            (map_of (kl_keys sc)) (map_of (kl_doors sc)) c GRID_SIZE) cs st \<Longrightarrow>
   dinv (\<lambda>c. is_action_seq_invalid (kl_start sc) (kl_goal sc) (kl_obstacles sc)
            (map_of (kl_keys sc)) (map_of (kl_doors sc)) c GRID_SIZE) cs
     (fst (keylock_random_walks n sc correct num st r))"
proof (induction n arbitrary: st r)
  case 0
  then show ?case by simp
next
  case (Suc n)
  show ?case
    using Suc.prems Suc.IH [OF keylock_try_add_dinv [OF Suc.prems]]
    by (simp add: Let_def split: prod.splits)
qed

lemma keylock_generate_distractors_sound:
  assumes "keylock_generate_distractors sc r num = (ds, r')" "solution_actions sc = Some correct"
  shows "join correct \<notin> set ds \<and> distinct ds \<and>
     (\<forall>s \<in> set ds. \<exists>c. s = join c \<and>
        is_action_seq_invalid (kl_start sc) (kl_goal sc) (kl_obstacles sc)
            (map_of (kl_keys sc)) (map_of (kl_doors sc)) c GRID_SIZE)"
proof (cases "correct = []")
  case True
  then show ?thesis using assms by (simp add: keylock_generate_distractors_def)
next
  case False
  let ?bad = "\<lambda>c. is_action_seq_invalid (kl_start sc) (kl_goal sc) (kl_obstacles sc)
            (map_of (kl_keys sc)) (map_of (kl_doors sc)) c GRID_SIZE"
  let ?st1 = "keylock_try_add sc (filter (\<lambda>a. \<not> startswith a ''pick_up_'') correct) ([], {join correct})"
  let ?st2 = "keylock_try_add sc (filter (\<lambda>a. \<not> startswith a ''unlock_'') correct) ?st1"
  let ?st3 = "if length (kl_keys sc) > 0 then keylock_try_add sc (swap_colors correct) ?st2 else ?st2"
  have i1: "dinv ?bad (join correct) ?st1"
    by (rule keylock_try_add_dinv [OF dinv_init])
  have i2: "dinv ?bad (join correct) ?st2"
    by (rule keylock_try_add_dinv [OF i1])
  have i3: "dinv ?bad (join correct) ?st3"
  proof (cases "length (kl_keys sc) > 0")
    case True
    then show ?thesis using keylock_try_add_dinv [OF i2] by (simp only: if_True)
  next
    case False
    then show ?thesis using i2 by (simp only: if_False)
  qed
  obtain st4 r4 where m: "keylock_mutations 100 sc correct num ?st3 r = (st4, r4)"
    by (cases "keylock_mutations 100 sc correct num ?st3 r")
  obtain st5 r5 where w: "keylock_random_walks 100 sc correct num st4 r4 = (st5, r5)"
    by (cases "keylock_random_walks 100 sc correct num st4 r4")
  have i4: "dinv ?bad (join correct) st4"
    using keylock_mutations_dinv [OF i3, of 100 correct num r] m by simp
  have i5: "dinv ?bad (join correct) st5"
    using keylock_random_walks_dinv [OF i4, of 100 correct num r4] w by simp
  have "ds = take num (fst st5)"
    using assms False m w by (simp add: keylock_generate_distractors_def Let_def)
  then show ?thesis using dinv_take [OF i5, of num] by simp
qed

text \<open>Shuffled enumerations.\<close>

lemma perm_of_upt_distinct:
  assumes "mset order = mset [0..<n]"
  shows "distinct order" and "set order = {0..<n}" and "length order = n"
proof -
  show "distinct order"
    using assms by (metis distinct_upt mset_eq_imp_distinct_iff)
  show "set order = {0..<n}"
    using assms by (metis atLeastLessThan_upt mset_eq_setD)
  show "length order = n"
    using assms by (metis length_upt mset_eq_length minus_nat.diff_0)
qed

lemma first_index_unique:
  assumes "distinct xs" "first_index (\<lambda>x. x = a) xs = Some g" "i < length xs" "i \<noteq> g"
  shows "xs ! i \<noteq> a"
proof
  assume "xs ! i = a"
  moreover have "g < length xs" "xs ! g = a"
    using first_index_Some [OF assms(2)] by auto
  ultimately show False
    using assms(3,4) nth_eq_iff_index_eq [OF assms(1), of i g] by simp
qed

lemma shuffled_pairs_facts:
  assumes "mset sp = mset (zip [0..<length xs] xs)"
  shows "mset (map fst sp) = mset [0..<length xs]" and "mset (map snd sp) = mset xs"
    and "\<forall>i < length sp. snd (sp ! i) = xs ! fst (sp ! i) \<and> fst (sp ! i) < length xs"
proof -
  have "mset (map fst sp) = mset (map fst (zip [0..<length xs] xs))"
    using assms by (metis mset_map)
  then show "mset (map fst sp) = mset [0..<length xs]" by simp
  have "mset (map snd sp) = mset (map snd (zip [0..<length xs] xs))"
    using assms by (metis mset_map)
  then show "mset (map snd sp) = mset xs" by simp
  show "\<forall>i < length sp. snd (sp ! i) = xs ! fst (sp ! i) \<and> fst (sp ! i) < length xs"
  proof (intro allI impI)
    fix i assume "i < length sp"
    then have "sp ! i \<in> set sp" by simp
    also have "set sp = set (zip [0..<length xs] xs)"
      using assms by (rule mset_eq_setD)
    finally obtain k where "k < length xs" "sp ! i = (k, xs ! k)"
      by (auto simp: set_zip)
    then show "snd (sp ! i) = xs ! fst (sp ! i) \<and> fst (sp ! i) < length xs" by simp
  qed
qed


lemma spatial_doc_structure:
  assumes "spatial_scenario_to_eval_doc rp sha sc r did = Inr (doc, r')"
  shows "\<exists>pd ds r1 sp. path_directions sc = Some pd \<and>
     spatial_generate_distractors sc r 3 = Inr (ds, r1) \<and>
     mset sp = mset (zip [0..<length (join pd # ds)] (join pd # ds)) \<and>
     choices doc = map snd sp \<and>
     first_index (\<lambda>(orig_i, c). orig_i = 0) sp = Some (gold doc)"
proof -
  obtain pd where pd: "path_directions sc = Some pd"
    using assms by (auto simp: spatial_scenario_to_eval_doc_def Let_def split: option.splits)
  obtain ds r1 where g: "spatial_generate_distractors sc r 3 = Inr (ds, r1)"
    using assms pd
    by (auto simp: spatial_scenario_to_eval_doc_def Let_def err_bind_def split: sum.splits)
  let ?pairs = "zip [0..<length (join pd # ds)] (join pd # ds)"
  obtain sp r2 where sh: "shuffle ?pairs r1 = (sp, r2)"
    by (cases "shuffle ?pairs r1")
  have m: "mset sp = mset ?pairs"
    using shuffle_mset [of ?pairs r1] sh by simp
  have "choices doc = map snd sp \<and> first_index (\<lambda>(orig_i, c). orig_i = 0) sp = Some (gold doc)"
    using assms pd g sh
    by (auto simp: spatial_scenario_to_eval_doc_def Let_def err_bind_def
        split: option.splits simp del: upt_Suc)
  then show ?thesis using pd g m by blast
qed

lemma spatial_doc_choices:
  assumes "spatial_scenario_to_eval_doc rp sha sc r did = Inr (doc, r')"
  shows "\<exists>pd ds r1. path_directions sc = Some pd \<and>
     spatial_generate_distractors sc r 3 = Inr (ds, r1) \<and>
     mset (choices doc) = mset (join pd # ds) \<and>
     gold doc < length (choices doc) \<and> choices doc ! gold doc = join pd \<and>
     (\<forall>i < length (choices doc). i \<noteq> gold doc \<longrightarrow> choices doc ! i \<in> set ds)"
proof -
  from spatial_doc_structure [OF assms] obtain pd ds r1 sp where
    pd: "path_directions sc = Some pd" and g: "spatial_generate_distractors sc r 3 = Inr (ds, r1)"
    and m: "mset sp = mset (zip [0..<length (join pd # ds)] (join pd # ds))"
    and c: "choices doc = map snd sp"
    and f: "first_index (\<lambda>(orig_i, c). orig_i = 0) sp = Some (gold doc)"
    by blast
  note facts = shuffled_pairs_facts [OF m]
  have gl: "gold doc < length sp" and g0: "fst (sp ! gold doc) = 0"
    using first_index_Some [OF f] by (auto split: prod.splits)
  have d: "distinct (map fst sp)"
    using perm_of_upt_distinct(1) [OF facts(1)] .
  have a: "choices doc ! gold doc = join pd"
    using facts(3) gl g0 c by simp
  have b: "\<forall>i < length (choices doc). i \<noteq> gold doc \<longrightarrow> choices doc ! i \<in> set ds"
  proof (intro allI impI)
    fix i assume i: "i < length (choices doc)" "i \<noteq> gold doc"
    then have il: "i < length sp" using c by simp
    have "fst (sp ! i) \<noteq> fst (sp ! gold doc)"
      using d il gl i(2) nth_eq_iff_index_eq [OF d, of i "gold doc"] by simp
    then have nz: "fst (sp ! i) \<noteq> 0" using g0 by simp
    have "snd (sp ! i) = (join pd # ds) ! fst (sp ! i)" "fst (sp ! i) < length (join pd # ds)"
      using facts(3) il by auto
    then have "snd (sp ! i) \<in> set ds"
      using nz by (cases "fst (sp ! i)") auto
    then show "choices doc ! i \<in> set ds" using c il by simp
  qed
  show ?thesis using pd g facts(2) c gl a b by auto
qed

lemma keylock_doc_choices:
  assumes "keylock_scenario_to_eval_doc rp sc r did = Inr (Some doc, r')"
  shows "\<exists>correct ds r1. solution_actions sc = Some correct \<and>
     keylock_generate_distractors sc r 3 = (ds, r1) \<and> length ds \<ge> 3 \<and>
     mset (choices doc) = mset (take 3 ds @ [join correct]) \<and>
     gold doc < length (choices doc) \<and> choices doc ! gold doc = join correct \<and>
     (\<forall>i < length (choices doc). i \<noteq> gold doc \<longrightarrow> choices doc ! i \<in> set ds)"
proof -
  obtain ds r1 where g: "keylock_generate_distractors sc r 3 = (ds, r1)"
    by (cases "keylock_generate_distractors sc r 3")
  have l: "length ds \<ge> 3"
    using assms g by (auto simp: keylock_scenario_to_eval_doc_def Let_def split: if_splits)
  obtain correct where co: "solution_actions sc = Some correct"
    using assms g l
    by (auto simp: keylock_scenario_to_eval_doc_def Let_def split: if_splits option.splits)
  let ?ch = "take 3 ds @ [join correct]"
  obtain order r2 where sh: "shuffle [0..<4] r1 = (order, r2)"
    by (cases "shuffle [0..<4::nat] r1")
  have m: "mset order = mset [0..<4]"
    using shuffle_mset [of "[0..<4]" r1] sh by simp
  note p = perm_of_upt_distinct [OF m]
  have c: "choices doc = map (\<lambda>i. ?ch ! i) order"
    and f: "first_index (\<lambda>i. i = 3) order = Some (gold doc)"
    using assms g l co sh
    by (auto simp: keylock_scenario_to_eval_doc_def Let_def split: if_splits option.splits
        simp del: upt_Suc)
  have len: "length ?ch = 4" using l by simp
  have "mset (choices doc) = image_mset (\<lambda>i. ?ch ! i) (mset order)"
    using c by simp
  also have "\<dots> = mset (map (\<lambda>i. ?ch ! i) [0..<length ?ch])"
    using m len by simp
  also have "\<dots> = mset ?ch"
    by (simp only: map_nth)
  finally have ms: "mset (choices doc) = mset ?ch" .
  have gl: "gold doc < length order" and g3: "order ! gold doc = 3"
    using first_index_Some [OF f] by auto
  have a: "choices doc ! gold doc = join correct"
    using c gl g3 l by (simp add: nth_append)
  have b: "\<forall>i < length (choices doc). i \<noteq> gold doc \<longrightarrow> choices doc ! i \<in> set ds"
  proof (intro allI impI)
    fix i assume i: "i < length (choices doc)" "i \<noteq> gold doc"
    then have il: "i < length order" using c by simp
    have n3: "order ! i \<noteq> 3"
      using first_index_unique [OF p(1) f il i(2)] .
    have "order ! i \<in> set order" using il by simp
    then have "order ! i < 4" using p(2) by simp
    then have lt: "order ! i < 3" using n3 by simp
    then have "?ch ! (order ! i) = take 3 ds ! (order ! i)"
      using l by (simp add: nth_append)
    also have "\<dots> \<in> set (take 3 ds)"
      using lt l by (intro nth_mem) simp
    finally have "?ch ! (order ! i) \<in> set ds"
      by (rule in_set_takeD)
    then show "choices doc ! i \<in> set ds" using c il by simp
  qed
  show ?thesis using co g l ms c gl a b by auto
qed


text \<open>Two concrete instances and draw sequences, used to exercise the theorems below.\<close>

definition example_grid_scenario :: GridScenario where
  "example_grid_scenario =
     \<lparr>sp_grid_size = 5, sp_start = (0, 0), sp_goal = (0, 2),
      sp_obstacles = {(1, 1), (2, 2), (3, 3)},
      shortest_path = Some [(0, 0), (0, 1), (0, 2)],
      path_directions = Some [''right'', ''right'']\<rparr>"

definition example_keylock_scenario :: KeyLockScenario where
  "example_keylock_scenario =
     \<lparr>kl_grid_size = 5, kl_start = (0, 0), kl_goal = (0, 3), kl_obstacles = {(3, 3), (4, 4)},
      kl_keys = [((0, 1), ''red'')], kl_doors = [((0, 2), ''red'')],
      solution_actions = Some [''right'', ''pick_up_red'', ''unlock_red'', ''right'', ''right''],
      solution_path = Some [(0, 0), (0, 1), (0, 1), (0, 2), (0, 3)]\<rparr>"

lemma example_grid_doc:
  "\<exists>r'. spatial_scenario_to_eval_doc (\<lambda>sc. ''prompt'') (\<lambda>s. s) example_grid_scenario
          (periodic [1, 1, 0, 0, 2, 2, 1, 0, 0]) 7 =
        Inr (\<lparr>query = ''prompt'',
              choices = [''left, left'', ''up, up'', ''right, right'', ''down, down''],
              gold = 2, doc_id = 7, fingerprint = ''prompt'', shortest_path_length = 2\<rparr>, r')"
proof -
  have "case spatial_scenario_to_eval_doc (\<lambda>sc. ''prompt'') (\<lambda>s. s) example_grid_scenario
          (periodic [1, 1, 0, 0, 2, 2, 1, 0, 0]) 7 of
          Inl e \<Rightarrow> False
        | Inr (d, r') \<Rightarrow> d = \<lparr>query = ''prompt'',
              choices = [''left, left'', ''up, up'', ''right, right'', ''down, down''],
              gold = 2, doc_id = 7, fingerprint = ''prompt'', shortest_path_length = 2\<rparr>"
    by code_simp
  then show ?thesis by (auto split: sum.splits)
qed

lemma example_keylock_doc:
  "\<exists>r'. keylock_scenario_to_eval_doc (\<lambda>sc. ''prompt'') example_keylock_scenario
          (periodic [0, 1, 2, 3, 1, 0, 1]) 7 =
        Inr (Some \<lparr>query = ''prompt'',
              choices = [''right, pick_up_red, unlock_red, right, right'',
                         ''right, pick_up_blue, unlock_blue, right, right'',
                         ''right, unlock_red, right, right'',
                         ''down, pick_up_red, unlock_red, right, right''],
              gold = 0, doc_id = 7\<rparr>, r')"
proof -
  have "case keylock_scenario_to_eval_doc (\<lambda>sc. ''prompt'') example_keylock_scenario
          (periodic [0, 1, 2, 3, 1, 0, 1]) 7 of
          Inl e \<Rightarrow> False
        | Inr (d, r') \<Rightarrow> d = Some \<lparr>query = ''prompt'',
              choices = [''right, pick_up_red, unlock_red, right, right'',
                         ''right, pick_up_blue, unlock_blue, right, right'',
                         ''right, unlock_red, right, right'',
                         ''down, pick_up_red, unlock_red, right, right''],
              gold = 0, doc_id = 7\<rparr>"
    by code_simp
  then show ?thesis by (auto split: sum.splits)
qed


section \<open>The container generator\<close>

text \<open>\<^verbatim>\<open>str(n)\<close> for an integer: decimal digits, with a minus sign for a negative number.\<close>

function str_nat :: "nat \<Rightarrow> string" where
  "str_nat n = (if n < 10 then [''0123456789'' ! n]
                else str_nat (n div 10) @ [''0123456789'' ! (n mod 10)])"
  by pat_completeness auto
termination
  by (relation "measure (\<lambda>n. n)") auto

definition str_int :: "int \<Rightarrow> string" where
  "str_int i = (if i < 0 then ''-'' @ str_nat (nat (- i)) else str_nat (nat i))"

text \<open>\<^verbatim>\<open>sep.join(parts)\<close> for any separator.\<close>

fun join_sep :: "string \<Rightarrow> string list \<Rightarrow> string" where
  "join_sep sep [] = []"
| "join_sep sep [x] = x"
| "join_sep sep (x # y # ys) = x @ sep @ join_sep sep (y # ys)"

text \<open>The dataclass \<^verbatim>\<open>Scenario\<close> of the container generator.\<close>

record ContainerScenario =
  containers :: "(string \<times> Container) list"
  actions :: "string list"
  final_state :: "(string \<times> int) list"

text \<open>The loop \<^verbatim>\<open>for name in names\<close> that draws a capacity and a start volume.\<close>

fun draw_containers ::
  "string list \<Rightarrow> (string \<times> Container) list \<Rightarrow> rng \<Rightarrow> (string \<times> Container) list \<times> rng" where
  "draw_containers [] cs r = (cs, r)"
| "draw_containers (nm # names) cs r =
     (let (cap, r1) = randint 2 10 r;
          (start, r2) = randint 0 cap r1
      in draw_containers names
           (AList.update nm \<lparr>name = nm, capacity = cap, current = start\<rparr> cs) r2)"

text \<open>
  The loop \<^verbatim>\<open>for _ in range(num_actions)\<close>: it draws an action, appends it to
  \<^verbatim>\<open>actions\<close> and applies it to \<^verbatim>\<open>containers\<close>. \<^verbatim>\<open>src, dst = rng.sample(names, 2)\<close>
  unpacks a list of two names.
\<close>

fun draw_actions ::
  "nat \<Rightarrow> nat \<Rightarrow> string list \<Rightarrow> (string \<times> Container) list \<Rightarrow> string list \<Rightarrow> rng \<Rightarrow>
   py_error + ((string \<times> Container) list \<times> string list \<times> rng)" where
  "draw_actions 0 num_containers names cs acts r = Inr (cs, acts, r)"
| "draw_actions (Suc n) num_containers names cs acts r =
     (let (action_type, r1) = choice [''Pour'', ''Fill'', ''Empty''] r;
          (action, r2) =
            (if action_type = ''Pour'' \<and> num_containers \<ge> 2 then
               (let (pair, r') = sample names 2 r1 in
                (''Pour '' @ pair ! 0 @ '' into '' @ pair ! 1, r'))
             else
               (let (tgt, r') = choice names r1 in (action_type @ '' '' @ tgt, r')))
      in err_bind (simulate_step cs action) (\<lambda>cs'.
           draw_actions n num_containers names cs' (acts @ [action]) r2))"

definition container_generate_scenario :: "rng \<Rightarrow> py_error + (ContainerScenario \<times> rng)" where
  "container_generate_scenario r =
     (let (num_containers, r1) = choice [2, 3] r;
          names = take num_containers [''A'', ''B'', ''C''];
          (cs, r2) = draw_containers names [] r1;
          initial_containers = cs;
          (num_actions, r3) = randint 3 5 r2
      in err_bind (draw_actions (nat num_actions) num_containers names cs [] r3)
           (\<lambda>(cs', acts, r4).
              Inr (\<lparr>containers = initial_containers, actions = acts,
                    final_state = map (\<lambda>(k, v). (k, current v)) cs'\<rparr>, r4)))"

text \<open>\<^verbatim>\<open>dict_to_str\<close>: the entries in the order of the sorted keys.\<close>

definition dict_to_str :: "(string \<times> int) list \<Rightarrow> string" where
  "dict_to_str state =
     join (map (\<lambda>k. k @ ''='' @ str_int (the (map_of state k)) @ ''L'') (sort (map fst state)))"

text \<open>
  Strategy 1 of the container synthesizer replays the actions without the capacity cap.
  \<^verbatim>\<open>state1[dst] += amount\<close> reads the entry after \<^verbatim>\<open>state1[src] -= amount\<close> has
  been stored.
\<close>

definition naive_step ::
  "(string \<times> Container) list \<Rightarrow> (string \<times> int) list \<Rightarrow> string \<Rightarrow> py_error + (string \<times> int) list" where
  "naive_step cs state1 action =
     (let parts = py_split action in
      err_bind (py_index parts 0) (\<lambda>p0.
      if p0 = ''Pour'' then
        err_bind (py_index parts 1) (\<lambda>src.
        err_bind (py_index parts 3) (\<lambda>dst.
        err_bind (py_getitem state1 src) (\<lambda>amount.
          let state1a = AList.update src (amount - amount) state1 in
          err_bind (py_getitem state1a dst) (\<lambda>d.
            Inr (AList.update dst (d + amount) state1a)))))
      else if p0 = ''Fill'' then
        err_bind (py_index parts 1) (\<lambda>tgt.
        err_bind (py_getitem cs tgt) (\<lambda>c.
          Inr (AList.update tgt (capacity c) state1)))
      else if p0 = ''Empty'' then
        err_bind (py_index parts 1) (\<lambda>tgt. Inr (AList.update tgt 0 state1))
      else Inr state1))"

fun naive_replay ::
  "(string \<times> Container) list \<Rightarrow> (string \<times> int) list \<Rightarrow> string list \<Rightarrow> py_error + (string \<times> int) list" where
  "naive_replay cs state1 [] = Inr state1"
| "naive_replay cs state1 (a # acts) =
     err_bind (naive_step cs state1 a) (\<lambda>state1'. naive_replay cs state1' acts)"

text \<open>The state of the container synthesizer: the distractor dictionaries and \<^verbatim>\<open>used\<close>.
  The three strategies repeat the same test and update, written once here.\<close>

type_synonym cstate = "(string \<times> int) list list \<times> string set"

definition container_add :: "(string \<times> int) list \<Rightarrow> cstate \<Rightarrow> cstate" where
  "container_add state st =
     (let s_str = dict_to_str state in
      if s_str \<notin> snd st then (fst st @ [state], insert s_str (snd st)) else st)"

text \<open>\<^verbatim>\<open>{k: rng.randint(0, scenario.containers[k].capacity) for k in names}\<close>; the names are
  the keys of \<^verbatim>\<open>scenario.containers\<close>, so the lookup succeeds.\<close>

fun random_state :: "(string \<times> Container) list \<Rightarrow> rng \<Rightarrow> (string \<times> int) list \<times> rng" where
  "random_state [] r = ([], r)"
| "random_state ((k, c) # cs) r =
     (let (v, r1) = randint 0 (capacity c) r;
          (rest, r2) = random_state cs r1
      in ((k, v) # rest, r2))"

fun container_random_states ::
  "nat \<Rightarrow> (string \<times> Container) list \<Rightarrow> cstate \<Rightarrow> rng \<Rightarrow> cstate \<times> rng" where
  "container_random_states 0 cs st r = (st, r)"
| "container_random_states (Suc n) cs st r =
     (if length (fst st) \<ge> 3 then (st, r)
      else (let (state3, r1) = random_state cs r in
            container_random_states n cs (container_add state3 st) r1))"

definition container_generate_distractors ::
  "ContainerScenario \<Rightarrow> rng \<Rightarrow> py_error + ((string \<times> int) list list \<times> rng)" where
  "container_generate_distractors scenario r =
     (let names = map fst (containers scenario);
          correct_str = dict_to_str (final_state scenario);
          st0 = ([], {correct_str});
          state1_0 = map (\<lambda>(k, c). (k, current c)) (containers scenario)
      in err_bind (naive_replay (containers scenario) state1_0 (actions scenario)) (\<lambda>state1.
           let st1 = container_add state1 st0;
               (shuffled_vals, r1) = shuffle (map snd (final_state scenario)) r
           in if length shuffled_vals < length names then Inl IndexError
              else
                (let state2 = zip names shuffled_vals;
                     st2 = container_add state2 st1;
                     (st3, r3) = container_random_states 20 (containers scenario) st2 r1
                 in Inr (take 3 (fst st3), r3))))"

text \<open>\<^verbatim>\<open>render_prompt\<close> of the container generator; \<^verbatim>\<open>enumerate(actions, 1)\<close> numbers the
  steps from one.\<close>

definition container_render_prompt :: "ContainerScenario \<Rightarrow> string" where
  "container_render_prompt scenario =
     (let parts = map (\<lambda>(k, v). ''Container '' @ k @ '' (capacity '' @ str_int (capacity v) @
                                  ''L, currently '' @ str_int (current v) @ ''L)'')
                      (containers scenario);
          init_desc = join parts @ ''.'';
          steps = map (\<lambda>(i, a). ''Step '' @ str_nat i @ '': '' @ a @ ''.'')
                      (zip [1..<Suc (length (actions scenario))] (actions scenario));
          steps_str = join_sep [CHR 0x0A] steps
      in init_desc @ [CHR 0x0A, CHR 0x0A] @ steps_str @ [CHR 0x0A, CHR 0x0A] @
         ''What is the final state of all containers? Give your answer as a comma-separated list of volumes.'')"

text \<open>
  One pass through the body of the \<^verbatim>\<open>while valid_count < NUM_SAMPLES\<close> loop of the
  container \<^verbatim>\<open>main\<close>: either a sample is written, or the pass ends at \<^verbatim>\<open>continue\<close>
  (\<open>None\<close>). \<^verbatim>\<open>choices_shuffled.index(choices_strs[0])\<close> is the first position of the
  canonical string.
\<close>

definition container_attempt :: "rng \<Rightarrow> py_error + (mc_item option \<times> rng)" where
  "container_attempt r =
     err_bind (container_generate_scenario r) (\<lambda>(scenario, r1).
     err_bind (container_generate_distractors scenario r1) (\<lambda>(distractors, r2).
       if length distractors < 3 then Inr (None, r2)
       else
         (let prompt = container_render_prompt scenario;
              choices_dicts = final_state scenario # distractors;
              choices_strs = map dict_to_str choices_dicts;
              (choices_shuffled, r3) = shuffle choices_strs r2
          in case first_index (\<lambda>c. c = choices_strs ! 0) choices_shuffled of
               None \<Rightarrow> Inl ValueError
             | Some gold_idx \<Rightarrow>
                 Inr (Some \<lparr>query = prompt, choices = choices_shuffled, gold = gold_idx\<rparr>, r3))))"

definition NUM_SAMPLES :: nat where
  "NUM_SAMPLES = 1000"

text \<open>
  The loop of the container \<^verbatim>\<open>main\<close> has no bound on the number of passes, so it is a
  partial function: \<open>None\<close> is a run that never ends. A Python exception ends the run with
  \<open>Inl\<close>. The result is the list of samples written to the file.
\<close>

partial_function (option) container_main_loop ::
  "nat \<Rightarrow> rng \<Rightarrow> mc_item list \<Rightarrow> (py_error + mc_item list) option" where
  "container_main_loop valid_count r out =
     (if valid_count < NUM_SAMPLES then
        (case container_attempt r of
           Inl e \<Rightarrow> Some (Inl e)
         | Inr (None, r') \<Rightarrow> container_main_loop valid_count r' out
         | Inr (Some item, r') \<Rightarrow> container_main_loop (valid_count + 1) r' (out @ [item]))
      else Some (Inr out))"

definition container_main :: "rng \<Rightarrow> (py_error + mc_item list) option" where
  "container_main r = container_main_loop 0 r []"

text \<open>
  The invariant of the container synthesizer state: the canonical string is in \<^verbatim>\<open>used\<close>,
  no distractor renders to it, and the distractors render to distinct strings.
\<close>

definition cinv :: "string \<Rightarrow> cstate \<Rightarrow> bool" where
  "cinv cs st = (cs \<in> snd st \<and> dict_to_str ` set (fst st) \<subseteq> snd st \<and>
                 cs \<notin> dict_to_str ` set (fst st) \<and> distinct (map dict_to_str (fst st)))"

lemma cinv_init: "cinv cs ([], {cs})"
  by (simp add: cinv_def)

lemma container_add_cinv: "cinv cs st \<Longrightarrow> cinv cs (container_add state st)"
  unfolding cinv_def container_add_def Let_def by auto

lemma container_random_states_cinv:
  "cinv cs st \<Longrightarrow> cinv cs (fst (container_random_states n conts st r))"
proof (induction n arbitrary: st r)
  case 0
  then show ?case by simp
next
  case (Suc n)
  show ?case
    using Suc.prems Suc.IH [OF container_add_cinv [OF Suc.prems]]
    by (simp add: Let_def split: prod.splits)
qed

lemma cinv_take:
  "cinv cs st \<Longrightarrow> cs \<notin> dict_to_str ` set (take n (fst st)) \<and>
     distinct (map dict_to_str (take n (fst st)))"
  unfolding cinv_def by (auto dest: in_set_takeD simp: take_map [symmetric] distinct_take)

lemma container_generate_distractors_sound:
  assumes "container_generate_distractors sc r = Inr (ds, r')"
  shows "dict_to_str (final_state sc) \<notin> dict_to_str ` set ds \<and> distinct (map dict_to_str ds)"
proof -
  let ?cs = "dict_to_str (final_state sc)"
  from assms obtain state1 where
    s1: "naive_replay (containers sc) (map (\<lambda>(k, c). (k, current c)) (containers sc)) (actions sc) =
           Inr state1"
    by (auto simp: container_generate_distractors_def Let_def err_bind_def split: sum.splits)
  obtain sv r1 where sh: "shuffle (map snd (final_state sc)) r = (sv, r1)"
    by (cases "shuffle (map snd (final_state sc)) r")
  let ?st2 = "container_add (zip (map fst (containers sc)) sv) (container_add state1 ([], {?cs}))"
  obtain st3 r3 where rs: "container_random_states 20 (containers sc) ?st2 r1 = (st3, r3)"
    by (cases "container_random_states 20 (containers sc) ?st2 r1")
  have i2: "cinv ?cs ?st2"
    by (intro container_add_cinv cinv_init)
  have i3: "cinv ?cs st3"
    using container_random_states_cinv [OF i2, of 20 "containers sc" r1] rs by simp
  have "ds = take 3 (fst st3)"
    using assms s1 sh rs
    by (auto simp: container_generate_distractors_def Let_def err_bind_def split: if_splits)
  then show ?thesis using cinv_take [OF i3, of 3] by simp
qed

lemma first_index_eq_Some:
  "first_index (\<lambda>c. c = a) xs = Some g \<Longrightarrow> g < length xs \<and> xs ! g = a"
  using first_index_Some [of "\<lambda>c. c = a" xs g] by simp

lemma container_attempt_choices:
  assumes "container_attempt r = Inr (Some item, r')"
  shows "\<exists>sc r1 ds r2. container_generate_scenario r = Inr (sc, r1) \<and>
     container_generate_distractors sc r1 = Inr (ds, r2) \<and> length ds \<ge> 3 \<and>
     mset (choices item) = mset (dict_to_str (final_state sc) # map dict_to_str ds) \<and>
     gold item < length (choices item) \<and>
     choices item ! gold item = dict_to_str (final_state sc) \<and>
     query item = container_render_prompt sc"
proof -
  from assms obtain sc r1 where g: "container_generate_scenario r = Inr (sc, r1)"
    by (auto simp: container_attempt_def err_bind_def split: sum.splits)
  from assms g obtain ds r2 where d: "container_generate_distractors sc r1 = Inr (ds, r2)"
    by (auto simp: container_attempt_def err_bind_def split: sum.splits)
  have l: "length ds \<ge> 3"
    using assms g d by (auto simp: container_attempt_def err_bind_def split: if_splits)
  let ?strs = "map dict_to_str (final_state sc # ds)"
  obtain sh r3 where s: "shuffle ?strs r2 = (sh, r3)"
    by (cases "shuffle ?strs r2")
  have m: "mset sh = mset ?strs"
    using shuffle_mset [of ?strs r2] s by simp
  have c: "choices item = sh" "query item = container_render_prompt sc"
    and f: "first_index (\<lambda>c. c = dict_to_str (final_state sc)) sh = Some (gold item)"
    using assms g d l s
    by (auto simp: container_attempt_def err_bind_def Let_def split: if_splits option.splits)
  show ?thesis
    using g d l m c first_index_eq_Some [OF f] by auto
qed

lemma example_container_attempt:
  "\<exists>r'. container_attempt (periodic [0, 5, 3, 2, 1, 0, 0, 1, 1, 2, 1, 7, 3, 4, 1, 2, 5]) =
        Inr (Some \<lparr>query = container_render_prompt
                     \<lparr>containers = [(''A'', \<lparr>name = ''A'', capacity = 7, current = 3\<rparr>),
                                    (''B'', \<lparr>name = ''B'', capacity = 4, current = 1\<rparr>)],
                      actions = [''Pour B into A'', ''Empty B'', ''Fill B''],
                      final_state = [(''A'', 4), (''B'', 4)]\<rparr>,
                   choices = [''A=5L, B=3L'', ''A=4L, B=4L'', ''A=1L, B=2L'', ''A=5L, B=0L''],
                   gold = 1\<rparr>, r')"
proof -
  have "case container_attempt (periodic [0, 5, 3, 2, 1, 0, 0, 1, 1, 2, 1, 7, 3, 4, 1, 2, 5]) of
          Inl e \<Rightarrow> False
        | Inr (d, r') \<Rightarrow> d = Some \<lparr>query = container_render_prompt
                     \<lparr>containers = [(''A'', \<lparr>name = ''A'', capacity = 7, current = 3\<rparr>),
                                    (''B'', \<lparr>name = ''B'', capacity = 4, current = 1\<rparr>)],
                      actions = [''Pour B into A'', ''Empty B'', ''Fill B''],
                      final_state = [(''A'', 4), (''B'', 4)]\<rparr>,
                   choices = [''A=5L, B=3L'', ''A=4L, B=4L'', ''A=1L, B=2L'', ''A=5L, B=0L''],
                   gold = 1\<rparr>"
    by code_simp
  then show ?thesis by (auto split: sum.splits)
qed

text \<open>
  Claim C2. In every record the spatial assembler, the key-lock assembler or a pass of the
  container \<^verbatim>\<open>main\<close> emits, the choices contain the canonical answer string exactly once,
  and the recorded gold index is its position after the shuffle: \<open>choices ! gold\<close> is the
  canonical string.
\<close>

theorem gold_index_marks_canonical:
  "(spatial_scenario_to_eval_doc render_prompt sha256_hex scenario r did = Inr (doc, r') \<longrightarrow>
      (\<exists>pd. path_directions scenario = Some pd \<and>
         count_list (choices doc) (join pd) = 1 \<and>
         gold doc < length (choices doc) \<and> choices doc ! gold doc = join pd)) \<and>
   (keylock_scenario_to_eval_doc krender kscenario kr kdid = Inr (Some kdoc, kr') \<longrightarrow>
      (\<exists>correct. solution_actions kscenario = Some correct \<and>
         count_list (choices kdoc) (join correct) = 1 \<and>
         gold kdoc < length (choices kdoc) \<and> choices kdoc ! gold kdoc = join correct)) \<and>
   (container_attempt cr = Inr (Some item, cr') \<longrightarrow>
      (\<exists>cscenario r1. container_generate_scenario cr = Inr (cscenario, r1) \<and>
         count_list (choices item) (dict_to_str (final_state cscenario)) = 1 \<and>
         gold item < length (choices item) \<and>
         choices item ! gold item = dict_to_str (final_state cscenario)))"
proof (intro conjI impI)
  assume e: "spatial_scenario_to_eval_doc render_prompt sha256_hex scenario r did = Inr (doc, r')"
  from spatial_doc_choices [OF e] obtain pd ds r1 where
    pd: "path_directions scenario = Some pd"
    and g: "spatial_generate_distractors scenario r 3 = Inr (ds, r1)"
    and m: "mset (choices doc) = mset (join pd # ds)"
    and gl: "gold doc < length (choices doc)" "choices doc ! gold doc = join pd"
    by blast
  have "join pd \<notin> set ds"
    using spatial_generate_distractors_sound [OF g pd] by simp
  then have "count (mset (join pd # ds)) (join pd) = 1"
    by (simp add: count_mset count_list_0_iff)
  then have "count_list (choices doc) (join pd) = 1"
    using m by (metis count_mset)
  then show "\<exists>pd. path_directions scenario = Some pd \<and>
         count_list (choices doc) (join pd) = 1 \<and>
         gold doc < length (choices doc) \<and> choices doc ! gold doc = join pd"
    using pd gl by blast
next
  assume e: "keylock_scenario_to_eval_doc krender kscenario kr kdid = Inr (Some kdoc, kr')"
  from keylock_doc_choices [OF e] obtain correct ds r1 where
    co: "solution_actions kscenario = Some correct"
    and g: "keylock_generate_distractors kscenario kr 3 = (ds, r1)"
    and m: "mset (choices kdoc) = mset (take 3 ds @ [join correct])"
    and gl: "gold kdoc < length (choices kdoc)" "choices kdoc ! gold kdoc = join correct"
    by blast
  have "join correct \<notin> set ds"
    using keylock_generate_distractors_sound [OF g co] by simp
  then have "join correct \<notin> set (take 3 ds)"
    by (auto dest: in_set_takeD)
  then have "count (mset (take 3 ds @ [join correct])) (join correct) = 1"
    by (simp add: count_mset count_list_0_iff)
  then have "count_list (choices kdoc) (join correct) = 1"
    using m by (metis count_mset)
  then show "\<exists>correct. solution_actions kscenario = Some correct \<and>
         count_list (choices kdoc) (join correct) = 1 \<and>
         gold kdoc < length (choices kdoc) \<and> choices kdoc ! gold kdoc = join correct"
    using co gl by blast
next
  assume e: "container_attempt cr = Inr (Some item, cr')"
  from container_attempt_choices [OF e] obtain sc r1 ds r2 where
    g: "container_generate_scenario cr = Inr (sc, r1)"
    and d: "container_generate_distractors sc r1 = Inr (ds, r2)"
    and m: "mset (choices item) = mset (dict_to_str (final_state sc) # map dict_to_str ds)"
    and gl: "gold item < length (choices item)"
      "choices item ! gold item = dict_to_str (final_state sc)"
    by blast
  have "dict_to_str (final_state sc) \<notin> set (map dict_to_str ds)"
    using container_generate_distractors_sound [OF d] by simp
  then have "count (mset (dict_to_str (final_state sc) # map dict_to_str ds))
      (dict_to_str (final_state sc)) = 1"
    by (simp only: count_mset count_list.simps count_list_0_iff [symmetric]) simp
  then have "count_list (choices item) (dict_to_str (final_state sc)) = 1"
    using m by (metis count_mset)
  then show "\<exists>cscenario r1. container_generate_scenario cr = Inr (cscenario, r1) \<and>
         count_list (choices item) (dict_to_str (final_state cscenario)) = 1 \<and>
         gold item < length (choices item) \<and>
         choices item ! gold item = dict_to_str (final_state cscenario)"
    using g gl by blast
qed

theorem gold_index_marks_canonical_witness:
  "(\<exists>r'. spatial_scenario_to_eval_doc (\<lambda>sc. ''prompt'') (\<lambda>s. s) example_grid_scenario
          (periodic [1, 1, 0, 0, 2, 2, 1, 0, 0]) 7 =
        Inr (\<lparr>query = ''prompt'',
              choices = [''left, left'', ''up, up'', ''right, right'', ''down, down''],
              gold = 2, doc_id = 7, fingerprint = ''prompt'', shortest_path_length = 2\<rparr>, r')) \<and>
   count_list [''left, left'', ''up, up'', ''right, right'', ''down, down'']
     (join [''right'', ''right'']) = 1 \<and>
   (\<exists>r'. keylock_scenario_to_eval_doc (\<lambda>sc. ''prompt'') example_keylock_scenario
          (periodic [0, 1, 2, 3, 1, 0, 1]) 7 =
        Inr (Some \<lparr>query = ''prompt'',
              choices = [''right, pick_up_red, unlock_red, right, right'',
                         ''right, pick_up_blue, unlock_blue, right, right'',
                         ''right, unlock_red, right, right'',
                         ''down, pick_up_red, unlock_red, right, right''],
              gold = 0, doc_id = 7\<rparr>, r')) \<and>
   count_list [''right, pick_up_red, unlock_red, right, right'',
               ''right, pick_up_blue, unlock_blue, right, right'',
               ''right, unlock_red, right, right'',
               ''down, pick_up_red, unlock_red, right, right'']
     (join [''right'', ''pick_up_red'', ''unlock_red'', ''right'', ''right'']) = 1 \<and>
   (\<exists>r' q. container_attempt (periodic [0, 5, 3, 2, 1, 0, 0, 1, 1, 2, 1, 7, 3, 4, 1, 2, 5]) =
        Inr (Some \<lparr>query = q,
                   choices = [''A=5L, B=3L'', ''A=4L, B=4L'', ''A=1L, B=2L'', ''A=5L, B=0L''],
                   gold = 1\<rparr>, r')) \<and>
   count_list [''A=5L, B=3L'', ''A=4L, B=4L'', ''A=1L, B=2L'', ''A=5L, B=0L''] ''A=4L, B=4L'' = 1"
proof -
  let ?D = "\<lparr>query = ''prompt'',
              choices = [''left, left'', ''up, up'', ''right, right'', ''down, down''],
              gold = 2, doc_id = 7, fingerprint = ''prompt'', shortest_path_length = 2\<rparr>"
  let ?K = "\<lparr>query = ''prompt'',
              choices = [''right, pick_up_red, unlock_red, right, right'',
                         ''right, pick_up_blue, unlock_blue, right, right'',
                         ''right, unlock_red, right, right'',
                         ''down, pick_up_red, unlock_red, right, right''],
              gold = 0, doc_id = 7\<rparr>"
  from example_grid_doc obtain r' where
    e: "spatial_scenario_to_eval_doc (\<lambda>sc. ''prompt'') (\<lambda>s. s) example_grid_scenario
          (periodic [1, 1, 0, 0, 2, 2, 1, 0, 0]) 7 = Inr (?D, r')" by blast
  from example_keylock_doc obtain kr' where
    k: "keylock_scenario_to_eval_doc (\<lambda>sc. ''prompt'') example_keylock_scenario
          (periodic [0, 1, 2, 3, 1, 0, 1]) 7 = Inr (Some ?K, kr')" by blast
  from example_container_attempt obtain cr' q where
    c: "container_attempt (periodic [0, 5, 3, 2, 1, 0, 0, 1, 1, 2, 1, 7, 3, 4, 1, 2, 5]) =
        Inr (Some \<lparr>query = q,
                   choices = [''A=5L, B=3L'', ''A=4L, B=4L'', ''A=1L, B=2L'', ''A=5L, B=0L''],
                   gold = 1\<rparr>, cr')" by blast
  note th = gold_index_marks_canonical [of "\<lambda>sc. ''prompt''" "\<lambda>s. s" example_grid_scenario
      "periodic [1, 1, 0, 0, 2, 2, 1, 0, 0]" 7 ?D r' "\<lambda>sc. ''prompt''" example_keylock_scenario
      "periodic [0, 1, 2, 3, 1, 0, 1]" 7 ?K kr'
      "periodic [0, 5, 3, 2, 1, 0, 0, 1, 1, 2, 1, 7, 3, 4, 1, 2, 5]"
      "\<lparr>query = q,
                   choices = [''A=5L, B=3L'', ''A=4L, B=4L'', ''A=1L, B=2L'', ''A=5L, B=0L''],
                   gold = 1\<rparr>" cr']
  from th e have a: "count_list (choices ?D) (join [''right'', ''right'']) = 1"
    by (auto simp: example_grid_scenario_def)
  from th k have b: "count_list (choices ?K)
      (join [''right'', ''pick_up_red'', ''unlock_red'', ''right'', ''right'']) = 1"
    by (auto simp: example_keylock_scenario_def)
  from th c obtain fs where
    fs1: "count_list [''A=5L, B=3L'', ''A=4L, B=4L'', ''A=1L, B=2L'', ''A=5L, B=0L''] fs = 1"
    and fs2: "[''A=5L, B=3L'', ''A=4L, B=4L'', ''A=1L, B=2L'', ''A=5L, B=0L''] ! 1 = fs"
    by (auto simp del: count_list.simps)
  from fs2 have "fs = ''A=4L, B=4L''" by simp
  with fs1 have d: "count_list [''A=5L, B=3L'', ''A=4L, B=4L'', ''A=1L, B=2L'', ''A=5L, B=0L'']
      ''A=4L, B=4L'' = 1"
    by (simp only:)
  show ?thesis
    using e a k b c d by (auto simp del: count_list.simps join.simps)
qed

section \<open>The key-lock sampler: \<^verbatim>\<open>generate_scenario\<close>\<close>

text \<open>
  \<^verbatim>\<open>generate_scenario\<close> of \<^verbatim>\<open>generate_keylock_eval.py\<close> shuffles the 25 cells, takes the
  start, the goal, one or two key and door pairs and two obstacles from the front of the
  shuffled list, solves the layout with \<^verbatim>\<open>bfs_with_keys\<close>, and solves it again with no keys
  and no doors for its non-triviality check. The dictionaries \<^verbatim>\<open>keys\<close> and \<^verbatim>\<open>doors\<close> are
  association lists in insertion order. The indices \<^verbatim>\<open>all_cells[idx]\<close> and \<^verbatim>\<open>COLORS[i]\<close> are
  in range: the shuffled list has 25 cells, \<^verbatim>\<open>idx\<close> is at most 7 and \<^verbatim>\<open>i\<close> at most 1.
\<close>

definition COLORS :: "string list" where
  "COLORS = [''red'', ''blue'']"

definition KL_NUM_OBSTACLES :: nat where
  "KL_NUM_OBSTACLES = 2"

definition all_cells :: "coord list" where
  "all_cells = concat (map (\<lambda>r. map (\<lambda>c. (r, c)) [0..GRID_SIZE - 1]) [0..GRID_SIZE - 1])"

text \<open>One pass of \<^verbatim>\<open>for i in range(num_pairs)\<close> and one of
  \<^verbatim>\<open>for j in range(NUM_OBSTACLES)\<close>.\<close>

definition place_pair ::
  "coord list \<Rightarrow> nat \<Rightarrow> (coord \<times> string) list \<times> (coord \<times> string) list \<times> nat \<Rightarrow>
   (coord \<times> string) list \<times> (coord \<times> string) list \<times> nat" where
  "place_pair cells i st =
     (let (keys, doors, idx) = st;
          color = COLORS ! i
      in (AList.update (cells ! idx) color keys,
          AList.update (cells ! (idx + 1)) color doors,
          idx + 2))"

definition place_obstacle :: "coord list \<Rightarrow> nat \<Rightarrow> coord set \<times> nat \<Rightarrow> coord set \<times> nat" where
  "place_obstacle cells j st = (insert (cells ! snd st) (fst st), snd st + 1)"

type_synonym kl_layout =
  "coord \<times> coord \<times> coord set \<times> (coord \<times> string) list \<times> (coord \<times> string) list"

text \<open>The part of \<^verbatim>\<open>generate_scenario\<close> between the length test and the first call of
  the solver.\<close>

definition keylock_place :: "coord list \<Rightarrow> rng \<Rightarrow> kl_layout \<times> rng" where
  "keylock_place cells r1 =
     (let start = cells ! 0;
          goal = cells ! 1;
          (num_pairs, r2) = choice [1, 2] r1;
          (keys, doors, idx) = fold (place_pair cells) [0..<num_pairs] ([], [], 2);
          (obstacles, idx') = fold (place_obstacle cells) [0..<KL_NUM_OBSTACLES] ({}, idx)
      in ((start, goal, obstacles, keys, doors), r2))"

definition keylock_generate_scenario :: "rng \<Rightarrow> KeyLockScenario option \<times> rng" where
  "keylock_generate_scenario r =
     (let (cells, r1) = shuffle all_cells r in
      if length cells < 10 then (None, r1)
      else
        (let ((start, goal, obstacles, keys, doors), r2) = keylock_place cells r1 in
         case bfs_with_keys start goal obstacles (map_of keys) (map_of doors) GRID_SIZE of
           None \<Rightarrow> (None, r2)
         | Some (path, acts) \<Rightarrow>
             (let scenario =
                \<lparr>kl_grid_size = GRID_SIZE, kl_start = start, kl_goal = goal,
                 kl_obstacles = obstacles, kl_keys = keys, kl_doors = doors,
                 solution_actions = Some acts, solution_path = Some path\<rparr>
              in case bfs_with_keys start goal obstacles Map.empty Map.empty GRID_SIZE of
                   None \<Rightarrow> (Some scenario, r2)
                 | Some (no_key_path, no_key_actions) \<Rightarrow>
                     if length no_key_path \<le> length path then
                       (if \<not> (\<exists>d \<in> set (map fst doors). d \<in> set no_key_path) then (None, r2)
                        else (Some scenario, r2))
                     else (Some scenario, r2))))"

text \<open>The instance that \<^verbatim>\<open>generate_scenario\<close> draws, before its two checks.\<close>

definition keylock_layout :: "rng \<Rightarrow> kl_layout" where
  "keylock_layout r = (let (cells, r1) = shuffle all_cells r in fst (keylock_place cells r1))"

text \<open>A draw sequence whose shuffle puts \<^verbatim>\<open>(0, 0)\<close>, \<^verbatim>\<open>(0, 2)\<close>, \<^verbatim>\<open>(1, 0)\<close>, \<^verbatim>\<open>(0, 1)\<close>,
  \<^verbatim>\<open>(2, 0)\<close>, \<^verbatim>\<open>(4, 4)\<close> first and whose next draw chooses one key and door pair.\<close>

definition bypass_tape :: rng where
  "bypass_tape = periodic [23, 22, 21, 20, 19, 18, 17, 16, 15, 14, 13, 12, 11, 9, 8, 7, 6, 4, 3, 4, 3, 1, 1, 1, 0]"

lemma length_all_cells: "length all_cells = 25"
  by code_simp

lemma bypass_layout:
  "keylock_layout bypass_tape =
     ((0, 0), (0, 2), {(4, 4), (2, 0)}, [((1, 0), ''red'')], [((0, 1), ''red'')])"
  unfolding bypass_tape_def by code_simp

lemma bypass_solution:
  "bfs_with_keys (0, 0) (0, 2) {(4, 4), (2, 0)} (map_of [((1, 0), ''red'')])
       (map_of [((0, 1), ''red'')]) GRID_SIZE =
     Some ([(0, 0), (1, 0), (1, 1), (1, 2), (0, 2)], [''down'', ''right'', ''right'', ''up''])"
  by code_simp

lemma bypass_keyless:
  "bfs_with_keys (0, 0) (0, 2) {(4, 4), (2, 0)} Map.empty Map.empty GRID_SIZE =
     Some ([(0, 0), (0, 1), (0, 2)], [''right'', ''right''])"
  by code_simp

lemma bypass_kept:
  "fst (keylock_generate_scenario bypass_tape) =
     Some \<lparr>kl_grid_size = 5, kl_start = (0, 0), kl_goal = (0, 2),
       kl_obstacles = {(4, 4), (2, 0)}, kl_keys = [((1, 0), ''red'')],
       kl_doors = [((0, 1), ''red'')],
       solution_actions = Some [''down'', ''right'', ''right'', ''up''],
       solution_path = Some [(0, 0), (1, 0), (1, 1), (1, 2), (0, 2)]\<rparr>"
  unfolding bypass_tape_def by code_simp

lemma bypass_detour_valid:
  "\<not> is_action_seq_invalid (0, 0) (0, 2) {(4, 4), (2, 0)} Map.empty
       (map_of [((0, 1), ''red'')]) [''down'', ''right'', ''right'', ''up''] GRID_SIZE"
  by code_simp

text \<open>Claim C9. On a layout that the solver solves with path \<open>path\<close>,
  \<^verbatim>\<open>generate_scenario\<close> returns \<^verbatim>\<open>None\<close> exactly when the search with no keys and no doors
  returns a path that is no longer than \<open>path\<close> and contains no door cell; otherwise it
  returns the layout with the solver's solution. The existence of a longer keyless path
  around the doors does not make it reject: on the layout drawn from \<open>bypass_tape\<close> the
  keyless search returns the two-step path through the door cell \<^verbatim>\<open>(0, 1)\<close>, the four-step
  walk \<^verbatim>\<open>down, right, right, up\<close> reaches the goal with no key and through no door, and the
  layout is kept.\<close>

theorem keylock_nontriviality_check:
  "(keylock_layout r = (start, goal, obstacles, keys, doors) \<and>
    bfs_with_keys start goal obstacles (map_of keys) (map_of doors) GRID_SIZE = Some (path, acts) \<longrightarrow>
      ((fst (keylock_generate_scenario r) = None) =
       (\<exists>no_key_path no_key_actions.
          bfs_with_keys start goal obstacles Map.empty Map.empty GRID_SIZE =
            Some (no_key_path, no_key_actions) \<and>
          length no_key_path \<le> length path \<and>
          (\<forall>d \<in> fst ` set doors. d \<notin> set no_key_path))) \<and>
      (fst (keylock_generate_scenario r) \<noteq> None \<longrightarrow>
       fst (keylock_generate_scenario r) =
         Some \<lparr>kl_grid_size = GRID_SIZE, kl_start = start, kl_goal = goal,
                kl_obstacles = obstacles, kl_keys = keys, kl_doors = doors,
                solution_actions = Some acts, solution_path = Some path\<rparr>)) \<and>
   (fst (keylock_generate_scenario bypass_tape) \<noteq> None \<and>
    keylock_layout bypass_tape =
     ((0, 0), (0, 2), {(4, 4), (2, 0)}, [((1, 0), ''red'')], [((0, 1), ''red'')]) \<and>
    bfs_with_keys (0, 0) (0, 2) {(4, 4), (2, 0)} Map.empty Map.empty GRID_SIZE =
      Some ([(0, 0), (0, 1), (0, 2)], [''right'', ''right'']) \<and>
    \<not> is_action_seq_invalid (0, 0) (0, 2) {(4, 4), (2, 0)} Map.empty
       (map_of [((0, 1), ''red'')]) [''down'', ''right'', ''right'', ''up''] GRID_SIZE)"
proof (intro conjI impI)
  assume h: "keylock_layout r = (start, goal, obstacles, keys, doors) \<and>
    bfs_with_keys start goal obstacles (map_of keys) (map_of doors) GRID_SIZE = Some (path, acts)"
  obtain cells r1 where sh: "shuffle all_cells r = (cells, r1)"
    by (cases "shuffle all_cells r")
  have len: "\<not> length cells < 10"
    using shuffle_length [of all_cells r] by (simp add: sh length_all_cells)
  obtain r2 where lay: "keylock_place cells r1 = ((start, goal, obstacles, keys, doors), r2)"
    using h by (cases "keylock_place cells r1") (simp add: keylock_layout_def sh)
  show "(fst (keylock_generate_scenario r) = None) =
       (\<exists>no_key_path no_key_actions.
          bfs_with_keys start goal obstacles Map.empty Map.empty GRID_SIZE =
            Some (no_key_path, no_key_actions) \<and>
          length no_key_path \<le> length path \<and>
          (\<forall>d \<in> fst ` set doors. d \<notin> set no_key_path))"
    using h len by (auto simp: keylock_generate_scenario_def sh lay Let_def split: option.splits)
  assume "fst (keylock_generate_scenario r) \<noteq> None"
  then show "fst (keylock_generate_scenario r) =
         Some \<lparr>kl_grid_size = GRID_SIZE, kl_start = start, kl_goal = goal,
                kl_obstacles = obstacles, kl_keys = keys, kl_doors = doors,
                solution_actions = Some acts, solution_path = Some path\<rparr>"
    using h len
    by (auto simp: keylock_generate_scenario_def sh lay Let_def split: option.splits if_splits)
qed (simp_all only: bypass_kept bypass_layout bypass_keyless bypass_detour_valid, simp_all)

theorem keylock_nontriviality_check_witness:
  "keylock_layout bypass_tape =
     ((0, 0), (0, 2), {(4, 4), (2, 0)}, [((1, 0), ''red'')], [((0, 1), ''red'')]) \<and>
   bfs_with_keys (0, 0) (0, 2) {(4, 4), (2, 0)} (map_of [((1, 0), ''red'')])
       (map_of [((0, 1), ''red'')]) GRID_SIZE =
     Some ([(0, 0), (1, 0), (1, 1), (1, 2), (0, 2)], [''down'', ''right'', ''right'', ''up'']) \<and>
   fst (keylock_generate_scenario bypass_tape) =
     Some \<lparr>kl_grid_size = GRID_SIZE, kl_start = (0, 0), kl_goal = (0, 2),
       kl_obstacles = {(4, 4), (2, 0)}, kl_keys = [((1, 0), ''red'')],
       kl_doors = [((0, 1), ''red'')],
       solution_actions = Some [''down'', ''right'', ''right'', ''up''],
       solution_path = Some [(0, 0), (1, 0), (1, 1), (1, 2), (0, 2)]\<rparr>"
proof -
  note t = keylock_nontriviality_check [of bypass_tape "(0, 0)" "(0, 2)" "{(4, 4), (2, 0)}"
      "[((1, 0), ''red'')]" "[((0, 1), ''red'')]"
      "[(0, 0), (1, 0), (1, 1), (1, 2), (0, 2)]" "[''down'', ''right'', ''right'', ''up'']"]
  from t [THEN conjunct1, THEN mp, OF conjI [OF bypass_layout bypass_solution]]
  have "fst (keylock_generate_scenario bypass_tape) \<noteq> None \<longrightarrow>
       fst (keylock_generate_scenario bypass_tape) =
         Some \<lparr>kl_grid_size = GRID_SIZE, kl_start = (0, 0), kl_goal = (0, 2),
           kl_obstacles = {(4, 4), (2, 0)}, kl_keys = [((1, 0), ''red'')],
           kl_doors = [((0, 1), ''red'')],
           solution_actions = Some [''down'', ''right'', ''right'', ''up''],
           solution_path = Some [(0, 0), (1, 0), (1, 1), (1, 2), (0, 2)]\<rparr>"
    by (rule conjunct2)
  moreover have "fst (keylock_generate_scenario bypass_tape) \<noteq> None"
    by (simp add: bypass_kept)
  ultimately show ?thesis using bypass_layout bypass_solution by blast
qed

section \<open>The spatial sampler and the drivers\<close>

text \<open>
  \<^verbatim>\<open>generate_scenario\<close> of \<^verbatim>\<open>generate_spatial_eval.py\<close> samples five of the 25 cells: the
  start, the goal and three obstacles. The library selects the cells by one of two
  procedures, according to the sizes of the population and of the sample; both return
  elements at distinct positions of the population, and \<open>sample\<close> above is one of them.
  The general statements below do not depend on which positions a draw sequence selects,
  and the draw sequences of the examples are distinct draws below 20, on which the two
  procedures select the same cells.
\<close>

definition SP_NUM_OBSTACLES :: nat where
  "SP_NUM_OBSTACLES = 3"

definition all_coords :: "coord list" where
  "all_coords = concat (map (\<lambda>r. map (\<lambda>c. (r, c)) [0..GRID_SIZE - 1]) [0..GRID_SIZE - 1])"

text \<open>\<^verbatim>\<open>path_to_directions\<close>: the lookup \<^verbatim>\<open>DIR_NAMES[(dr, dc)]\<close> raises \<^verbatim>\<open>KeyError\<close> when two
  consecutive cells are not neighbours.\<close>

fun path_to_directions :: "coord list \<Rightarrow> py_error + string list" where
  "path_to_directions (p # q # rest) =
     (case DIR_NAMES (fst q - fst p, snd q - snd p) of
        None \<Rightarrow> Inl KeyError
      | Some d \<Rightarrow> err_bind (path_to_directions (q # rest)) (\<lambda>ds. Inr (d # ds)))"
| "path_to_directions [p] = Inr []"
| "path_to_directions [] = Inr []"

definition spatial_generate_scenario :: "rng \<Rightarrow> py_error + (GridScenario option \<times> rng)" where
  "spatial_generate_scenario r =
     (let (chosen, r1) = sample all_coords (2 + SP_NUM_OBSTACLES) r;
          start = chosen ! 0;
          goal = chosen ! 1;
          obstacles = set (drop 2 chosen)
      in case a_star start goal obstacles GRID_SIZE of
           None \<Rightarrow> Inr (None, r1)
         | Some path \<Rightarrow>
             err_bind (path_to_directions path) (\<lambda>dirs.
               Inr (Some \<lparr>sp_grid_size = GRID_SIZE, sp_start = start, sp_goal = goal,
                          sp_obstacles = obstacles, shortest_path = Some path,
                          path_directions = Some dirs\<rparr>, r1)))"

text \<open>
  \<^verbatim>\<open>main\<close> of the spatial generator: the loop
  \<^verbatim>\<open>while len(samples) < args.num_samples and attempts < max_attempts\<close> with
  \<^verbatim>\<open>max_attempts = args.num_samples * 20\<close>. After the loop the samples are written, the
  count and the number of attempts are printed, and the statistics are computed:
  \<^verbatim>\<open>min(path_lengths)\<close> raises \<^verbatim>\<open>ValueError\<close> on the empty list. The result is the list of
  samples written, the number of attempts reported, and the range of path lengths or
  that exception.
\<close>

function spatial_main_loop ::
  "(GridScenario \<Rightarrow> string) \<Rightarrow> (string \<Rightarrow> string) \<Rightarrow> int \<Rightarrow> int \<Rightarrow>
   spatial_doc list \<Rightarrow> string set \<Rightarrow> int \<Rightarrow> rng \<Rightarrow> py_error + (spatial_doc list \<times> int)" where
  "spatial_main_loop render_prompt sha256_hex num_samples max_attempts samples seen attempts r =
     (if int (length samples) < num_samples \<and> attempts < max_attempts then
        (case spatial_generate_scenario r of
           Inl e \<Rightarrow> Inl e
         | Inr (None, r1) \<Rightarrow>
             spatial_main_loop render_prompt sha256_hex num_samples max_attempts
               samples seen (attempts + 1) r1
         | Inr (Some scenario, r1) \<Rightarrow>
             (case spatial_scenario_to_eval_doc render_prompt sha256_hex scenario r1
                     (length samples) of
                Inl e \<Rightarrow> Inl e
              | Inr (doc, r2) \<Rightarrow>
                  if fingerprint doc \<in> seen then
                    spatial_main_loop render_prompt sha256_hex num_samples max_attempts
                      samples seen (attempts + 1) r2
                  else
                    spatial_main_loop render_prompt sha256_hex num_samples max_attempts
                      (samples @ [doc]) (insert (fingerprint doc) seen) (attempts + 1) r2))
      else Inr (samples, attempts))"
  by pat_completeness auto
termination
  by (relation "measure (\<lambda>(rp, sh, n, max_attempts, samples, seen, attempts, r).
                            nat (max_attempts - attempts))") auto

declare spatial_main_loop.simps [simp del]

definition spatial_main ::
  "(GridScenario \<Rightarrow> string) \<Rightarrow> (string \<Rightarrow> string) \<Rightarrow> int \<Rightarrow> rng \<Rightarrow>
   py_error + (spatial_doc list \<times> int \<times> (py_error + int \<times> int))" where
  "spatial_main render_prompt sha256_hex num_samples r =
     err_bind (spatial_main_loop render_prompt sha256_hex num_samples (num_samples * 20) [] {} 0 r)
       (\<lambda>(samples, attempts).
          let path_lengths = map shortest_path_length samples
          in Inr (samples, attempts,
                  if path_lengths = [] then Inl ValueError
                  else Inr (fold min (tl path_lengths) (hd path_lengths),
                            fold max (tl path_lengths) (hd path_lengths))))"

text \<open>
  \<^verbatim>\<open>main\<close> of the key-lock generator. Its loop has no bound on the number of passes, so it
  is a partial function: \<open>None\<close> is a run that never ends. The fingerprint is the SHA-256
  of a string formatted from the start, the goal, the sorted obstacles and the sorted
  items of the keys and of the doors; the formatting \<open>fp_data\<close> and the hash are
  parameters, as \<open>render_prompt\<close> is. The documents do not carry the fingerprint: the list
  \<open>emitted\<close> is not a variable of the source, it records the fingerprint of the scenario
  of each appended document, in the order of \<^verbatim>\<open>docs\<close>, so that statements about the ledger
  can name it. It is never read by the loop.
\<close>

partial_function (option) keylock_main_loop ::
  "(KeyLockScenario \<Rightarrow> string) \<Rightarrow> (KeyLockScenario \<Rightarrow> string) \<Rightarrow> (string \<Rightarrow> string) \<Rightarrow> int \<Rightarrow>
   eval_doc list \<Rightarrow> string list \<Rightarrow> string set \<Rightarrow> int \<Rightarrow> rng \<Rightarrow>
   (py_error + (eval_doc list \<times> string list \<times> int)) option" where
  "keylock_main_loop render_prompt fp_data sha256_hex num_samples docs emitted fingerprints
       attempts r =
     (if int (length docs) < num_samples then
        (case keylock_generate_scenario r of
           (None, r1) \<Rightarrow>
             keylock_main_loop render_prompt fp_data sha256_hex num_samples docs emitted
               fingerprints (attempts + 1) r1
         | (Some scenario, r1) \<Rightarrow>
             (let fp = sha256_hex (fp_data scenario) in
              if fp \<in> fingerprints then
                keylock_main_loop render_prompt fp_data sha256_hex num_samples docs emitted
                  fingerprints (attempts + 1) r1
              else
                (case keylock_scenario_to_eval_doc render_prompt scenario r1 (length docs) of
                   Inl e \<Rightarrow> Some (Inl e)
                 | Inr (None, r2) \<Rightarrow>
                     keylock_main_loop render_prompt fp_data sha256_hex num_samples docs emitted
                       (insert fp fingerprints) (attempts + 1) r2
                 | Inr (Some doc, r2) \<Rightarrow>
                     keylock_main_loop render_prompt fp_data sha256_hex num_samples
                       (docs @ [doc]) (emitted @ [fp]) (insert fp fingerprints)
                       (attempts + 1) r2)))
      else Some (Inr (docs, emitted, attempts)))"

text \<open>After the loop the documents are written and the count, the number of attempts and
  the efficiency \<^verbatim>\<open>len(docs)/attempts*100\<close> are printed; the division raises
  \<^verbatim>\<open>ZeroDivisionError\<close> when the loop made no pass.\<close>

definition keylock_main ::
  "(KeyLockScenario \<Rightarrow> string) \<Rightarrow> (KeyLockScenario \<Rightarrow> string) \<Rightarrow> (string \<Rightarrow> string) \<Rightarrow> int \<Rightarrow>
   rng \<Rightarrow> (py_error + (eval_doc list \<times> string list \<times> int \<times> (py_error + unit))) option" where
  "keylock_main render_prompt fp_data sha256_hex num_samples r =
     map_option
       (\<lambda>res. err_bind res (\<lambda>(docs, emitted, attempts).
          Inr (docs, emitted, attempts,
               if attempts = 0 then Inl ZeroDivisionError else Inr ())))
       (keylock_main_loop render_prompt fp_data sha256_hex num_samples [] [] {} 0 r)"

section \<open>Replaying a choice\<close>

text \<open>
  A choice is the string \<^verbatim>\<open>", ".join(steps)\<close>. Its steps are read back by splitting it at
  every \<^verbatim>\<open>", "\<close>, from the left, as \<^verbatim>\<open>choice.split(", ")\<close> does; the split of the empty string
  is the list of one empty step.
\<close>

fun split_sep_acc :: "string \<Rightarrow> string \<Rightarrow> string list" where
  "split_sep_acc w [] = [w]"
| "split_sep_acc w [c] = [w @ [c]]"
| "split_sep_acc w (c # d # cs) =
     (if c = CHR '','' \<and> d = CHR '' '' then w # split_sep_acc [] cs
      else split_sep_acc (w @ [c]) (d # cs))"

definition split_choice :: "string \<Rightarrow> string list" where
  "split_choice s = split_sep_acc [] s"

text \<open>A step with no comma in it.\<close>

definition plain :: "string \<Rightarrow> bool" where
  "plain t = (CHR '','' \<notin> set t)"

lemma split_plain_last: "plain t \<Longrightarrow> split_sep_acc w t = [w @ t]"
  by (induction w t rule: split_sep_acc.induct) (auto simp: plain_def)

lemma split_plain_sep:
  "plain t \<Longrightarrow> split_sep_acc w (t @ '', '' @ rest) = (w @ t) # split_sep_acc [] rest"
proof (induction t arbitrary: w)
  case Nil
  then show ?case by simp
next
  case (Cons c t)
  then have c: "c \<noteq> CHR '',''" and t: "plain t" by (auto simp: plain_def)
  obtain d cs where f: "t @ '', '' @ rest = d # cs" by (cases t) auto
  have "split_sep_acc w (c # d # cs) = split_sep_acc (w @ [c]) (d # cs)"
    using c by simp
  then show ?case using Cons.IH [OF t, of "w @ [c]"] f by simp
qed

lemma split_choice_join:
  "\<forall>t \<in> set c. plain t \<Longrightarrow> c \<noteq> [] \<Longrightarrow> split_choice (join c) = c"
proof (induction c rule: join.induct)
  case 1
  then show ?case by simp
next
  case (2 x)
  then show ?case by (simp add: split_choice_def split_plain_last)
next
  case (3 x y ys)
  then show ?case
    using split_plain_sep [of x "[]" "join (y # ys)"]
    by (simp add: split_choice_def)
qed

lemma split_choice_empty: "split_choice [] = [[]]"
  by (simp add: split_choice_def)

lemma spatial_invalid_split:
  assumes "\<forall>t \<in> set c. plain t"
    and "is_path_physically_invalid start goal obstacles c gs"
  shows "is_path_physically_invalid start goal obstacles (split_choice (join c)) gs"
proof (cases "c = []")
  case True
  have "DIR_VECTORS [] = None" by (simp add: DIR_VECTORS_def)
  then show ?thesis using True
    by (simp add: split_choice_empty is_path_physically_invalid_def simulate_path_def)
next
  case False
  then show ?thesis using assms by (simp add: split_choice_join)
qed

lemma keylock_invalid_split:
  assumes "\<forall>t \<in> set c. plain t"
    and "is_action_seq_invalid start goal obstacles keys doors c gs"
  shows "is_action_seq_invalid start goal obstacles keys doors (split_choice (join c)) gs"
proof (cases "c = []")
  case True
  have "DIR_VECTORS [] = None" by (simp add: DIR_VECTORS_def)
  then have "simulate_actions_loop goal obstacles keys doors gs start {} [[]] =
      simulate_actions_loop goal obstacles keys doors gs start {} []"
    by (simp add: startswith_def)
  then show ?thesis using True assms(2)
    by (simp add: split_choice_empty is_action_seq_invalid_def simulate_actions_def)
next
  case False
  then show ?thesis using assms by (simp add: split_choice_join)
qed

text \<open>The second invariant of the synthesizer state: every distractor, split into its
  steps, is rejected by the validator.\<close>

definition drep :: "(string list \<Rightarrow> bool) \<Rightarrow> dstate \<Rightarrow> bool" where
  "drep bad st = (\<forall>s \<in> set (fst st). bad (split_choice s))"

lemma drep_init: "drep bad ([], used)"
  by (simp add: drep_def)

lemma drep_take: "drep bad st \<Longrightarrow> \<forall>s \<in> set (take n (fst st)). bad (split_choice s)"
  unfolding drep_def by (auto dest: in_set_takeD)

lemma choice_in_set: "xs \<noteq> [] \<Longrightarrow> fst (choice xs r) \<in> set xs"
  by (simp add: choice_def randbelow_def)

lemma choices_n_subset: "xs \<noteq> [] \<Longrightarrow> set (fst (choices_n n xs r)) \<subseteq> set xs"
proof (induction n arbitrary: r)
  case 0
  then show ?case by simp
next
  case (Suc n)
  show ?case
    using choice_in_set [OF Suc.prems, of r] Suc.IH [OF Suc.prems, of "snd (choice xs r)"]
    by (auto simp: Let_def split: prod.splits)
qed

lemma all_dir_names_plain: "t \<in> set all_dir_names \<Longrightarrow> plain t"
  by (auto simp: all_dir_names_def plain_def)

lemma naive_axis_tokens: "set (naive_axis f b s e) \<subseteq> {f, b}"
proof (induction f b s e rule: naive_axis.induct)
  case (1 f b s e)
  show ?case
  proof (cases "s = e")
    case True
    then show ?thesis by (subst naive_axis.simps) (simp del: naive_axis.simps)
  next
    case False
    have "naive_axis f b s e =
        (if e > s then f else b) # naive_axis f b (s + (if e > s then 1 else -1)) e"
      using False by (subst naive_axis.simps) (simp del: naive_axis.simps)
    then show ?thesis using 1 [OF False] by (auto simp del: naive_axis.simps)
  qed
qed

lemma those_opposite_tokens:
  "those (map opposite xs) = Some ys \<Longrightarrow> set ys \<subseteq> set all_dir_names"
proof (induction xs arbitrary: ys)
  case Nil
  then show ?case by simp
next
  case (Cons x xs)
  from Cons.prems obtain y ys' where y: "opposite x = Some y"
    "those (map opposite xs) = Some ys'" "ys = y # ys'"
    by (auto split: option.splits)
  have "y \<in> set all_dir_names"
    using y(1) by (auto simp: opposite_def all_dir_names_def split: if_splits)
  then show ?case using Cons.IH [OF y(2)] y(3) by simp
qed

lemma spatial_try_add_drep:
  assumes "drep (\<lambda>c. is_path_physically_invalid (sp_start sc) (sp_goal sc) (sp_obstacles sc) c GRID_SIZE) st"
    and "\<forall>t \<in> set cand. plain t"
  shows "drep (\<lambda>c. is_path_physically_invalid (sp_start sc) (sp_goal sc) (sp_obstacles sc) c GRID_SIZE)
     (spatial_try_add sc cand st)"
  using assms spatial_invalid_split [OF assms(2)]
  unfolding drep_def spatial_try_add_def Let_def by auto

lemma spatial_random_walks_drep:
  "drep (\<lambda>c. is_path_physically_invalid (sp_start sc) (sp_goal sc) (sp_obstacles sc) c GRID_SIZE) st \<Longrightarrow>
   drep (\<lambda>c. is_path_physically_invalid (sp_start sc) (sp_goal sc) (sp_obstacles sc) c GRID_SIZE)
     (fst (spatial_random_walks n sc correct num st r))"
proof (induction n arbitrary: st r)
  case 0
  then show ?case by simp
next
  case (Suc n)
  obtain x1 x2 where c: "choices_n (length correct) all_dir_names r = (x1, x2)"
    by (cases "choices_n (length correct) all_dir_names r")
  have "all_dir_names \<noteq> []" by (simp add: all_dir_names_def)
  from choices_n_subset [OF this, of "length correct" r]
  have p: "\<forall>t \<in> set x1. plain t"
    using all_dir_names_plain c by auto
  show ?case
    using Suc.prems Suc.IH [OF spatial_try_add_drep [OF Suc.prems p], of x2] c
    by (simp add: Let_def)
qed

lemma spatial_mutations_drep:
  assumes "\<forall>t \<in> set correct. plain t"
  shows "drep (\<lambda>c. is_path_physically_invalid (sp_start sc) (sp_goal sc) (sp_obstacles sc) c GRID_SIZE) st \<Longrightarrow>
   drep (\<lambda>c. is_path_physically_invalid (sp_start sc) (sp_goal sc) (sp_obstacles sc) c GRID_SIZE)
     (fst (spatial_mutations n sc correct num st r))"
proof (induction n arbitrary: st r)
  case 0
  then show ?case by simp
next
  case (Suc n)
  obtain idx r1 where i: "randint 0 (int (length correct) - 1) r = (idx, r1)"
    by (cases "randint 0 (int (length correct) - 1) r")
  obtain d r2 where d: "choice all_dir_names r1 = (d, r2)"
    by (cases "choice all_dir_names r1")
  have "d \<in> set all_dir_names"
    using choice_in_set [of all_dir_names r1] d by (simp add: all_dir_names_def)
  then have "plain d" by (rule all_dir_names_plain)
  then have p: "\<forall>t \<in> set (correct[nat idx := d]). plain t"
    using assms set_update_subset_insert [of correct "nat idx" d] by auto
  show ?case
    using Suc.prems Suc.IH [OF spatial_try_add_drep [OF Suc.prems p]] i d
    by (simp add: Let_def)
qed

lemma spatial_generate_distractors_replay:
  assumes "spatial_generate_distractors sc r num = Inr (ds, r')" "path_directions sc = Some pd"
    and pl: "\<forall>t \<in> set pd. plain t"
  shows "\<forall>s \<in> set ds.
     is_path_physically_invalid (sp_start sc) (sp_goal sc) (sp_obstacles sc) (split_choice s) GRID_SIZE"
proof (cases "pd = []")
  case True
  then show ?thesis using assms by (simp add: spatial_generate_distractors_def)
next
  case False
  let ?bad = "\<lambda>c. is_path_physically_invalid (sp_start sc) (sp_goal sc) (sp_obstacles sc) c GRID_SIZE"
  let ?naive = "naive_axis ''down'' ''up'' (fst (sp_start sc)) (fst (sp_goal sc)) @
                   naive_axis ''right'' ''left'' (snd (sp_start sc)) (snd (sp_goal sc))"
  let ?st1 = "spatial_try_add sc ?naive ([], {join pd})"
  obtain st2 r2 where w: "spatial_random_walks 50 sc pd num ?st1 r = (st2, r2)"
    by (cases "spatial_random_walks 50 sc pd num ?st1 r")
  have np: "\<forall>t \<in> set ?naive. plain t"
    using naive_axis_tokens [of "''down''" "''up''" "fst (sp_start sc)" "fst (sp_goal sc)"]
      naive_axis_tokens [of "''right''" "''left''" "snd (sp_start sc)" "snd (sp_goal sc)"]
    by (auto simp: plain_def simp del: naive_axis.simps)
  have i1: "drep ?bad ?st1"
    by (rule spatial_try_add_drep [OF drep_init np])
  have i2: "drep ?bad st2"
    using spatial_random_walks_drep [OF i1, of 50 pd num r] w by simp
  from assms False w obtain st3 where
    st3: "(if length (fst st2) < num then
                     (case those (map opposite (rev pd)) of
                        None \<Rightarrow> Inl KeyError
                      | Some rev_flipped \<Rightarrow> Inr (spatial_try_add sc rev_flipped st2))
                   else Inr st2) = Inr st3"
    and res: "(let (st4, r4) =
                           (if length (fst st3) < num \<and> length pd \<ge> 2
                            then spatial_mutations 20 sc pd num st3 r2
                            else (st3, r2))
                     in Inr (take num (fst st4), r4)) = (Inr (ds, r') :: py_error + (string list \<times> rng))"
    by (auto simp: spatial_generate_distractors_def Let_def err_bind_def split: sum.splits)
  have i3: "drep ?bad st3"
  proof (cases "length (fst st2) < num")
    case False
    then show ?thesis using st3 i2 by simp
  next
    case True
    then obtain rf where rf: "those (map opposite (rev pd)) = Some rf"
      "st3 = spatial_try_add sc rf st2"
      using st3 by (auto split: option.splits)
    have "\<forall>t \<in> set rf. plain t"
      using those_opposite_tokens [OF rf(1)] all_dir_names_plain by blast
    then show ?thesis using rf(2) spatial_try_add_drep [OF i2] by simp
  qed
  obtain st4 r4 where m: "(if length (fst st3) < num \<and> length pd \<ge> 2
                            then spatial_mutations 20 sc pd num st3 r2
                            else (st3, r2)) = (st4, r4)"
    by (cases "(if length (fst st3) < num \<and> length pd \<ge> 2
                            then spatial_mutations 20 sc pd num st3 r2
                            else (st3, r2))")
  have i4: "drep ?bad st4"
    using m i3 spatial_mutations_drep [OF pl i3, of 20 num r2]
    by (auto split: if_splits)
  have "ds = take num (fst st4)"
    using res m by simp
  then show ?thesis using drep_take [OF i4, of num] by simp
qed

text \<open>The directions of a path are direction names.\<close>

lemma path_to_directions_tokens:
  "path_to_directions p = Inr ds \<Longrightarrow> set ds \<subseteq> set all_dir_names"
proof (induction p arbitrary: ds rule: path_to_directions.induct)
  case (1 p q rest)
  from "1.prems" obtain d ds' where d: "DIR_NAMES (fst q - fst p, snd q - snd p) = Some d"
    "path_to_directions (q # rest) = Inr ds'" "ds = d # ds'"
    by (auto simp: err_bind_def split: option.splits sum.splits)
  have "d \<in> set all_dir_names"
    using d(1) by (auto simp: DIR_NAMES_def all_dir_names_def split: if_splits)
  then show ?case using "1.IH" [OF d(1) d(2)] d(3) by simp
qed simp_all

lemma spatial_generate_scenario_tokens:
  assumes "spatial_generate_scenario r0 = Inr (Some sc, r1)"
  shows "\<exists>pd. path_directions sc = Some pd \<and> (\<forall>t \<in> set pd. plain t)"
proof -
  from assms obtain p ds where "path_to_directions p = Inr ds" "path_directions sc = Some ds"
    by (auto simp: spatial_generate_scenario_def Let_def err_bind_def
        split: prod.splits option.splits sum.splits)
  then show ?thesis
    using path_to_directions_tokens all_dir_names_plain by blast
qed

lemma keylock_try_add_drep:
  assumes "drep (\<lambda>c. is_action_seq_invalid (kl_start sc) (kl_goal sc) (kl_obstacles sc)
            (map_of (kl_keys sc)) (map_of (kl_doors sc)) c GRID_SIZE) st"
    and "\<forall>t \<in> set cand. plain t"
  shows "drep (\<lambda>c. is_action_seq_invalid (kl_start sc) (kl_goal sc) (kl_obstacles sc)
            (map_of (kl_keys sc)) (map_of (kl_doors sc)) c GRID_SIZE)
     (keylock_try_add sc cand st)"
  using assms keylock_invalid_split [OF assms(2)]
  unfolding drep_def keylock_try_add_def Let_def by auto

lemma plain_append: "plain (a @ b) = (plain a \<and> plain b)"
  by (auto simp: plain_def)

lemma other_color_plain: "plain (other_color c)"
  by (simp add: other_color_def plain_def)

lemma plain_Cons: "plain (c # t) = (c \<noteq> CHR '','' \<and> plain t)"
  by (auto simp: plain_def)

lemma swap_colors_plain:
  "\<forall>t \<in> set correct. plain t \<Longrightarrow> \<forall>t \<in> set (swap_colors correct). plain t"
  by (auto simp: swap_colors_def plain_Cons other_color_plain)

lemma keylock_mutations_drep:
  assumes "\<forall>t \<in> set correct. plain t"
  shows "drep (\<lambda>c. is_action_seq_invalid (kl_start sc) (kl_goal sc) (kl_obstacles sc)
            (map_of (kl_keys sc)) (map_of (kl_doors sc)) c GRID_SIZE) st \<Longrightarrow>
   drep (\<lambda>c. is_action_seq_invalid (kl_start sc) (kl_goal sc) (kl_obstacles sc)
            (map_of (kl_keys sc)) (map_of (kl_doors sc)) c GRID_SIZE)
     (fst (keylock_mutations n sc correct num st r))"
proof (induction n arbitrary: st r)
  case 0
  then show ?case by simp
next
  case (Suc n)
  let ?mi = "filter (\<lambda>i. DIR_VECTORS (correct ! i) \<noteq> None) [0..<length correct]"
  obtain idx r1 where i: "choice ?mi r = (idx, r1)" by (cases "choice ?mi r")
  let ?dirs = "remove1 (correct ! idx) [''up'', ''down'', ''left'', ''right'']"
  obtain d r2 where d: "choice ?dirs r1 = (d, r2)" by (cases "choice ?dirs r1")
  have ne: "?dirs \<noteq> []" by auto
  have "d \<in> set ?dirs" using choice_in_set [OF ne, of r1] d by simp
  then have "d \<in> set [''up'', ''down'', ''left'', ''right'']"
    using set_remove1_subset by fast
  then have "plain d" by (auto simp: plain_def)
  then have p: "\<forall>t \<in> set (correct[idx := d]). plain t"
    using assms set_update_subset_insert [of correct idx d] by auto
  show ?case
    using Suc.prems Suc.IH [OF Suc.prems, of r]
      Suc.IH [OF keylock_try_add_drep [OF Suc.prems p], of r2] i d
    by (simp add: Let_def)
qed

lemma random_actions_loop_plain:
  assumes "\<forall>c \<in> snd ` set (kl_keys sc). plain c" "\<forall>c \<in> snd ` set (kl_doors sc). plain c"
  shows "\<forall>t \<in> set (fst (random_actions_loop n sc r)). plain t"
proof (induction n arbitrary: r)
  case 0
  then show ?case by simp
next
  case (Suc n)
  obtain b1 r1 where b1: "random_lt_percent 15 r = (b1, r1)"
    by (cases "random_lt_percent 15 r")
  obtain b2 r2 where b2: "random_lt_percent 10 r1 = (b2, r2)"
    by (cases "random_lt_percent 10 r1")
  let ?pick = "(if b1 \<and> kl_keys sc \<noteq> [] then
               (let (color, r2) = choice (map snd (kl_keys sc)) r1 in (''pick_up_'' @ color, r2))
             else
               (let (b2, r2) = random_lt_percent 10 r1 in
                if b2 \<and> kl_doors sc \<noteq> [] then
                  (let (color, r3) = choice (map snd (kl_doors sc)) r2 in (''unlock_'' @ color, r3))
                else choice [''up'', ''down'', ''left'', ''right''] r2))"
  obtain a r' where a: "?pick = (a, r')" by (cases ?pick)
  have "plain a"
  proof (cases "b1 \<and> kl_keys sc \<noteq> []")
    case True
    then have "a = ''pick_up_'' @ fst (choice (map snd (kl_keys sc)) r1)"
      using a by (auto simp: Let_def split: prod.splits)
    moreover have "fst (choice (map snd (kl_keys sc)) r1) \<in> set (map snd (kl_keys sc))"
      using True by (intro choice_in_set) simp
    ultimately show ?thesis using assms(1) by (auto simp: plain_Cons)
  next
    case False
    show ?thesis
    proof (cases "b2 \<and> kl_doors sc \<noteq> []")
      case True
      then have "a = ''unlock_'' @ fst (choice (map snd (kl_doors sc)) r2)"
        using a False b2 by (auto simp: Let_def split: prod.splits)
      moreover have "fst (choice (map snd (kl_doors sc)) r2) \<in> set (map snd (kl_doors sc))"
        using True by (intro choice_in_set) simp
      ultimately show ?thesis using assms(2) by (auto simp: plain_Cons)
    next
      case F2: False
      then have "a = fst (choice [''up'', ''down'', ''left'', ''right''] r2)"
        using a False b2 by (auto simp: Let_def split: prod.splits)
      moreover have "fst (choice [''up'', ''down'', ''left'', ''right''] r2) \<in>
          set [''up'', ''down'', ''left'', ''right'']"
        by (intro choice_in_set) simp
      ultimately show ?thesis by (auto simp: plain_def)
    qed
  qed
  then show ?case
    using Suc.IH [of r'] a b1 by (simp add: Let_def split: prod.splits)
qed

lemma keylock_random_walks_drep:
  assumes "\<forall>c \<in> snd ` set (kl_keys sc). plain c" "\<forall>c \<in> snd ` set (kl_doors sc). plain c"
  shows "drep (\<lambda>c. is_action_seq_invalid (kl_start sc) (kl_goal sc) (kl_obstacles sc)
            (map_of (kl_keys sc)) (map_of (kl_doors sc)) c GRID_SIZE) st \<Longrightarrow>
   drep (\<lambda>c. is_action_seq_invalid (kl_start sc) (kl_goal sc) (kl_obstacles sc)
            (map_of (kl_keys sc)) (map_of (kl_doors sc)) c GRID_SIZE)
     (fst (keylock_random_walks n sc correct num st r))"
proof (induction n arbitrary: st r)
  case 0
  then show ?case by simp
next
  case (Suc n)
  obtain k r1 where k: "randint (-2) 2 r = (k, r1)" by (cases "randint (-2) 2 r")
  obtain ra r2 where ra:
    "random_actions_loop (nat (max 3 (int (length correct) - 1 + k))) sc r1 = (ra, r2)"
    by (cases "random_actions_loop (nat (max 3 (int (length correct) - 1 + k))) sc r1")
  have p: "\<forall>t \<in> set ra. plain t"
    using random_actions_loop_plain [OF assms,
        of "nat (max 3 (int (length correct) - 1 + k))" r1] ra by simp
  show ?case
    using Suc.prems Suc.IH [OF keylock_try_add_drep [OF Suc.prems p], of r2] k ra
    by (simp add: Let_def)
qed

lemma keylock_generate_distractors_replay:
  assumes "keylock_generate_distractors sc r num = (ds, r')" "solution_actions sc = Some correct"
    and pl: "\<forall>t \<in> set correct. plain t"
    and ck: "\<forall>c \<in> snd ` set (kl_keys sc). plain c" and cd: "\<forall>c \<in> snd ` set (kl_doors sc). plain c"
  shows "\<forall>s \<in> set ds.
        is_action_seq_invalid (kl_start sc) (kl_goal sc) (kl_obstacles sc)
            (map_of (kl_keys sc)) (map_of (kl_doors sc)) (split_choice s) GRID_SIZE"
proof (cases "correct = []")
  case True
  then show ?thesis using assms by (simp add: keylock_generate_distractors_def)
next
  case False
  let ?bad = "\<lambda>c. is_action_seq_invalid (kl_start sc) (kl_goal sc) (kl_obstacles sc)
            (map_of (kl_keys sc)) (map_of (kl_doors sc)) c GRID_SIZE"
  let ?st1 = "keylock_try_add sc (filter (\<lambda>a. \<not> startswith a ''pick_up_'') correct) ([], {join correct})"
  let ?st2 = "keylock_try_add sc (filter (\<lambda>a. \<not> startswith a ''unlock_'') correct) ?st1"
  let ?st3 = "(if length (kl_keys sc) > 0
                        then keylock_try_add sc (swap_colors correct) ?st2 else ?st2)"
  obtain st4 r4 where m: "keylock_mutations 100 sc correct num ?st3 r = (st4, r4)"
    by (cases "keylock_mutations 100 sc correct num ?st3 r")
  obtain st5 r5 where w: "keylock_random_walks 100 sc correct num st4 r4 = (st5, r5)"
    by (cases "keylock_random_walks 100 sc correct num st4 r4")
  have i1: "drep ?bad ?st1"
    using pl by (intro keylock_try_add_drep drep_init) simp
  have i2: "drep ?bad ?st2"
    using pl by (intro keylock_try_add_drep i1) simp
  have i3: "drep ?bad ?st3"
  proof (cases "length (kl_keys sc) > 0")
    case True
    have "drep ?bad (keylock_try_add sc (swap_colors correct) ?st2)"
      by (rule keylock_try_add_drep [OF i2 swap_colors_plain [OF pl]])
    then show ?thesis using True by (simp only: if_True)
  next
    case False
    then show ?thesis using i2 by (simp only: if_False)
  qed
  have i4: "drep ?bad st4"
    using keylock_mutations_drep [OF pl i3, of 100 num r] m by simp
  have i5: "drep ?bad st5"
    using keylock_random_walks_drep [OF ck cd i4, of 100 correct num r4] w by simp
  have "ds = take num (fst st5)"
    using assms(1,2) False m w
    by (simp add: keylock_generate_distractors_def Let_def del: keylock_mutations.simps
        keylock_random_walks.simps)
  then show ?thesis using drep_take [OF i5, of num] by simp
qed

lemma dir_name_of_plain: "plain (dir_name_of d)"
  by (auto simp: dir_name_of_def DIR_NAMES_def plain_def split: option.splits if_splits)

lemma bfs_expand_plain:
  assumes k: "\<forall>c \<in> ran keys. plain c" and d: "\<forall>c \<in> ran doors. plain c"
    and e: "\<forall>t \<in> set (snd (snd e)). plain t"
  shows "bfs_added (\<lambda>n. \<forall>t \<in> set (snd (snd n)). plain t) rest visited
           (bfs_expand obstacles keys doors gs e (rest, visited))"
  unfolding bfs_expand_def
proof (rule bfs_fold_move_added [OF bfs_try_pickup_added [OF bfs_added_init]])
  fix color
  assume "keys (fst (fst e)) = Some color"
  then have "color \<in> ran keys" by (rule ranI)
  then have "plain color" using k by blast
  then show "\<forall>t \<in> set (snd (snd ((fst (fst e), insert color (snd (fst e))),
        fst (snd e) @ [fst (fst e)], snd (snd e) @ [pick_up_token color]))). plain t"
    using e by (auto simp: pick_up_token_def plain_Cons)
next
  fix dv c
  assume "doors (add_vec (fst (fst e)) dv) = Some c"
  then have "c \<in> ran doors" by (rule ranI)
  then have "plain c" using d by blast
  then show "\<forall>t \<in> set (snd (snd ((add_vec (fst (fst e)) dv, snd (fst e)),
        fst (snd e) @ [add_vec (fst (fst e)) dv],
        snd (snd e) @ [unlock_token c, dir_name_of dv]))). plain t"
    using e dir_name_of_plain by (auto simp: unlock_token_def plain_Cons)
next
  fix dv
  show "\<forall>t \<in> set (snd (snd ((add_vec (fst (fst e)) dv, snd (fst e)),
        fst (snd e) @ [add_vec (fst (fst e)) dv], snd (snd e) @ [dir_name_of dv]))). plain t"
    using e dir_name_of_plain by auto
qed

lemma bfs_loop_plain:
  assumes k: "\<forall>c \<in> ran keys. plain c" and d: "\<forall>c \<in> ran doors. plain c"
  shows "\<forall>e \<in> set queue. \<forall>t \<in> set (snd (snd e)). plain t \<Longrightarrow>
     bfs_loop goal obstacles keys doors gs queue visited = Some (path, acts) \<Longrightarrow>
     \<forall>t \<in> set acts. plain t"
  using k d
proof (induction goal obstacles keys doors gs queue visited rule: bfs_loop.induct)
  case (1 goal obstacles keys doors gs queue visited)
  show ?case
  proof (cases queue)
    case Nil
    then show ?thesis using "1.prems"(2) by (simp add: bfs_loop.simps)
  next
    case (Cons e rest)
    obtain queue' visited' where ex:
      "bfs_expand obstacles keys doors gs e (rest, visited) = (queue', visited')"
      by (cases "bfs_expand obstacles keys doors gs e (rest, visited)")
    have pe: "\<forall>t \<in> set (snd (snd e)). plain t" using "1.prems"(1) Cons by simp
    show ?thesis
    proof (cases "fst (fst e) = goal")
      case True
      then have "acts = snd (snd e)"
        using "1.prems"(2) Cons ex by (simp add: bfs_loop.simps)
      then show ?thesis using pe by simp
    next
      case False
      have res: "bfs_loop goal obstacles keys doors gs queue' visited' = Some (path, acts)"
        using "1.prems"(2) Cons ex False by (simp add: bfs_loop.simps)
      from bfs_expand_plain [OF "1.prems"(3,4) pe, of rest visited obstacles gs] ex
      obtain new where n: "queue' = rest @ new" "\<forall>n \<in> set new. \<forall>t \<in> set (snd (snd n)). plain t"
        by (auto simp: bfs_added_def)
      have q: "\<forall>e \<in> set queue'. \<forall>t \<in> set (snd (snd e)). plain t"
        using n "1.prems"(1) Cons by auto
      show ?thesis
        by (rule "1.IH" [OF Cons refl ex [symmetric] False q res "1.prems"(3,4)])
    qed
  qed
qed

lemma bfs_with_keys_plain:
  assumes "\<forall>c \<in> ran keys. plain c" "\<forall>c \<in> ran doors. plain c"
    and "bfs_with_keys start goal obstacles keys doors gs = Some (path, acts)"
  shows "\<forall>t \<in> set acts. plain t"
  using bfs_loop_plain [OF assms(1,2), of "[((start, {}), [start], [])]" goal obstacles gs
      "{(start, {})}" path acts] assms(3)
  by (simp add: bfs_with_keys_def)

lemma COLORS_plain: "c \<in> set COLORS \<Longrightarrow> plain c"
  by (auto simp: COLORS_def plain_def)

lemma keylock_place_colors:
  assumes "keylock_place cells r = ((start, goal, obstacles, keys, doors), r2)"
  shows "snd ` set keys \<subseteq> set COLORS \<and> snd ` set doors \<subseteq> set COLORS"
proof -
  have "fst (choice [1, 2 :: nat] r) \<in> set [1, 2]"
    by (intro choice_in_set) simp
  then consider "fst (choice [1, 2 :: nat] r) = 1" | "fst (choice [1, 2 :: nat] r) = 2"
    by auto
  then show ?thesis
  proof cases
    case 1
    then show ?thesis using assms
      by (auto simp: keylock_place_def Let_def place_pair_def COLORS_def split: prod.splits)
  next
    case 2
    have u: "[0..<2] = [0, Suc 0]" by (simp add: upt_rec)
    show ?thesis using assms 2
      by (auto simp: keylock_place_def Let_def place_pair_def COLORS_def u
          split: prod.splits if_splits)
  qed
qed

lemma keylock_generate_scenario_tokens:
  assumes "keylock_generate_scenario r0 = (Some sc, r1)"
  shows "(\<forall>c \<in> snd ` set (kl_keys sc). plain c) \<and> (\<forall>c \<in> snd ` set (kl_doors sc). plain c) \<and>
     (\<exists>acts. solution_actions sc = Some acts \<and> (\<forall>t \<in> set acts. plain t))"
proof -
  obtain cells ra where sh: "shuffle all_cells r0 = (cells, ra)" by (cases "shuffle all_cells r0")
  obtain start goal obstacles keys doors r2 where
    pl: "keylock_place cells ra = ((start, goal, obstacles, keys, doors), r2)"
    by (cases "keylock_place cells ra") auto
  from assms obtain path acts where
    b: "bfs_with_keys start goal obstacles (map_of keys) (map_of doors) GRID_SIZE = Some (path, acts)"
    and sc: "sc = \<lparr>kl_grid_size = GRID_SIZE, kl_start = start, kl_goal = goal,
                 kl_obstacles = obstacles, kl_keys = keys, kl_doors = doors,
                 solution_actions = Some acts, solution_path = Some path\<rparr>"
    by (auto simp: keylock_generate_scenario_def sh pl Let_def split: if_splits option.splits)
  note c = keylock_place_colors [OF pl]
  have k: "\<forall>c \<in> snd ` set keys. plain c" and d: "\<forall>c \<in> snd ` set doors. plain c"
    using c COLORS_plain by blast+
  have rk: "\<forall>c \<in> ran (map_of keys). plain c"
  proof
    fix c assume "c \<in> ran (map_of keys)"
    then obtain p where "map_of keys p = Some c" by (auto simp: ran_def)
    then have "(p, c) \<in> set keys" by (rule map_of_SomeD)
    then have "c \<in> snd ` set keys" by force
    then show "plain c" using k by blast
  qed
  have rd: "\<forall>c \<in> ran (map_of doors). plain c"
  proof
    fix c assume "c \<in> ran (map_of doors)"
    then obtain p where "map_of doors p = Some c" by (auto simp: ran_def)
    then have "(p, c) \<in> set doors" by (rule map_of_SomeD)
    then have "c \<in> snd ` set doors" by force
    then show "plain c" using d by blast
  qed
  show ?thesis
    using k d bfs_with_keys_plain [OF rk rd b] by (simp add: sc)
qed

text \<open>Draw sequences on which the samplers draw the two example instances.\<close>

definition example_grid_draws :: rng where
  "example_grid_draws = periodic [0, 2, 6, 12, 18]"

definition example_keylock_draws :: rng where
  "example_keylock_draws =
     periodic [23, 22, 21, 20, 19, 17, 16, 15, 14, 13, 12, 11, 10, 9, 8, 7, 6, 5, 4, 5, 4, 2, 1,
               1, 0]"

lemma example_grid_drawn:
  "\<exists>r1. spatial_generate_scenario example_grid_draws = Inr (Some example_grid_scenario, r1)"
proof -
  have "case spatial_generate_scenario example_grid_draws of
          Inl e \<Rightarrow> False | Inr (s, r1) \<Rightarrow> s = Some example_grid_scenario"
    unfolding example_grid_draws_def by code_simp
  then show ?thesis by (auto split: sum.splits)
qed

lemma example_keylock_drawn:
  "\<exists>r1. keylock_generate_scenario example_keylock_draws = (Some example_keylock_scenario, r1)"
proof -
  have "fst (keylock_generate_scenario example_keylock_draws) = Some example_keylock_scenario"
    unfolding example_keylock_draws_def by code_simp
  then show ?thesis by (cases "keylock_generate_scenario example_keylock_draws") auto
qed

text \<open>
  Claim C1. In a record that the spatial or the key-lock assembler builds from an
  instance its sampler drew, every choice other than the gold one, split into its steps and
  replayed by the validator on the record's instance, is rejected: the replay hits a wall,
  leaves the grid, is blocked by a door, uses a key that is not there or not held, or ends
  off the goal. A candidate that the validator accepts leaves the list of distractors and
  the set of used strings as they were.
\<close>

theorem distractors_replay_invalid:
  "(spatial_generate_scenario r0 = Inr (Some scenario, r1) \<and>
    spatial_scenario_to_eval_doc render_prompt sha256_hex scenario r did = Inr (doc, r') \<longrightarrow>
      (\<forall>i < length (choices doc). i \<noteq> gold doc \<longrightarrow>
         is_path_physically_invalid (sp_start scenario) (sp_goal scenario)
           (sp_obstacles scenario) (split_choice (choices doc ! i)) GRID_SIZE \<and>
         (let res = simulate_path (sp_start scenario) (sp_goal scenario)
                      (sp_obstacles scenario) (split_choice (choices doc ! i)) GRID_SIZE
          in hit_wall res \<or> out_of_bounds res \<or> \<not> reached_goal res))) \<and>
   (keylock_generate_scenario kr0 = (Some kscenario, kr1) \<and>
    keylock_scenario_to_eval_doc krender kscenario kr kdid = Inr (Some kdoc, kr') \<longrightarrow>
      (\<forall>i < length (choices kdoc). i \<noteq> gold kdoc \<longrightarrow>
         is_action_seq_invalid (kl_start kscenario) (kl_goal kscenario) (kl_obstacles kscenario)
           (map_of (kl_keys kscenario)) (map_of (kl_doors kscenario))
           (split_choice (choices kdoc ! i)) GRID_SIZE \<and>
         (let res = simulate_actions (kl_start kscenario) (kl_goal kscenario)
                      (kl_obstacles kscenario) (map_of (kl_keys kscenario))
                      (map_of (kl_doors kscenario)) (split_choice (choices kdoc ! i)) GRID_SIZE
          in kl_hit_wall res \<or> kl_out_of_bounds res \<or> locked_door_blocked res \<or>
             invalid_pickup res \<or> invalid_unlock res \<or> \<not> kl_reached_goal res))) \<and>
   (\<not> is_path_physically_invalid (sp_start scenario) (sp_goal scenario)
         (sp_obstacles scenario) c GRID_SIZE \<longrightarrow>
      spatial_try_add scenario c st = st) \<and>
   (\<not> is_action_seq_invalid (kl_start kscenario) (kl_goal kscenario) (kl_obstacles kscenario)
         (map_of (kl_keys kscenario)) (map_of (kl_doors kscenario)) c GRID_SIZE \<longrightarrow>
      keylock_try_add kscenario c st = st)"
proof (intro conjI impI allI)
  fix i
  assume h: "spatial_generate_scenario r0 = Inr (Some scenario, r1) \<and>
    spatial_scenario_to_eval_doc render_prompt sha256_hex scenario r did = Inr (doc, r')"
    and i: "i < length (choices doc)" "i \<noteq> gold doc"
  from spatial_generate_scenario_tokens [of r0 scenario r1] h obtain pd where
    pd: "path_directions scenario = Some pd" and pl: "\<forall>t \<in> set pd. plain t" by blast
  from spatial_doc_choices [of render_prompt sha256_hex scenario r did doc r'] h pd
  obtain ds r2 where
    g: "spatial_generate_distractors scenario r 3 = Inr (ds, r2)"
    and m: "\<forall>i < length (choices doc). i \<noteq> gold doc \<longrightarrow> choices doc ! i \<in> set ds"
    by auto
  have "choices doc ! i \<in> set ds" using m i by blast
  then show inv: "is_path_physically_invalid (sp_start scenario) (sp_goal scenario)
           (sp_obstacles scenario) (split_choice (choices doc ! i)) GRID_SIZE"
    using spatial_generate_distractors_replay [OF g pd pl] by blast
  then show "let res = simulate_path (sp_start scenario) (sp_goal scenario)
                      (sp_obstacles scenario) (split_choice (choices doc ! i)) GRID_SIZE
          in hit_wall res \<or> out_of_bounds res \<or> \<not> reached_goal res"
    unfolding is_path_physically_invalid_def Let_def by (auto split: if_splits)
next
  fix i
  assume h: "keylock_generate_scenario kr0 = (Some kscenario, kr1) \<and>
    keylock_scenario_to_eval_doc krender kscenario kr kdid = Inr (Some kdoc, kr')"
    and i: "i < length (choices kdoc)" "i \<noteq> gold kdoc"
  from keylock_generate_scenario_tokens [of kr0 kscenario kr1] h obtain correct where
    co: "solution_actions kscenario = Some correct" and pl: "\<forall>t \<in> set correct. plain t"
    and ck: "\<forall>c \<in> snd ` set (kl_keys kscenario). plain c"
    and cd: "\<forall>c \<in> snd ` set (kl_doors kscenario). plain c"
    by blast
  from keylock_doc_choices [of krender kscenario kr kdid kdoc kr'] h co
  obtain ds r2 where
    g: "keylock_generate_distractors kscenario kr 3 = (ds, r2)"
    and m: "\<forall>i < length (choices kdoc). i \<noteq> gold kdoc \<longrightarrow> choices kdoc ! i \<in> set ds"
    by auto
  have "choices kdoc ! i \<in> set ds" using m i by blast
  then show inv: "is_action_seq_invalid (kl_start kscenario) (kl_goal kscenario)
           (kl_obstacles kscenario) (map_of (kl_keys kscenario)) (map_of (kl_doors kscenario))
           (split_choice (choices kdoc ! i)) GRID_SIZE"
    using keylock_generate_distractors_replay [OF g co pl ck cd] by blast
  then show "let res = simulate_actions (kl_start kscenario) (kl_goal kscenario)
                      (kl_obstacles kscenario) (map_of (kl_keys kscenario))
                      (map_of (kl_doors kscenario)) (split_choice (choices kdoc ! i)) GRID_SIZE
          in kl_hit_wall res \<or> kl_out_of_bounds res \<or> locked_door_blocked res \<or>
             invalid_pickup res \<or> invalid_unlock res \<or> \<not> kl_reached_goal res"
    unfolding is_action_seq_invalid_def Let_def by (auto split: if_splits)
next
  assume "\<not> is_path_physically_invalid (sp_start scenario) (sp_goal scenario)
         (sp_obstacles scenario) c GRID_SIZE"
  then show "spatial_try_add scenario c st = st"
    by (simp add: spatial_try_add_def Let_def)
next
  assume "\<not> is_action_seq_invalid (kl_start kscenario) (kl_goal kscenario) (kl_obstacles kscenario)
         (map_of (kl_keys kscenario)) (map_of (kl_doors kscenario)) c GRID_SIZE"
  then show "keylock_try_add kscenario c st = st"
    by (simp add: keylock_try_add_def Let_def)
qed

theorem distractors_replay_invalid_witness:
  "(\<exists>r1. spatial_generate_scenario example_grid_draws = Inr (Some example_grid_scenario, r1)) \<and>
   (\<exists>r'. spatial_scenario_to_eval_doc (\<lambda>sc. ''prompt'') (\<lambda>s. s) example_grid_scenario
          (periodic [1, 1, 0, 0, 2, 2, 1, 0, 0]) 7 =
        Inr (\<lparr>query = ''prompt'',
              choices = [''left, left'', ''up, up'', ''right, right'', ''down, down''],
              gold = 2, doc_id = 7, fingerprint = ''prompt'', shortest_path_length = 2\<rparr>, r')) \<and>
   split_choice ''down, down'' = [''down'', ''down''] \<and>
   is_path_physically_invalid (0, 0) (0, 2) {(1, 1), (2, 2), (3, 3)}
     (split_choice ''down, down'') GRID_SIZE \<and>
   (\<exists>r1. keylock_generate_scenario example_keylock_draws = (Some example_keylock_scenario, r1)) \<and>
   (\<exists>r'. keylock_scenario_to_eval_doc (\<lambda>sc. ''prompt'') example_keylock_scenario
          (periodic [0, 1, 2, 3, 1, 0, 1]) 7 =
        Inr (Some \<lparr>query = ''prompt'',
              choices = [''right, pick_up_red, unlock_red, right, right'',
                         ''right, pick_up_blue, unlock_blue, right, right'',
                         ''right, unlock_red, right, right'',
                         ''down, pick_up_red, unlock_red, right, right''],
              gold = 0, doc_id = 7\<rparr>, r')) \<and>
   split_choice ''right, unlock_red, right, right'' = [''right'', ''unlock_red'', ''right'', ''right''] \<and>
   is_action_seq_invalid (0, 0) (0, 3) {(3, 3), (4, 4)} (map_of [((0, 1), ''red'')])
     (map_of [((0, 2), ''red'')]) (split_choice ''right, unlock_red, right, right'') GRID_SIZE \<and>
   \<not> is_action_seq_invalid (0, 0) (0, 3) {(3, 3), (4, 4)} (map_of [((0, 1), ''red'')])
        (map_of [((0, 2), ''red'')]) [''right'', ''pick_up_red'', ''right'', ''right''] GRID_SIZE \<and>
   keylock_try_add example_keylock_scenario [''right'', ''pick_up_red'', ''right'', ''right'']
     ([], {''x''}) = ([], {''x''})"
proof -
  let ?D = "\<lparr>query = ''prompt'',
              choices = [''left, left'', ''up, up'', ''right, right'', ''down, down''],
              gold = 2, doc_id = 7, fingerprint = ''prompt'', shortest_path_length = 2\<rparr>"
  let ?K = "\<lparr>query = ''prompt'',
              choices = [''right, pick_up_red, unlock_red, right, right'',
                         ''right, pick_up_blue, unlock_blue, right, right'',
                         ''right, unlock_red, right, right'',
                         ''down, pick_up_red, unlock_red, right, right''],
              gold = 0, doc_id = 7\<rparr>"
  let ?c = "[''right'', ''pick_up_red'', ''right'', ''right'']"
  from example_grid_drawn obtain r1 where
    s: "spatial_generate_scenario example_grid_draws = Inr (Some example_grid_scenario, r1)"
    by blast
  from example_keylock_drawn obtain kr1 where
    ks: "keylock_generate_scenario example_keylock_draws = (Some example_keylock_scenario, kr1)"
    by blast
  from example_grid_doc obtain r' where
    e: "spatial_scenario_to_eval_doc (\<lambda>sc. ''prompt'') (\<lambda>s. s) example_grid_scenario
          (periodic [1, 1, 0, 0, 2, 2, 1, 0, 0]) 7 = Inr (?D, r')" by blast
  from example_keylock_doc obtain kr' where
    k: "keylock_scenario_to_eval_doc (\<lambda>sc. ''prompt'') example_keylock_scenario
          (periodic [0, 1, 2, 3, 1, 0, 1]) 7 = Inr (Some ?K, kr')" by blast
  have v: "\<not> is_action_seq_invalid (kl_start example_keylock_scenario)
        (kl_goal example_keylock_scenario) (kl_obstacles example_keylock_scenario)
        (map_of (kl_keys example_keylock_scenario)) (map_of (kl_doors example_keylock_scenario))
        ?c GRID_SIZE"
    by code_simp
  note th = distractors_replay_invalid [of example_grid_draws example_grid_scenario r1
      "\<lambda>sc. ''prompt''" "\<lambda>s. s"
      "periodic [1, 1, 0, 0, 2, 2, 1, 0, 0]" 7 ?D r' example_keylock_draws
      example_keylock_scenario kr1 "\<lambda>sc. ''prompt''"
      "periodic [0, 1, 2, 3, 1, 0, 1]" 7 ?K kr' ?c "([], {''x''})"]
  have a: "\<forall>i < length (choices ?D). i \<noteq> gold ?D \<longrightarrow>
         is_path_physically_invalid (sp_start example_grid_scenario)
           (sp_goal example_grid_scenario) (sp_obstacles example_grid_scenario)
           (split_choice (choices ?D ! i)) GRID_SIZE \<and>
         (let res = simulate_path (sp_start example_grid_scenario)
                      (sp_goal example_grid_scenario)
                      (sp_obstacles example_grid_scenario) (split_choice (choices ?D ! i)) GRID_SIZE
          in hit_wall res \<or> out_of_bounds res \<or> \<not> reached_goal res)"
    using th s e by blast
  have b: "\<forall>i < length (choices ?K). i \<noteq> gold ?K \<longrightarrow>
         is_action_seq_invalid (kl_start example_keylock_scenario)
           (kl_goal example_keylock_scenario) (kl_obstacles example_keylock_scenario)
           (map_of (kl_keys example_keylock_scenario))
           (map_of (kl_doors example_keylock_scenario))
           (split_choice (choices ?K ! i)) GRID_SIZE \<and>
         (let res = simulate_actions (kl_start example_keylock_scenario)
                      (kl_goal example_keylock_scenario)
                      (kl_obstacles example_keylock_scenario)
                      (map_of (kl_keys example_keylock_scenario))
                      (map_of (kl_doors example_keylock_scenario))
                      (split_choice (choices ?K ! i)) GRID_SIZE
          in kl_hit_wall res \<or> kl_out_of_bounds res \<or> locked_door_blocked res \<or>
             invalid_pickup res \<or> invalid_unlock res \<or> \<not> kl_reached_goal res)"
    using th ks k by blast
  have d: "keylock_try_add example_keylock_scenario ?c ([], {''x''}) = ([], {''x''})"
    using th v by blast
  from a [rule_format, of 3] have a3:
    "is_path_physically_invalid (0, 0) (0, 2) {(1, 1), (2, 2), (3, 3)}
       (split_choice ''down, down'') GRID_SIZE"
    by (simp add: example_grid_scenario_def)
  from b [rule_format, of 2] have b2:
    "is_action_seq_invalid (0, 0) (0, 3) {(3, 3), (4, 4)} (map_of [((0, 1), ''red'')])
        (map_of [((0, 2), ''red'')]) (split_choice ''right, unlock_red, right, right'') GRID_SIZE"
    by (simp add: example_keylock_scenario_def del: map_of.simps)
  have v': "\<not> is_action_seq_invalid (0, 0) (0, 3) {(3, 3), (4, 4)} (map_of [((0, 1), ''red'')])
        (map_of [((0, 2), ''red'')]) ?c GRID_SIZE"
    using v by (simp add: example_keylock_scenario_def del: map_of.simps)
  have s1: "split_choice ''down, down'' = [''down'', ''down'']"
    by (simp add: split_choice_def)
  have s2: "split_choice ''right, unlock_red, right, right'' =
      [''right'', ''unlock_red'', ''right'', ''right'']"
    by (simp add: split_choice_def)
  show ?thesis
    using example_grid_drawn example_grid_doc s1 a3 example_keylock_drawn example_keylock_doc
      s2 b2 v' d
    by (intro conjI)
qed

section \<open>The spatial assembler emits a record with fewer than three distractors\<close>

text \<open>
  A draw sequence for one pass of the spatial \<^verbatim>\<open>main\<close>: the five draws of \<^verbatim>\<open>rng.sample\<close>
  select the cells A1, A2, A4, B3 and B4, and every later draw is 3, so that every
  \<^verbatim>\<open>rng.choice(all_dir_names)\<close> returns \<^verbatim>\<open>right\<close>.
\<close>

definition shortage_draws :: rng where
  "shortage_draws = (\<lambda>i. if i < 5 then [0, 1, 3, 7, 8] ! i else 3)"

definition shortage_scenario :: GridScenario where
  "shortage_scenario =
     \<lparr>sp_grid_size = 5, sp_start = (0, 0), sp_goal = (0, 1),
      sp_obstacles = {(0, 3), (1, 2), (1, 3)},
      shortest_path = Some [(0, 0), (0, 1)],
      path_directions = Some [''right'']\<rparr>"

text \<open>
  Claim C7 fails on the spatial generator. The sampler draws an instance whose goal is next
  to its start; the path is the one step \<^verbatim>\<open>right\<close>. The straight-line candidate and the fifty
  random walks are all the string \<^verbatim>\<open>right\<close>, which is the canonical answer; the reversed path
  \<^verbatim>\<open>left\<close> is the only distractor, and the mutation strategy needs a path of two steps.
  \<^verbatim>\<open>scenario_to_eval_doc\<close> has no test of the number of distractors and returns a record of
  two choices, and \<^verbatim>\<open>main\<close> appends it to the samples it writes.
\<close>

theorem spatial_main_emits_record_with_one_distractor:
  "map_sum id fst (spatial_generate_scenario shortage_draws) = Inr (Some shortage_scenario) \<and>
   map_sum id fst (spatial_generate_distractors shortage_scenario (\<lambda>i. 3) 3) = Inr [''left''] \<and>
   map_sum id fst
     (spatial_scenario_to_eval_doc render_prompt sha256_hex shortage_scenario (\<lambda>i. 3) 0) =
     Inr \<lparr>query = render_prompt shortage_scenario,
          choices = [''right'', ''left''], gold = 0, doc_id = 0,
          fingerprint = take 12 (sha256_hex (render_prompt shortage_scenario)),
          shortest_path_length = 1\<rparr> \<and>
   spatial_main render_prompt sha256_hex 1 shortage_draws =
     Inr ([\<lparr>query = render_prompt shortage_scenario,
             choices = [''right'', ''left''], gold = 0, doc_id = 0,
             fingerprint = take 12 (sha256_hex (render_prompt shortage_scenario)),
             shortest_path_length = 1\<rparr>], 1, Inr (1, 1))"
  unfolding shortage_draws_def shortage_scenario_def by code_simp

section \<open>The spatial driver ends within its attempt ceiling\<close>

text \<open>The path that \<^verbatim>\<open>a_star\<close> returns is a chain of neighbouring cells, whatever the start
  cell is, so \<^verbatim>\<open>path_to_directions\<close> finds a name for every step.\<close>

lemma DIR_NAMES_step:
  "d \<in> set DIRECTIONS \<Longrightarrow>
   \<exists>n. DIR_NAMES (fst (add_vec c d) - fst c, snd (add_vec c d) - snd c) = Some n"
  by (auto simp: DIRECTIONS_def DIR_NAMES_def add_vec_def)

lemma path_to_directions_snoc:
  "p \<noteq> [] \<Longrightarrow> path_to_directions p = Inr ds \<Longrightarrow>
   DIR_NAMES (fst q - fst (last p), snd q - snd (last p)) = Some n \<Longrightarrow>
   path_to_directions (p @ [q]) = Inr (ds @ [n])"
proof (induction p arbitrary: ds rule: path_to_directions.induct)
  case (1 a b rest)
  from "1.prems"(2) obtain d ds' where d: "DIR_NAMES (fst b - fst a, snd b - snd a) = Some d"
    "path_to_directions (b # rest) = Inr ds'" "ds = d # ds'"
    by (auto simp: err_bind_def split: option.splits sum.splits)
  have "path_to_directions ((b # rest) @ [q]) = Inr (ds' @ [n])"
    using "1.IH" [OF d(1) _ d(2)] "1.prems"(3) by simp
  then show ?case using d by (simp add: err_bind_def)
next
  case (2 a)
  then show ?case by (simp add: err_bind_def)
next
  case 3
  then show ?case by simp
qed

definition dirs_inv :: "entry list \<Rightarrow> bool" where
  "dirs_inv open_set =
     (\<forall>e \<in> set open_set. epath e \<noteq> [] \<and> last (epath e) = node e \<and>
        (\<exists>ds. path_to_directions (epath e) = Inr ds))"

lemma dirs_inv_expand:
  assumes inv: "dirs_inv open_set" and e: "e \<in> set open_set"
    and fd: "fold (push_neighbor goal obs gs vis (node e) (epath e)) DIRECTIONS
               (remove1 e open_set, counter) = (open_set', counter')"
  shows "dirs_inv open_set'"
  unfolding dirs_inv_def
proof
  fix x assume x: "x \<in> set open_set'"
  note f = fold_push_neighbor [of "(remove1 e open_set, counter)" goal obs gs vis "node e"
      "epath e" DIRECTIONS]
  show "epath x \<noteq> [] \<and> last (epath x) = node x \<and> (\<exists>ds. path_to_directions (epath x) = Inr ds)"
  proof (cases "x \<in> set (remove1 e open_set)")
    case True
    then have "x \<in> set open_set" using set_remove1_subset [of e open_set] by blast
    then show ?thesis using inv by (simp add: dirs_inv_def)
  next
    case False
    then have xin: "x \<in> set open_set' - set (remove1 e open_set)" using x by simp
    have "\<forall>ea \<in> set open_set' - set (remove1 e open_set).
        \<exists>d \<in> set DIRECTIONS. node ea = add_vec (node e) d \<and> epath ea = epath e @ [node ea]"
      using f by (simp add: fd)
    then obtain d where d: "d \<in> set DIRECTIONS" "node x = add_vec (node e) d"
      "epath x = epath e @ [node x]"
      using xin by blast
    from inv e obtain ds where p: "epath e \<noteq> []" "last (epath e) = node e"
      "path_to_directions (epath e) = Inr ds"
      by (auto simp: dirs_inv_def)
    from DIR_NAMES_step [OF d(1), of "node e"] obtain n where
      "DIR_NAMES (fst (node x) - fst (last (epath e)), snd (node x) - snd (last (epath e))) = Some n"
      using d(2) p(2) by auto
    from path_to_directions_snoc [OF p(1) p(3) this] show ?thesis
      using d(3) by simp
  qed
qed

lemma a_star_loop_dirs:
  assumes "dirs_inv open_set"
  shows "a_star_loop goal obs gs open_set counter visited = Some p \<Longrightarrow>
     \<exists>ds. path_to_directions p = Inr ds"
  using assms
proof (induction goal obs gs open_set counter visited rule: a_star_loop.induct)
  case (1 goal obs gs open_set counter visited)
  note inv = "1.prems"(2)
  note res = "1.prems"(1)
  show ?case
  proof (cases "open_set = []")
    case True
    then show ?thesis using res by (simp add: a_star_loop.simps)
  next
    case ne: False
    obtain e rest where hp: "heappop open_set = (e, rest)"
      by (cases "heappop open_set")
    note hm = heappop_min [OF ne hp]
    show ?thesis
    proof (cases "node e = goal")
      case True
      have "a_star_loop goal obs gs open_set counter visited = Some (epath e)"
        using ne hp True by (subst a_star_loop.simps) (simp add: node_def epath_def)
      then have "p = epath e" using res by simp
      then show ?thesis using inv hm(1) by (auto simp: dirs_inv_def)
    next
      case ng: False
      show ?thesis
      proof (cases "node e \<in> visited")
        case True
        have eq: "a_star_loop goal obs gs open_set counter visited =
            a_star_loop goal obs gs rest counter visited"
          using ne hp ng True by (subst a_star_loop.simps) (simp add: node_def epath_def)
        have "dirs_inv rest"
          using inv hm(2) set_remove1_subset [of e open_set] unfolding dirs_inv_def
          by blast
        then show ?thesis
          using "1.IH"(1) [OF ne refl hp [symmetric] refl refl] ng True eq res
          by (simp add: node_def)
      next
        case False
        obtain open_set' counter' where fd:
          "fold (push_neighbor goal obs gs (insert (node e) visited) (node e) (epath e))
             DIRECTIONS (rest, counter) = (open_set', counter')"
          by (cases "fold (push_neighbor goal obs gs (insert (node e) visited) (node e) (epath e))
             DIRECTIONS (rest, counter)")
        have eq: "a_star_loop goal obs gs open_set counter visited =
            a_star_loop goal obs gs open_set' counter' (insert (node e) visited)"
          using ne hp ng False fd by (subst a_star_loop.simps) (simp add: node_def epath_def)
        have "dirs_inv open_set'"
          using dirs_inv_expand [OF inv hm(1), of goal obs gs "insert (node e) visited" counter
              open_set' counter'] fd hm(2) by simp
        moreover have "(open_set', counter') =
            fold (push_neighbor goal obs gs (insert (fst (snd (snd e))) visited)
                    (fst (snd (snd e))) (snd (snd (snd e)))) DIRECTIONS (rest, counter)"
          using fd by (simp add: node_def epath_def)
        ultimately show ?thesis
          using "1.IH"(2) [OF ne refl hp [symmetric] refl refl _ _ refl refl, of open_set' counter']
            ng False eq res
          by (simp add: node_def)
      qed
    qed
  qed
qed

lemma a_star_dirs:
  "a_star start goal obs gs = Some p \<Longrightarrow> \<exists>ds. path_to_directions p = Inr ds"
  unfolding a_star_def
  by (rule a_star_loop_dirs [of "[(heuristic start goal, 0, start, [start])]"])
     (simp_all add: dirs_inv_def epath_def node_def)

lemma spatial_generate_scenario_ok:
  "\<exists>res r1. spatial_generate_scenario r = Inr (res, r1) \<and>
     (\<forall>sc. res = Some sc \<longrightarrow>
        (\<exists>pd sp. path_directions sc = Some pd \<and> set pd \<subseteq> set all_dir_names \<and>
                 shortest_path sc = Some sp))"
proof -
  obtain chosen r1 where s: "sample all_coords (2 + SP_NUM_OBSTACLES) r = (chosen, r1)"
    by (cases "sample all_coords (2 + SP_NUM_OBSTACLES) r")
  show ?thesis
  proof (cases "a_star (chosen ! 0) (chosen ! 1) (set (drop 2 chosen)) GRID_SIZE")
    case None
    then show ?thesis using s by (simp add: spatial_generate_scenario_def Let_def)
  next
    case (Some p)
    from a_star_dirs [OF Some] obtain ds where d: "path_to_directions p = Inr ds" by blast
    have "set ds \<subseteq> set all_dir_names" by (rule path_to_directions_tokens [OF d])
    then show ?thesis
      using s Some d by (simp add: spatial_generate_scenario_def Let_def err_bind_def)
  qed
qed

lemma those_opposite_Some:
  "set xs \<subseteq> set all_dir_names \<Longrightarrow> \<exists>ys. those (map opposite xs) = Some ys"
proof (induction xs)
  case Nil
  then show ?case by simp
next
  case (Cons x xs)
  then obtain ys where "those (map opposite xs) = Some ys" by auto
  moreover have "\<exists>y. opposite x = Some y"
    using Cons.prems by (auto simp: all_dir_names_def opposite_def)
  ultimately show ?case by auto
qed

lemma spatial_generate_distractors_ok:
  assumes "path_directions sc = Some pd" "set pd \<subseteq> set all_dir_names"
  shows "\<exists>ds r'. spatial_generate_distractors sc r num = Inr (ds, r')"
proof -
  from those_opposite_Some [of "rev pd"] assms(2) obtain ys where
    y: "those (map opposite (rev pd)) = Some ys" by auto
  show ?thesis
    using assms(1) y
    by (simp add: spatial_generate_distractors_def Let_def err_bind_def
        del: naive_axis.simps spatial_random_walks.simps spatial_mutations.simps
        split: prod.splits)
qed

lemma spatial_scenario_to_eval_doc_ok:
  assumes "path_directions sc = Some pd" "set pd \<subseteq> set all_dir_names"
    and "shortest_path sc = Some sp"
  shows "\<exists>doc r'. spatial_scenario_to_eval_doc rp sha sc r did = Inr (doc, r')"
proof -
  from spatial_generate_distractors_ok [OF assms(1,2), of r 3] obtain ds r1 where
    g: "spatial_generate_distractors sc r 3 = Inr (ds, r1)" by blast
  let ?pairs = "zip [0..<length (join pd # ds)] (join pd # ds)"
  obtain sh r2 where s: "shuffle ?pairs r1 = (sh, r2)" by (cases "shuffle ?pairs r1")
  have "(0, join pd) \<in> set ?pairs"
    by (simp add: upt_rec [of 0])
  then have "(0, join pd) \<in> set sh"
    using shuffle_set [of ?pairs r1] s by simp
  then have "\<exists>x \<in> set sh. (\<lambda>(orig_i, c). orig_i = 0) x" by force
  from first_index_exists [OF this] obtain gi where
    f: "first_index (\<lambda>(orig_i, c). orig_i = 0) sh = Some gi" by blast
  show ?thesis
    using assms(1,3) g s f
    by (simp add: spatial_scenario_to_eval_doc_def Let_def err_bind_def)
qed

text \<open>One pass of the loop either ends it or raises the attempt counter by one.\<close>

lemma spatial_main_loop_bounds:
  "\<exists>samples' attempts'.
     spatial_main_loop rp sha num_samples max_attempts samples seen attempts r =
       Inr (samples', attempts') \<and>
     attempts \<le> attempts' \<and> attempts' \<le> max attempts max_attempts \<and>
     length samples \<le> length samples' \<and>
     int (length samples') \<le> max (int (length samples)) num_samples \<and>
     (int (length samples') \<ge> num_samples \<or> attempts' \<ge> max_attempts)"
proof (induction rp sha num_samples max_attempts samples seen attempts r
    rule: spatial_main_loop.induct)
  case (1 rp sha num_samples max_attempts samples seen attempts r)
  show ?case
  proof (cases "int (length samples) < num_samples \<and> attempts < max_attempts")
    case False
    then show ?thesis by (subst spatial_main_loop.simps) auto
  next
    case True
    from spatial_generate_scenario_ok [of r] obtain res r1 where
      g: "spatial_generate_scenario r = Inr (res, r1)"
      and ok: "\<forall>sc. res = Some sc \<longrightarrow>
        (\<exists>pd sp. path_directions sc = Some pd \<and> set pd \<subseteq> set all_dir_names \<and>
                 shortest_path sc = Some sp)"
      by blast
    show ?thesis
    proof (cases res)
      case None
      have eq: "spatial_main_loop rp sha num_samples max_attempts samples seen attempts r =
          spatial_main_loop rp sha num_samples max_attempts samples seen (attempts + 1) r1"
        using True g None by (subst spatial_main_loop.simps) simp
      from "1.IH"(1) [OF True g refl None] show ?thesis
        unfolding eq using True by auto
    next
      case (Some sc)
      from ok Some obtain pd sp where p: "path_directions sc = Some pd"
        "set pd \<subseteq> set all_dir_names" "shortest_path sc = Some sp" by blast
      from spatial_scenario_to_eval_doc_ok [OF p, of rp sha r1 "length samples"]
      obtain doc r2 where
        d: "spatial_scenario_to_eval_doc rp sha sc r1 (length samples) = Inr (doc, r2)" by blast
      show ?thesis
      proof (cases "fingerprint doc \<in> seen")
        case dup: True
        have eq: "spatial_main_loop rp sha num_samples max_attempts samples seen attempts r =
            spatial_main_loop rp sha num_samples max_attempts samples seen (attempts + 1) r2"
          using True g Some d dup by (subst spatial_main_loop.simps) simp
        from "1.IH"(2) [OF True g refl Some d refl dup] show ?thesis
          unfolding eq using True by auto
      next
        case new: False
        have eq: "spatial_main_loop rp sha num_samples max_attempts samples seen attempts r =
            spatial_main_loop rp sha num_samples max_attempts (samples @ [doc])
              (insert (fingerprint doc) seen) (attempts + 1) r2"
          using True g Some d new by (subst spatial_main_loop.simps) simp
        from "1.IH"(3) [OF True g refl Some d refl new] show ?thesis
          unfolding eq using True by auto
      qed
    qed
  qed
qed

text \<open>
  Claim C5, for the spatial generator, the one whose loop has an attempt ceiling. Every run
  of \<^verbatim>\<open>main\<close> ends, without an exception in the loop, after at most
  \<^verbatim>\<open>20 * num_samples\<close> attempts; it has then either the requested number of samples or has
  used up the ceiling, and it writes and reports the samples it has. The statistics after
  the report raise \<^verbatim>\<open>ValueError\<close> exactly when no sample was produced.
\<close>

theorem spatial_main_ends_within_ceiling:
  "\<exists>samples attempts stats.
     spatial_main render_prompt sha256_hex num_samples r = Inr (samples, attempts, stats) \<and>
     0 \<le> attempts \<and> attempts \<le> max 0 (num_samples * 20) \<and>
     int (length samples) \<le> max 0 num_samples \<and>
     (num_samples \<le> int (length samples) \<or> attempts = num_samples * 20) \<and>
     (stats = Inl ValueError) = (samples = [])"
proof -
  from spatial_main_loop_bounds [of render_prompt sha256_hex num_samples "num_samples * 20"
      "[]" "{}" 0 r]
  obtain samples attempts where
    l: "spatial_main_loop render_prompt sha256_hex num_samples (num_samples * 20) [] {} 0 r =
          Inr (samples, attempts)"
    and b: "0 \<le> attempts" "attempts \<le> max 0 (num_samples * 20)"
      "int (length samples) \<le> max 0 num_samples"
      "num_samples \<le> int (length samples) \<or> num_samples * 20 \<le> attempts"
    by auto
  have c: "num_samples \<le> int (length samples) \<or> attempts = num_samples * 20"
    using b by auto
  show ?thesis
    using l b(1,2,3) c by (simp add: spatial_main_def err_bind_def Let_def)
qed

section \<open>The key-lock driver has no attempt ceiling\<close>

text \<open>
  The instance that the key-lock sampler returns is a function of the first eight cells of
  the shuffled list and of the number of key and door pairs. \<open>layout_of\<close> and
  \<open>scenario_of\<close> name the two halves of \<^verbatim>\<open>generate_scenario\<close> after its draws; they are used
  to count the instances the sampler can return.
\<close>

definition layout_of :: "coord list \<Rightarrow> nat \<Rightarrow> kl_layout" where
  "layout_of cells num_pairs =
     (let (keys, doors, idx) = fold (place_pair cells) [0..<num_pairs] ([], [], 2);
          (obstacles, idx') = fold (place_obstacle cells) [0..<KL_NUM_OBSTACLES] ({}, idx)
      in (cells ! 0, cells ! 1, obstacles, keys, doors))"

definition scenario_of :: "kl_layout \<Rightarrow> KeyLockScenario option" where
  "scenario_of l =
     (let (start, goal, obstacles, keys, doors) = l in
      case bfs_with_keys start goal obstacles (map_of keys) (map_of doors) GRID_SIZE of
        None \<Rightarrow> None
      | Some (path, acts) \<Rightarrow>
          (let scenario =
             \<lparr>kl_grid_size = GRID_SIZE, kl_start = start, kl_goal = goal,
              kl_obstacles = obstacles, kl_keys = keys, kl_doors = doors,
              solution_actions = Some acts, solution_path = Some path\<rparr>
           in case bfs_with_keys start goal obstacles Map.empty Map.empty GRID_SIZE of
                None \<Rightarrow> Some scenario
              | Some (no_key_path, no_key_actions) \<Rightarrow>
                  if length no_key_path \<le> length path then
                    (if \<not> (\<exists>d \<in> set (map fst doors). d \<in> set no_key_path) then None
                     else Some scenario)
                  else Some scenario))"

lemma keylock_place_layout:
  "keylock_place cells r1 =
     (layout_of cells (fst (choice [1, 2 :: nat] r1)), snd (choice [1, 2 :: nat] r1))"
  by (cases "choice [1, 2 :: nat] r1")
     (simp add: keylock_place_def layout_of_def Let_def split: prod.splits)

lemma layout_of_take:
  assumes "k = 1 \<or> k = 2"
  shows "layout_of (take 8 cells) k = layout_of cells k"
proof -
  have u: "[0..<2] = [0, Suc 0]" by (simp add: upt_rec)
  have o: "[0..<KL_NUM_OBSTACLES] = [0, Suc 0]" by (simp add: KL_NUM_OBSTACLES_def upt_rec)
  show ?thesis
    using assms
    by (auto simp: layout_of_def place_pair_def place_obstacle_def Let_def u o)
qed

lemma keylock_generate_scenario_of:
  "fst (keylock_generate_scenario r) =
     scenario_of (layout_of (take 8 (fst (shuffle all_cells r)))
                    (fst (choice [1, 2 :: nat] (snd (shuffle all_cells r)))))"
proof -
  obtain cells r1 where sh: "shuffle all_cells r = (cells, r1)" by (cases "shuffle all_cells r")
  have len: "\<not> length cells < 10"
    using shuffle_length [of all_cells r] by (simp add: sh length_all_cells)
  have "fst (choice [1, 2 :: nat] r1) \<in> set [1, 2]"
    by (intro choice_in_set) simp
  then have k: "fst (choice [1, 2 :: nat] r1) = 1 \<or> fst (choice [1, 2 :: nat] r1) = 2" by auto
  obtain start goal obstacles keys doors where
    l: "layout_of cells (fst (choice [1, 2 :: nat] r1)) = (start, goal, obstacles, keys, doors)"
    by (cases "layout_of cells (fst (choice [1, 2 :: nat] r1))") auto
  have l8: "layout_of (take 8 cells) (fst (choice [1, 2 :: nat] r1)) =
      (start, goal, obstacles, keys, doors)"
    using layout_of_take [OF k, of cells] l by simp
  have pl: "keylock_place cells r1 =
      ((start, goal, obstacles, keys, doors), snd (choice [1, 2 :: nat] r1))"
    using keylock_place_layout [of cells r1] l by simp
  have "fst (keylock_generate_scenario r) = scenario_of (start, goal, obstacles, keys, doors)"
    using len
    by (simp add: keylock_generate_scenario_def sh pl scenario_of_def Let_def
        split: option.splits)
  then show ?thesis using l8 by (simp add: sh)
qed

definition kl_draws :: "(coord list \<times> nat) set" where
  "kl_draws = {xs. set xs \<subseteq> set all_cells \<and> length xs = 8} \<times> {1, 2}"

lemma finite_kl_draws: "finite kl_draws"
  unfolding kl_draws_def by (intro finite_cartesian_product finite_lists_length_eq) simp_all

lemma card_kl_draws: "card kl_draws \<le> 2 * 25 ^ 8"
proof -
  have "card (set all_cells) \<le> 25"
    using card_length [of all_cells] by (simp add: length_all_cells)
  then have "card (set all_cells) ^ 8 \<le> (25 :: nat) ^ 8" by (rule power_mono) simp
  then show ?thesis
    unfolding kl_draws_def
    by (simp add: card_cartesian_product card_lists_length_eq)
qed

lemma keylock_generate_scenario_in_draws:
  "\<exists>d \<in> kl_draws. fst (keylock_generate_scenario r) = scenario_of (layout_of (fst d) (snd d))"
proof -
  let ?cells = "fst (shuffle all_cells r)"
  let ?k = "fst (choice [1, 2 :: nat] (snd (shuffle all_cells r)))"
  have "set (take 8 ?cells) \<subseteq> set all_cells"
    using set_take_subset [of 8 ?cells] shuffle_set [of all_cells r] by auto
  moreover have "length (take 8 ?cells) = 8"
    using shuffle_length [of all_cells r] by (simp add: length_all_cells)
  moreover have "?k \<in> set [1, 2]" by (intro choice_in_set) simp
  ultimately have "(take 8 ?cells, ?k) \<in> kl_draws" by (simp add: kl_draws_def)
  then show ?thesis using keylock_generate_scenario_of [of r] by force
qed

text \<open>The fingerprints a run of the key-lock generator can enter into its ledger.\<close>

definition kl_fingerprints :: "(KeyLockScenario \<Rightarrow> string) \<Rightarrow> (string \<Rightarrow> string) \<Rightarrow> string set" where
  "kl_fingerprints fp_data sha256_hex =
     (\<lambda>d. sha256_hex (fp_data (the (scenario_of (layout_of (fst d) (snd d)))))) ` kl_draws"

lemma finite_kl_fingerprints: "finite (kl_fingerprints fpd sha)"
  unfolding kl_fingerprints_def by (intro finite_imageI finite_kl_draws)

lemma card_kl_fingerprints: "card (kl_fingerprints fpd sha) \<le> 2 * 25 ^ 8"
proof -
  have "card (kl_fingerprints fpd sha) \<le> card kl_draws"
    unfolding kl_fingerprints_def by (intro card_image_le finite_kl_draws)
  then show ?thesis using card_kl_draws by linarith
qed

lemma keylock_generate_scenario_fingerprint:
  assumes "keylock_generate_scenario r = (Some sc, r1)"
  shows "sha (fpd sc) \<in> kl_fingerprints fpd sha \<and> (\<exists>acts. solution_actions sc = Some acts)"
proof -
  from keylock_generate_scenario_in_draws [of r] assms obtain d where
    d: "d \<in> kl_draws" "scenario_of (layout_of (fst d) (snd d)) = Some sc"
    by auto
  then have "sha (fpd sc) \<in> kl_fingerprints fpd sha"
    unfolding kl_fingerprints_def by force
  moreover have "\<exists>acts. solution_actions sc = Some acts"
    using d(2) by (auto simp: scenario_of_def Let_def split: prod.splits option.splits if_splits)
  ultimately show ?thesis by simp
qed

lemma keylock_scenario_to_eval_doc_ok:
  assumes "solution_actions sc = Some correct"
  shows "\<exists>res r'. keylock_scenario_to_eval_doc rp sc r did = Inr (res, r')"
proof -
  obtain ds r1 where g: "keylock_generate_distractors sc r 3 = (ds, r1)"
    by (cases "keylock_generate_distractors sc r 3")
  obtain order r2 where s: "shuffle [0..<4] r1 = (order, r2)" by (cases "shuffle [0..<4] r1")
  have "(3 :: nat) \<in> set [0..<4]" by simp
  then have "3 \<in> set order" using shuffle_set [of "[0..<4]" r1] s by simp
  then have "\<exists>x \<in> set order. x = 3" by simp
  from first_index_exists [OF this] obtain gi where
    f: "first_index (\<lambda>i. i = 3) order = Some gi" by blast
  show ?thesis
    using assms g s f by (simp add: keylock_scenario_to_eval_doc_def Let_def)
qed

text \<open>
  A document is appended only together with a fingerprint that is new to the ledger, so
  there are never more documents than fingerprints in the ledger. Once more documents are
  asked for than there are fingerprints, the loop cannot end.
\<close>

lemma keylock_main_loop_exhausted:
  assumes "keylock_main_loop rp fpd sha n docs emitted fps attempts r = Some y"
  shows "\<not> (fps \<subseteq> kl_fingerprints fpd sha \<and> length docs \<le> card fps \<and>
            int (card (kl_fingerprints fpd sha)) < n)"
proof (rule keylock_main_loop.raw_induct
    [where P = "\<lambda>rp fpd sha n docs emitted fps attempts r y.
       \<not> (fps \<subseteq> kl_fingerprints fpd sha \<and> length docs \<le> card fps \<and>
            int (card (kl_fingerprints fpd sha)) < n)", OF _ assms], goal_cases)
  case (1 loop rp fpd sha n docs emitted fps attempts r y)
  note IH = 1(1) and eq = 1(2)
  show ?case
  proof
    assume inv: "fps \<subseteq> kl_fingerprints fpd sha \<and> length docs \<le> card fps \<and>
            int (card (kl_fingerprints fpd sha)) < n"
    have fin: "finite fps" using inv finite_kl_fingerprints finite_subset by blast
    have "card fps \<le> card (kl_fingerprints fpd sha)"
      using inv by (intro card_mono finite_kl_fingerprints) simp
    then have go: "int (length docs) < n" using inv by linarith
    obtain res r1 where g: "keylock_generate_scenario r = (res, r1)"
      by (cases "keylock_generate_scenario r")
    show False
    proof (cases res)
      case None
      then have "loop rp fpd sha n docs emitted fps (attempts + 1) r1 = Some y"
        using eq go g by simp
      from IH [OF this] inv show False by simp
    next
      case (Some sc)
      from keylock_generate_scenario_fingerprint [of r sc r1 sha fpd] g Some
      obtain acts where fp: "sha (fpd sc) \<in> kl_fingerprints fpd sha"
        and sa: "solution_actions sc = Some acts" by auto
      show False
      proof (cases "sha (fpd sc) \<in> fps")
        case True
        then have "loop rp fpd sha n docs emitted fps (attempts + 1) r1 = Some y"
          using eq go g Some by (simp add: Let_def)
        from IH [OF this] inv show False by simp
      next
        case new: False
        from keylock_scenario_to_eval_doc_ok [OF sa, of rp r1 "length docs"] obtain dres r2 where
          d: "keylock_scenario_to_eval_doc rp sc r1 (length docs) = Inr (dres, r2)" by blast
        have c: "card (insert (sha (fpd sc)) fps) = Suc (card fps)"
          using new fin by simp
        have sub: "insert (sha (fpd sc)) fps \<subseteq> kl_fingerprints fpd sha"
          using fp inv by simp
        show False
        proof (cases dres)
          case None
          then have "loop rp fpd sha n docs emitted (insert (sha (fpd sc)) fps) (attempts + 1) r2 =
              Some y"
            using eq go g Some new d by (simp add: Let_def)
          from IH [OF this] inv sub c show False by simp
        next
          case (Some doc)
          then have "loop rp fpd sha n (docs @ [doc]) (emitted @ [sha (fpd sc)])
              (insert (sha (fpd sc)) fps) (attempts + 1) r2 = Some y"
            using eq go g \<open>res = Some sc\<close> new d by (simp add: Let_def)
          from IH [OF this] inv sub c show False by simp
        qed
      qed
    qed
  qed
qed

lemma keylock_main_never_ends:
  assumes "305175781250 < n"
  shows "keylock_main rp fpd sha n r = None"
proof -
  have "(2 :: nat) * 25 ^ 8 = 305175781250" by simp
  then have "card (kl_fingerprints fpd sha) \<le> 305175781250"
    using card_kl_fingerprints [of fpd sha] by simp
  then have "int (card (kl_fingerprints fpd sha)) < n"
    using assms by linarith
  then have "keylock_main_loop rp fpd sha n [] [] {} 0 r = None"
    using keylock_main_loop_exhausted [of rp fpd sha n "[]" "[]" "{}" 0 r]
    by (cases "keylock_main_loop rp fpd sha n [] [] {} 0 r") auto
  then show ?thesis by (simp add: keylock_main_def)
qed

text \<open>
  The claim as stated fails on the key-lock generator: asked for \<open>10\<^sup>1\<^sup>2\<close> samples, more
  than the sampler has instances, its run never ends, on the draw sequence below as on
  every other.
\<close>

theorem keylock_main_runs_forever:
  "keylock_main (\<lambda>sc. ''prompt'') (\<lambda>sc. ''data'') (\<lambda>s. s) 1000000000000 example_keylock_draws =
     None"
  by (rule keylock_main_never_ends) simp

end
